(* ===== verification/Prelude.thy ===== *)
theory Prelude
  imports Main "HOL-Library.Word" "HOL-Library.Sublist"
begin

text \<open>
  Shared vocabulary of the development: the machine integers and character classes the
  C++ sources use, the operations of \<^verbatim>\<open>std::string\<close>, \<^verbatim>\<open>std::getline\<close> and
  \<^verbatim>\<open>std::to_string\<close> they call, the search for the first unused identifier that both
  entity stores perform, and the lemma collections the component theories use.

  A C++ \<^verbatim>\<open>std::string\<close> is a list of bytes, so it is a HOL \<open>string\<close>, whose characters
  are bytes too. \<^verbatim>\<open>int\<close> is a 32 bit word read with \<open>sint\<close>, \<^verbatim>\<open>short\<close> a 16 bit word.
  \<^verbatim>\<open>std::string::npos\<close> is \<open>None\<close>.
\<close>

named_theorems str_simps \<open>searching and splitting strings\<close>
named_theorems parse_simps \<open>steps of the two parsers\<close>
named_theorems store_simps \<open>operations of the entity stores\<close>
named_theorems resp_simps \<open>what the response builders put into a response\<close>

subsection \<open>Integers and characters\<close>

type_synonym cint = "32 word"
type_synonym cshort = "16 word"

abbreviation CR :: char where "CR \<equiv> CHR 0x0D"
abbreviation LF :: char where "LF \<equiv> CHR 0x0A"
abbreviation TAB :: char where "TAB \<equiv> CHR 0x09"
abbreviation SPACE :: char where "SPACE \<equiv> CHR 0x20"
abbreviation CRLF :: string where "CRLF \<equiv> [CR, LF]"
abbreviation CRLFCRLF :: string where "CRLFCRLF \<equiv> [CR, LF, CR, LF]"

definition code :: "char \<Rightarrow> nat" where
  "code c = of_char c"

definition isdigit :: "char \<Rightarrow> bool" where
  "isdigit c \<longleftrightarrow> 48 \<le> code c \<and> code c \<le> 57"

definition isalnum :: "char \<Rightarrow> bool" where
  "isalnum c \<longleftrightarrow> isdigit c \<or> (65 \<le> code c \<and> code c \<le> 90) \<or> (97 \<le> code c \<and> code c \<le> 122)"

definition isspace :: "char \<Rightarrow> bool" where
  "isspace c \<longleftrightarrow> c = SPACE \<or> (9 \<le> code c \<and> code c \<le> 13)"

definition digit_char :: "nat \<Rightarrow> char" where
  "digit_char d = char_of (48 + d)"

lemma code_digit_char [simp]: "d < 10 \<Longrightarrow> code (digit_char d) = 48 + d"
  by (simp add: digit_char_def code_def)

lemma isdigit_digit_char [simp]: "d < 10 \<Longrightarrow> isdigit (digit_char d)"
  by (simp add: isdigit_def)

lemma code_inject [simp]: "code c = code d \<longleftrightarrow> c = d"
  by (simp add: code_def)

lemma digit_char_code: "isdigit c \<Longrightarrow> digit_char (code c - 48) = c"
  by (simp add: digit_char_def isdigit_def code_def)

text \<open>How a call ends: with a value, with an exception that nothing in the program catches, or not at all.\<close>

datatype 'a outcome = Done 'a | Exception | Forever

subsection \<open>Signed readings\<close>

lemma sint_of_nat_small: "n < 2 ^ 31 \<Longrightarrow> sint (of_nat n :: cint) = int n"
  by (transfer, simp add: signed_take_bit_int_eq_self)

lemma sint_bounds: "sint (i :: cint) < 2 ^ 31" "- (2 ^ 31) \<le> sint (i :: cint)"
  using sint_lt [of i] sint_ge [of i] by simp_all

lemma of_nat_sint [simp]: "0 \<le> sint (i :: cint) \<Longrightarrow> of_nat (nat (sint i)) = i"
  by simp

subsection \<open>Searching a string\<close>

text \<open>\<^verbatim>\<open>s.find(p)\<close>: the position of the first occurrence of \<open>p\<close> in \<open>s\<close>.\<close>

fun str_find :: "string \<Rightarrow> string \<Rightarrow> nat option" where
  "str_find p [] = (if p = [] then Some 0 else None)"
| "str_find p (c # cs) =
     (if take (length p) (c # cs) = p then Some 0 else map_option Suc (str_find p cs))"

text \<open>\<^verbatim>\<open>s.find(p) == 0\<close> and \<^verbatim>\<open>s.rfind(p, 0) == 0\<close>.\<close>

definition starts_with :: "string \<Rightarrow> string \<Rightarrow> bool" where
  "starts_with p s \<longleftrightarrow> take (length p) s = p"

lemma starts_with_prefix [str_simps]: "starts_with p s \<longleftrightarrow> prefix p s"
  by (metis append_eq_conv_conj prefix_def starts_with_def)

lemma str_find_0: "str_find p s = Some 0 \<longleftrightarrow> starts_with p s"
  by (cases s) (auto simp: starts_with_def)

lemma str_find_Some:
  "str_find p s = Some n \<Longrightarrow> n \<le> length s \<and> take (length p) (drop n s) = p"
proof (induction s arbitrary: n)
  case (Cons c s)
  then show ?case by (cases n) (auto split: if_splits)
qed (auto split: if_splits)

lemma str_find_SomeE:
  assumes "str_find p s = Some n"
  shows "s = take n s @ p @ drop (n + length p) s" "n + length p \<le> length s"
proof -
  from str_find_Some [OF assms] have n: "n \<le> length s" and p: "take (length p) (drop n s) = p"
    by auto
  have "drop n s = take (length p) (drop n s) @ drop (length p) (drop n s)"
    by (rule append_take_drop_id [symmetric])
  with p have "drop n s = p @ drop (n + length p) s" by (metis add.commute drop_drop)
  then show "s = take n s @ p @ drop (n + length p) s"
    by (metis append_take_drop_id)
  from p have "length p \<le> length (drop n s)"
    by (metis nat_le_linear length_take min.absorb_iff1 min.commute)
  with n show "n + length p \<le> length s" by simp
qed

text \<open>Text appended after the first occurrence does not move it.\<close>

lemma str_find_append: "str_find p s = Some n \<Longrightarrow> str_find p (s @ t) = Some n"
proof (induction s arbitrary: n)
  case Nil
  then show ?case by (cases t) (auto split: if_splits)
next
  case (Cons c s)
  show ?case
  proof (cases "take (length p) (c # s) = p")
    case True
    then have "length p \<le> length (c # s)"
      by (metis nat_le_linear take_all)
    then have "take (length p) ((c # s) @ t) = take (length p) (c # s)"
      by (metis append.right_neutral diff_is_0_eq take_0 take_append)
    with True Cons.prems show ?thesis by simp
  next
    case False
    with Cons.prems obtain m where m: "str_find p s = Some m" "n = Suc m" by auto
    from str_find_SomeE(2) [OF m(1)] have "length p \<le> length s" by simp
    then have "take (length p) ((c # s) @ t) = take (length p) (c # s)"
      by (cases "length p") auto
    with False m Cons.IH [OF m(1)] show ?thesis by simp
  qed
qed

text \<open>A string that occurs is found.\<close>

lemma str_find_complete: "\<exists>n. str_find p (a @ p @ b) = Some n"
proof (induction a)
  case Nil
  have "str_find p (p @ b) = Some 0" by (simp add: str_find_0 starts_with_def)
  then show ?case by simp
qed auto

lemma str_find_None_prefix: "str_find p (s @ t) = None \<Longrightarrow> str_find p s = None"
  by (cases "str_find p s") (auto dest: str_find_append [where t = t])

lemma str_find_char_None [str_simps]: "str_find [c] s = None \<longleftrightarrow> c \<notin> set s"
  by (induction s) auto

lemma str_find_char_append [str_simps]: "c \<notin> set xs \<Longrightarrow> str_find [c] (xs @ c # ys) = Some (length xs)"
  by (induction xs) auto

lemma str_find_char_first: "str_find [c] s = Some n \<Longrightarrow> c \<notin> set (take n s)"
proof (induction s arbitrary: n)
  case (Cons d s)
  then show ?case by (cases n) (auto split: if_splits)
qed simp

text \<open>Putting items in front of a list that may be missing.\<close>

definition prepend :: "'a list \<Rightarrow> 'a list option \<Rightarrow> 'a list option" where
  "prepend xs z = map_option ((@) xs) z"

lemma prepend_simps [simp]:
  "prepend [] z = z"
  "prepend xs None = None"
  "prepend xs (Some ys) = Some (xs @ ys)"
  "prepend xs (prepend ys z) = prepend (xs @ ys) z"
  "prepend xs z = None \<longleftrightarrow> z = None"
  by (cases z; simp add: prepend_def)+

subsection \<open>std::getline\<close>

text \<open>
  \<^verbatim>\<open>std::getline(stream, line, d)\<close> on what is left of a stream: it fails when nothing is
  left, otherwise it takes the bytes up to the delimiter, which it drops.
\<close>

definition getline :: "char \<Rightarrow> string \<Rightarrow> (string \<times> string) option" where
  "getline d s =
     (if s = [] then None
      else Some (takeWhile (\<lambda>c. c \<noteq> d) s, tl (dropWhile (\<lambda>c. c \<noteq> d) s)))"

lemma getline_Nil [simp]: "getline d [] = None"
  by (simp add: getline_def)

lemma getline_shorter: "getline d s = Some (l, r) \<Longrightarrow> length r < length s"
  using length_dropWhile_le [of "\<lambda>c. c \<noteq> d" s]
  by (cases s) (auto simp: getline_def split: if_splits)

lemma getline_hit [simp]: "d \<notin> set l \<Longrightarrow> getline d (l @ d # r) = Some (l, r)"
  by (induction l) (auto simp: getline_def)

lemma getline_last [simp]: "d \<notin> set l \<Longrightarrow> l \<noteq> [] \<Longrightarrow> getline d l = Some (l, [])"
proof -
  assume "d \<notin> set l" "l \<noteq> []"
  then have "dropWhile (\<lambda>c. c \<noteq> d) l = []" "takeWhile (\<lambda>c. c \<noteq> d) l = l"
    by (auto simp: dropWhile_eq_Nil_conv takeWhile_eq_all_conv)
  with \<open>l \<noteq> []\<close> show ?thesis by (simp only: getline_def if_False list.sel)
qed

lemma getline_SomeD:
  assumes "getline d s = Some (l, r)"
  shows "d \<notin> set l" "s = l @ d # r \<or> s = l \<and> r = []"
proof -
  let ?p = "\<lambda>c. c \<noteq> d"
  have s: "takeWhile ?p s @ dropWhile ?p s = s" by (rule takeWhile_dropWhile_id)
  from assms have l: "l = takeWhile ?p s" and r: "r = tl (dropWhile ?p s)"
    by (auto simp: getline_def split: if_splits)
  show "d \<notin> set l" unfolding l by (auto dest: set_takeWhileD)
  show "s = l @ d # r \<or> s = l \<and> r = []"
  proof (cases "dropWhile ?p s")
    case Nil
    with s l r show ?thesis by (metis append_Nil2 list.sel(2))
  next
    case (Cons c cs)
    then have "c = d" using hd_dropWhile [of ?p s] by auto
    with Cons s l r show ?thesis by (metis list.sel(3))
  qed
qed

subsection \<open>Decimal text: std::to_string\<close>

fun dec_nat :: "nat \<Rightarrow> string" where
  "dec_nat n = (if n < 10 then [digit_char n] else dec_nat (n div 10) @ [digit_char (n mod 10)])"

declare dec_nat.simps [simp del]

definition dec_int :: "int \<Rightarrow> string" where
  "dec_int i = (if i < 0 then ''-'' @ dec_nat (nat (- i)) else dec_nat (nat i))"

text \<open>\<^verbatim>\<open>std::to_string\<close> of an \<^verbatim>\<open>int\<close>, and what \<^verbatim>\<open>operator<<\<close> prints for one.\<close>

definition to_string :: "cint \<Rightarrow> string" where
  "to_string w = dec_int (sint w)"

text \<open>The value a string of decimal digits denotes, with no bound on it.\<close>

definition dec_value :: "string \<Rightarrow> nat" where
  "dec_value s = foldl (\<lambda>v c. v * 10 + (code c - 48)) 0 s"

lemma digit_chars:
  "digit_char 0 = CHR ''0''" "digit_char 1 = CHR ''1''" "digit_char (Suc 0) = CHR ''1''"
  "digit_char 2 = CHR ''2''"
  by code_simp+

lemma dec_nat_nonempty [simp]: "dec_nat n \<noteq> []"
  by (subst dec_nat.simps) simp

lemma dec_nat_digits: "c \<in> set (dec_nat n) \<Longrightarrow> isdigit c"
proof (induction n rule: dec_nat.induct)
  case (1 n)
  then show ?case
    by (cases "n < 10") (auto simp: dec_nat.simps [of n])
qed

lemma dec_value_snoc: "dec_value (s @ [c]) = dec_value s * 10 + (code c - 48)"
  by (simp add: dec_value_def)

lemma dec_value_dec_nat [simp]: "dec_value (dec_nat n) = n"
proof (induction n rule: dec_nat.induct)
  case (1 n)
  show ?case
  proof (cases "n < 10")
    case True
    then show ?thesis by (simp add: dec_nat.simps [of n] dec_value_def)
  next
    case False
    with 1 show ?thesis by (simp add: dec_nat.simps [of n] dec_value_snoc)
  qed
qed

lemma dec_nat_inject [simp]: "dec_nat m = dec_nat n \<longleftrightarrow> m = n"
  by (metis dec_value_dec_nat)

lemma dec_value_bound: "\<forall>c\<in>set s. isdigit c \<Longrightarrow> dec_value s < 10 ^ length s"
proof (induction s rule: rev_induct)
  case Nil
  show ?case by (simp add: dec_value_def)
next
  case (snoc c s)
  then have "dec_value s < 10 ^ length s" and "code c - 48 < 10"
    by (auto simp: isdigit_def)
  then show ?case by (simp add: dec_value_snoc)
qed

lemma to_string_nonneg: "0 \<le> sint w \<Longrightarrow> to_string w = dec_nat (nat (sint w))"
  by (simp add: to_string_def dec_int_def)

lemma dec_nat_minus: "''-'' @ s \<noteq> dec_nat n" "dec_nat n \<noteq> ''-'' @ s"
proof -
  have "\<not> isdigit (CHR ''-'')" by (simp add: isdigit_def code_def)
  with dec_nat_digits [of "CHR ''-''" n] show "''-'' @ s \<noteq> dec_nat n" "dec_nat n \<noteq> ''-'' @ s"
    by (metis append_Cons list.set_intros(1))+
qed

lemma to_string_inject [simp]: "to_string i = to_string j \<longleftrightarrow> i = j"
proof
  assume eq: "to_string i = to_string j"
  then have "sint i = sint j"
    using dec_nat_minus by (auto simp: to_string_def dec_int_def split: if_splits)
  then show "i = j" by (rule signed_word_eqI)
qed simp

subsection \<open>The first unused identifier\<close>

text \<open>
  \<^verbatim>\<open>while (ids.count(next_id)) next_id++\<close>. On a set that holds every \<^verbatim>\<open>int\<close> the loop never
  ends, so the search is a partial function; \<open>next_unused_ex\<close> says when it ends and where.
\<close>

partial_function (option) next_unused :: "(cint \<Rightarrow> bool) \<Rightarrow> cint \<Rightarrow> cint option" where
  "next_unused used i = (if used i then next_unused used (i + 1) else Some i)"

lemma next_unused_run:
  "\<forall>j<k. used (i + of_nat j) \<Longrightarrow> \<not> used (i + of_nat k) \<Longrightarrow> next_unused used i = Some (i + of_nat k)"
proof (induction k arbitrary: i)
  case 0
  then show ?case by (simp add: next_unused.simps)
next
  case (Suc k)
  have shift: "i + 1 + of_nat j = i + of_nat (Suc j)" for j by simp
  from Suc.prems(1) have "used i" by force
  moreover have "next_unused used (i + 1) = Some (i + 1 + of_nat k)"
  proof (rule Suc.IH)
    show "\<forall>j<k. used (i + 1 + of_nat j)" using Suc.prems(1) shift by (metis Suc_less_eq)
    show "\<not> used (i + 1 + of_nat k)" using Suc.prems(2) shift by metis
  qed
  ultimately show ?case by (simp add: next_unused.simps [of used i] algebra_simps)
qed

lemma next_unused_ex:
  fixes used :: "cint \<Rightarrow> bool"
  assumes "card {x. used x} < 2 ^ 32"
  shows "\<exists>k \<le> card {x. used x}. next_unused used i = Some (i + of_nat k)
    \<and> (\<forall>j<k. used (i + of_nat j)) \<and> \<not> used (i + of_nat k)"
proof -
  let ?n = "card {x. used x}"
  have "\<exists>k \<le> ?n. \<not> used (i + of_nat k)"
  proof (rule ccontr)
    assume "\<not> ?thesis"
    then have sub: "(\<lambda>k. i + of_nat k) ` {0..?n} \<subseteq> {x. used x}" by auto
    have "inj_on (\<lambda>k. i + of_nat k :: cint) {0..?n}"
    proof (rule inj_onI)
      fix x y assume "x \<in> {0..?n}" "y \<in> {0..?n}" "i + of_nat x = i + (of_nat y :: cint)"
      then have "unat (of_nat x :: cint) = unat (of_nat y :: cint)" "x < 2 ^ 32" "y < 2 ^ 32"
        using assms by auto
      then show "x = y" by (simp add: unat_of_nat)
    qed
    from card_image [OF this] card_mono [OF _ sub] show False by simp
  qed
  then obtain k where k: "k \<le> ?n" "\<not> used (i + of_nat k)" by auto
  define m where "m = (LEAST k. \<not> used (i + of_nat k))"
  from k(2) have m: "\<not> used (i + of_nat m)" "m \<le> k"
    unfolding m_def by (rule LeastI, rule Least_le)
  have below: "\<forall>j<m. used (i + of_nat j)"
    unfolding m_def using not_less_Least by blast
  from next_unused_run [OF below m(1)] below m k(1) show ?thesis
    by (meson le_trans)
qed

lemma next_unused_fresh:
  assumes "next_unused used i = Some r"
  shows "\<not> used r"
  by (rule next_unused.raw_induct [where P = "\<lambda>used i r. \<not> used r", OF _ assms])
    (auto split: if_splits)

text \<open>Away from the largest \<^verbatim>\<open>int\<close> the search counts upwards as on the integers.\<close>

lemma next_unused_int:
  fixes used :: "cint \<Rightarrow> bool"
  assumes start: "0 \<le> sint i" "sint i + int (card {x. used x}) < 2 ^ 31"
  shows "\<exists>r. next_unused used i = Some r \<and> sint i \<le> sint r \<and> \<not> used r
    \<and> (\<forall>j. sint i \<le> sint j \<and> sint j < sint r \<longrightarrow> used j)"
proof -
  have "card {x. used x} < 2 ^ 32" using assms by simp
  from next_unused_ex [OF this, of i] obtain k where
    k: "k \<le> card {x. used x}" "next_unused used i = Some (i + of_nat k)"
      "\<forall>j<k. used (i + of_nat j)" "\<not> used (i + of_nat k)" by auto
  have sum: "sint (i + of_nat j) = sint i + int j" if "j \<le> k" for j
  proof -
    have "i + of_nat j = of_nat (nat (sint i) + j)"
      using start(1) by (simp only: of_nat_add of_nat_sint)
    moreover have "nat (sint i) + j < 2 ^ 31" using that k(1) start by simp
    ultimately have "sint (i + of_nat j) = int (nat (sint i) + j)"
      by (simp only: sint_of_nat_small)
    with start(1) show ?thesis by simp
  qed
  have "used j" if j: "sint i \<le> sint j" "sint j < sint (i + of_nat k)" for j
  proof -
    define m where "m = nat (sint j - sint i)"
    have m: "int m = sint j - sint i" using j(1) by (simp add: m_def)
    with j sum [of k] have "m < k" by simp
    moreover from this sum [of m] m have "sint (i + of_nat m) = sint j" by simp
    then have "i + of_nat m = j" by (rule signed_word_eqI)
    ultimately show ?thesis using k(3) by auto
  qed
  with k sum [of k] show ?thesis by auto
qed

end
