(* ===== verification/Http.thy ===== *)
theory Http
  imports Prelude
begin

text \<open>
  The HTTP messages of \<^verbatim>\<open>include/request_handler.h\<close>, the response builders of
  \<^verbatim>\<open>src/response_builder.cc\<close> and \<^verbatim>\<open>session::SerializeResponse\<close>, which turns a response
  into the bytes sent to the client.

  The lemmas show that every builder gives a response whose \<^verbatim>\<open>Content-Length\<close> is the size of
  its body, and that the bytes of a response determine its status line, headers and body.
\<close>

subsection \<open>Messages\<close>

record request =
  is_valid :: bool
  raw_request :: string
  rq_method :: string
  url :: string
  rq_http_version :: string
  rq_headers :: "string list"
  rq_body :: string

record response =
  rs_http_version :: string
  status_code :: string
  content_type :: string
  content_length :: string
  rs_headers :: "string list"
  rs_body :: string

subsection \<open>Response builders\<close>

definition FormatResponse :: "string \<Rightarrow> string \<Rightarrow> string \<Rightarrow> response" where
  "FormatResponse status ctype body =
     \<lparr>rs_http_version = ''1.1'',
      status_code = status,
      content_type = ctype,
      content_length = dec_nat (length body),
      rs_headers =
        [''Content-Type: '' @ ctype,
         ''Content-Length: '' @ dec_nat (length body),
         ''Connection: close''],
      rs_body = body\<rparr>"

definition BuildResponse :: "string \<Rightarrow> string \<Rightarrow> string \<Rightarrow> response" where
  "BuildResponse status ctype body = FormatResponse status ctype body"

definition Ok :: "string \<Rightarrow> string \<Rightarrow> response" where
  "Ok body ctype = FormatResponse ''200 OK'' ctype body"

definition NotFound :: "string \<Rightarrow> response" where
  "NotFound message = FormatResponse ''404 Not Found'' ''text/plain'' message"

definition Forbidden :: "string \<Rightarrow> response" where
  "Forbidden message = FormatResponse ''403 Forbidden'' ''text/plain'' message"

definition BadRequest :: "string \<Rightarrow> response" where
  "BadRequest message = FormatResponse ''400 Bad Request'' ''text/plain'' message"

definition InternalServerError :: "string \<Rightarrow> response" where
  "InternalServerError message = FormatResponse ''500 Internal Server Error'' ''text/plain'' message"

definition MethodNotAllowed :: "string \<Rightarrow> response" where
  "MethodNotAllowed message = FormatResponse ''405 Method Not Allowed'' ''text/plain'' message"

text \<open>The default arguments of \<^verbatim>\<open>include/response_builder.h\<close>.\<close>

definition text_plain :: string where "text_plain = ''text/plain''"
definition NotFound_default :: string where "NotFound_default = ''404 Not Found''"
definition Forbidden_default :: string where "Forbidden_default = ''403 Forbidden''"
definition BadRequest_default :: string where "BadRequest_default = ''400 Bad Request''"
definition InternalServerError_default :: string where
  "InternalServerError_default = ''500 Internal Server Error''"
definition MethodNotAllowed_default :: string where
  "MethodNotAllowed_default = ''405 Method Not Allowed''"

lemmas builder_defs = BuildResponse_def Ok_def NotFound_def Forbidden_def BadRequest_def
  InternalServerError_def MethodNotAllowed_def

lemma FormatResponse_sel [resp_simps]:
  "status_code (FormatResponse s t b) = s"
  "content_type (FormatResponse s t b) = t"
  "rs_body (FormatResponse s t b) = b"
  by (simp_all add: FormatResponse_def)

lemma builder_status [resp_simps]:
  "status_code (Ok b t) = ''200 OK''"
  "status_code (NotFound m) = ''404 Not Found''"
  "status_code (Forbidden m) = ''403 Forbidden''"
  "status_code (BadRequest m) = ''400 Bad Request''"
  "status_code (InternalServerError m) = ''500 Internal Server Error''"
  "status_code (MethodNotAllowed m) = ''405 Method Not Allowed''"
  by (simp_all add: builder_defs FormatResponse_sel)

lemma builder_body [resp_simps]:
  "rs_body (Ok b t) = b"
  "rs_body (NotFound m) = m"
  "rs_body (Forbidden m) = m"
  "rs_body (BadRequest m) = m"
  "rs_body (InternalServerError m) = m"
  "rs_body (MethodNotAllowed m) = m"
  by (simp_all add: builder_defs FormatResponse_sel)

text \<open>
  What a client relies on to frame a response: the status is one of the six the server
  uses, the declared length is the size of the body, and the headers carry the declared
  type and length and no line break of their own.
\<close>

definition statuses :: "string list" where
  "statuses = [''200 OK'', ''404 Not Found'', ''403 Forbidden'', ''400 Bad Request'',
     ''500 Internal Server Error'', ''405 Method Not Allowed'']"

definition wf_response :: "response \<Rightarrow> bool" where
  "wf_response r \<longleftrightarrow>
     rs_http_version r = ''1.1'' \<and> status_code r \<in> set statuses \<and>
     content_length r = dec_nat (length (rs_body r)) \<and>
     rs_headers r =
       [''Content-Type: '' @ content_type r, ''Content-Length: '' @ content_length r,
        ''Connection: close''] \<and>
     CR \<notin> set (content_type r) \<and> LF \<notin> set (content_type r)"

lemma wf_FormatResponse:
  "s \<in> set statuses \<Longrightarrow> CR \<notin> set t \<Longrightarrow> LF \<notin> set t \<Longrightarrow> wf_response (FormatResponse s t b)"
  by (simp add: wf_response_def FormatResponse_def)

lemma wf_builders [resp_simps]:
  "wf_response (NotFound m)" "wf_response (Forbidden m)" "wf_response (BadRequest m)"
  "wf_response (InternalServerError m)" "wf_response (MethodNotAllowed m)"
  "CR \<notin> set t \<Longrightarrow> LF \<notin> set t \<Longrightarrow> wf_response (Ok b t)"
  by (simp_all add: builder_defs wf_FormatResponse statuses_def)

subsection \<open>session::SerializeResponse\<close>

text \<open>The response pointer may be null; then an internal server error is serialised.\<close>

fun header_lines :: "string list \<Rightarrow> string" where
  "header_lines [] = []"
| "header_lines (h # hs) = h @ CRLF @ header_lines hs"

definition serialize :: "response \<Rightarrow> string" where
  "serialize r = ''HTTP/1.1 '' @ status_code r @ CRLF @ header_lines (rs_headers r) @ CRLF @ rs_body r"

definition SerializeResponse :: "response option \<Rightarrow> string" where
  "SerializeResponse response_obj =
     (case response_obj of
        None \<Rightarrow> serialize (InternalServerError InternalServerError_default)
      | Some r \<Rightarrow> serialize r)"

text \<open>
  The first blank line of a message whose lines hold no line break ends its head, and what
  follows is the body, whatever bytes the body has.
\<close>

lemma str_find_line:
  "CR \<notin> set l \<Longrightarrow>
   str_find CRLFCRLF (l @ CR # LF # s) =
     (if starts_with CRLF s then Some (length l)
      else map_option (\<lambda>n. length l + 2 + n) (str_find CRLFCRLF s))"
proof (induction l)
  case Nil
  have "str_find CRLFCRLF (CR # LF # s) = (if starts_with CRLF s then Some 0
      else map_option (\<lambda>n. Suc (Suc n)) (str_find CRLFCRLF s))"
    by (auto simp: starts_with_def option.map_comp comp_def)
  then show ?case by (simp cong: option.map_cong)
next
  case (Cons c l)
  then show ?case by (auto simp: option.map_comp comp_def)
qed

definition line_ok :: "string \<Rightarrow> bool" where
  "line_ok l \<longleftrightarrow> l \<noteq> [] \<and> CR \<notin> set l"

lemma str_find_head:
  "list_all line_ok ls \<Longrightarrow> ls \<noteq> [] \<Longrightarrow>
   str_find CRLFCRLF (header_lines ls @ CRLF @ b) = Some (length (header_lines ls) - 2)"
proof (induction ls)
  case (Cons l ls)
  show ?case
  proof (cases ls)
    case Nil
    with Cons.prems show ?thesis by (simp add: str_find_line line_ok_def starts_with_def)
  next
    case (Cons l' ls')
    with Cons.prems Cons.IH have IH: "str_find CRLFCRLF (header_lines ls @ CRLF @ b)
        = Some (length (header_lines ls) - 2)" by simp
    from Cons Cons.prems have "\<not> starts_with CRLF (header_lines ls @ CRLF @ b)"
      "2 \<le> length (header_lines ls)"
      by (cases l'; auto simp: starts_with_def line_ok_def)+
    with IH Cons.prems str_find_line [of l "header_lines ls @ CRLF @ b"] show ?thesis
      by (simp add: line_ok_def)
  qed
qed simp

lemma line_split:
  "c \<notin> set l \<Longrightarrow> c \<notin> set m \<Longrightarrow> l @ c # x = m @ c # y \<longleftrightarrow> l = m \<and> x = y"
proof (induction l arbitrary: m)
  case Nil
  then show ?case by (cases m) auto
next
  case (Cons d l)
  then show ?case by (cases m) auto
qed

lemma header_lines_inject:
  "list_all line_ok ls \<Longrightarrow> list_all line_ok ms \<Longrightarrow> header_lines ls = header_lines ms \<longleftrightarrow> ls = ms"
proof (induction ls arbitrary: ms)
  case Nil
  then show ?case by (cases ms) auto
next
  case (Cons l ls)
  show ?case
  proof (cases ms)
    case (Cons m ms')
    have "l @ CR # LF # header_lines ls = m @ CR # LF # header_lines ms' \<longleftrightarrow>
        l = m \<and> header_lines ls = header_lines ms'"
      using Cons.prems \<open>ms = m # ms'\<close> by (simp add: line_ok_def line_split)
    with Cons.IH [of ms'] Cons.prems Cons show ?thesis by simp
  qed simp
qed

lemma serialize_lines:
  "serialize r = header_lines ((''HTTP/1.1 '' @ status_code r) # rs_headers r) @ CRLF @ rs_body r"
  by (simp add: serialize_def)

lemma wf_response_lines:
  assumes "wf_response r"
  shows "list_all line_ok ((''HTTP/1.1 '' @ status_code r) # rs_headers r)"
proof -
  have "CR \<notin> set (dec_nat k)" for k
    using dec_nat_digits [of CR k] by (auto simp: isdigit_def code_def)
  with assms show ?thesis by (auto simp: wf_response_def line_ok_def statuses_def)
qed

lemma serialize_split:
  assumes "wf_response r"
  defines "head \<equiv> header_lines ((''HTTP/1.1 '' @ status_code r) # rs_headers r)"
  shows "str_find CRLFCRLF (serialize r) = Some (length head - 2)"
    and "drop (length head - 2 + 4) (serialize r) = rs_body r"
    and "take (length head - 2 + 2) (serialize r) = head"
proof -
  have len: "2 \<le> length head" by (simp add: head_def)
  show "str_find CRLFCRLF (serialize r) = Some (length head - 2)"
    unfolding serialize_lines head_def
    by (rule str_find_head [OF wf_response_lines [OF assms(1)]]) simp
  have "serialize r = head @ CRLF @ rs_body r" by (simp only: serialize_lines head_def)
  with len show "drop (length head - 2 + 4) (serialize r) = rs_body r"
    "take (length head - 2 + 2) (serialize r) = head" by simp_all
qed

subsection \<open>The request handler interface\<close>

text \<open>
  \<^verbatim>\<open>RequestHandler::handle_request\<close> of \<^verbatim>\<open>include/request_handler.h\<close>, over the state \<open>'s\<close> the
  handlers share. The contract every handler keeps: when it returns, its response is well
  formed. So whatever handler the dispatcher picks, the session sends a message its client
  can take apart.
\<close>

locale request_handler =
  fixes handle_request :: "request \<Rightarrow> 's \<Rightarrow> (response \<times> 's) outcome"
  assumes response_wf: "handle_request req s = Done (resp, s') \<Longrightarrow> wf_response resp"
begin

lemma response_framed:
  "handle_request req s = Done (resp, s') \<Longrightarrow>
   \<exists>n. str_find CRLFCRLF (SerializeResponse (Some resp)) = Some n
     \<and> drop (n + 4) (SerializeResponse (Some resp)) = rs_body resp"
  using serialize_split(1,2) [OF response_wf] by (auto simp: SerializeResponse_def)

end

subsection \<open>Properties of the serialised response\<close>

text \<open>
  A client can take the bytes of a response apart. The head of
  a well-formed response ends at the first empty line of the serialised bytes; what follows
  is the body, unchanged, and the \<^verbatim>\<open>Content-Length\<close> header in the head is the number of
  those bytes.
\<close>

lemma SerializeResponse_framing:
  assumes "wf_response r"
  shows "\<exists>n. str_find CRLFCRLF (SerializeResponse (Some r)) = Some n
    \<and> drop (n + 4) (SerializeResponse (Some r)) = rs_body r
    \<and> take (n + 2) (SerializeResponse (Some r))
      = header_lines [''HTTP/1.1 '' @ status_code r, ''Content-Type: '' @ content_type r,
          ''Content-Length: '' @ dec_nat (length (rs_body r)), ''Connection: close'']"
proof -
  from assms have hs: "rs_headers r = [''Content-Type: '' @ content_type r,
      ''Content-Length: '' @ dec_nat (length (rs_body r)), ''Connection: close'']"
    by (simp add: wf_response_def)
  from serialize_split [OF assms] show ?thesis
    unfolding SerializeResponse_def option.case hs by blast
qed

text \<open>
  Two well-formed responses with the same bytes are the same
  response: no part of a response is lost on the wire or can be taken for another part.
\<close>

lemma SerializeResponse_inject:
  assumes "wf_response r" "wf_response q"
    and "SerializeResponse (Some r) = SerializeResponse (Some q)"
  shows "r = q"
proof -
  let ?h = "\<lambda>r. header_lines ((''HTTP/1.1 '' @ status_code r) # rs_headers r)"
  have eq: "serialize r = serialize q" using assms(3) by (simp add: SerializeResponse_def)
  from serialize_split(1) [OF assms(1)] serialize_split(1) [OF assms(2)] eq
  have n: "length (?h r) - 2 = length (?h q) - 2" by simp
  have body: "rs_body r = rs_body q"
    using serialize_split(2) [OF assms(1)] serialize_split(2) [OF assms(2)] eq n by metis
  have "?h r = ?h q"
    using serialize_split(3) [OF assms(1)] serialize_split(3) [OF assms(2)] eq n by metis
  then have "(''HTTP/1.1 '' @ status_code r) # rs_headers r = (''HTTP/1.1 '' @ status_code q) # rs_headers q"
    by (simp only: header_lines_inject wf_response_lines assms)
  then have st: "status_code r = status_code q" and hs: "rs_headers r = rs_headers q" by simp_all
  have hdr: "hd (rs_headers x) = ''Content-Type: '' @ content_type x"
    "content_length x = dec_nat (length (rs_body x))" "rs_http_version x = ''1.1''"
    if "wf_response x" for x
    using that by (simp_all add: wf_response_def)
  from hdr(1) [OF assms(1)] hdr(1) [OF assms(2)] hs
  have "content_type r = content_type q" by simp
  with st hs body hdr(2,3) [OF assms(1)] hdr(2,3) [OF assms(2)] show ?thesis
    by (intro response.equality) simp_all
qed

end
