(* ===== verification/Request_Parser.thy ===== *)
theory Request_Parser
  imports Http
begin

text \<open>
  The HTTP request parser, \<^verbatim>\<open>src/request_parser.cc\<close>: \<open>RequestParser_Parse\<close> on the bytes
  received so far, with \<open>ParseRequestLine\<close> and \<open>ParseHeaderLine\<close>. Logging is left out.

  The lemmas show when a buffer counts as complete, that only valid request lines make a
  valid request, that a request written in the usual form is read back field by field, and
  what bytes that arrive after a complete head can and cannot change.
\<close>

subsection \<open>The request line\<close>

text \<open>\<^verbatim>\<open>stream >> word\<close>: skip white space, then read up to the next white space; it fails at
  the end of the stream.\<close>

definition extract_word :: "string \<Rightarrow> (string \<times> string) option" where
  "extract_word s =
     (let s' = dropWhile isspace s
      in if s' = [] then None
         else Some (takeWhile (\<lambda>c. \<not> isspace c) s', dropWhile (\<lambda>c. \<not> isspace c) s'))"

definition kAllowedMethods :: "string list" where
  "kAllowedMethods = [''GET'', ''POST'', ''PUT'', ''DELETE'']"

definition ParseRequestLine :: "string \<Rightarrow> request \<Rightarrow> bool \<times> request" where
  "ParseRequestLine line req =
     (let invalid = (False, req\<lparr>is_valid := False\<rparr>)
      in case extract_word line of
           None \<Rightarrow> invalid
         | Some (m, s1) \<Rightarrow>
          (case extract_word s1 of
             None \<Rightarrow> invalid
           | Some (u, s2) \<Rightarrow>
            (case extract_word s2 of
               None \<Rightarrow> invalid
             | Some (v, _) \<Rightarrow>
                 if m \<notin> set kAllowedMethods then invalid
                 else if u = [] \<or> hd u \<noteq> CHR ''/'' then invalid
                 else if v \<noteq> ''HTTP/1.1'' then invalid
                 else (True, req\<lparr>rq_method := m, url := u, rq_http_version := ''1.1''\<rparr>))))"

subsection \<open>Header lines\<close>

definition blank :: "char \<Rightarrow> bool" where
  "blank c \<longleftrightarrow> c = SPACE \<or> c = TAB"

definition trim_blanks :: "string \<Rightarrow> string" where
  "trim_blanks s = rev (dropWhile blank (rev (dropWhile blank s)))"

definition ParseHeaderLine :: "string \<Rightarrow> request \<Rightarrow> bool \<times> request" where
  "ParseHeaderLine line req =
     (case str_find '':'' line of
        None \<Rightarrow> (False, req)
      | Some colon_pos \<Rightarrow>
          (let header_name = take colon_pos line;
               header_value = trim_blanks (drop (colon_pos + 1) line)
           in (True, req\<lparr>rq_headers := rq_headers req @ [header_name @ '': '' @ header_value]\<rparr>)))"

text \<open>\<^verbatim>\<open>if (!line.empty() && line.back() == '\r') line.pop_back();\<close>\<close>

definition strip_cr :: "string \<Rightarrow> string" where
  "strip_cr line = (if line \<noteq> [] \<and> last line = CR then butlast line else line)"

text \<open>\<^verbatim>\<open>while (std::getline(stream, line) && line != "\r")\<close>.\<close>

function ParseHeaders :: "string \<Rightarrow> request \<Rightarrow> request" where
  "ParseHeaders stream req =
     (case getline LF stream of
        None \<Rightarrow> req
      | Some (line, stream') \<Rightarrow>
          if line = [CR] then req
          else (let line' = strip_cr line
                in if line' = [] then req
                   else ParseHeaders stream' (snd (ParseHeaderLine line' req))))"
  by pat_completeness auto
termination
  by (relation "measure (\<lambda>(s, _). length s)") (auto dest: getline_shorter)

declare ParseHeaders.simps [simp del]

subsection \<open>RequestParser::Parse\<close>

text \<open>
  The Boolean is whether the buffer holds a complete request. \<^verbatim>\<open>request\<close> is an out
  parameter: the caller's object goes in and its new contents come out.
\<close>

definition RequestParser_Parse :: "string \<Rightarrow> request \<Rightarrow> bool \<times> request" where
  "RequestParser_Parse request_buffer req =
     (case str_find CRLFCRLF request_buffer of
        None \<Rightarrow> (False, req)
      | Some header_end \<Rightarrow>
          (let req1 = req\<lparr>is_valid := True, raw_request := request_buffer\<rparr>
           in case getline LF request_buffer of
                None \<Rightarrow> (True, req1\<lparr>is_valid := False\<rparr>)
              | Some (line, stream) \<Rightarrow>
                  (case ParseRequestLine (strip_cr line) req1 of
                     (False, req2) \<Rightarrow> (True, req2)
                   | (True, req2) \<Rightarrow>
                       (let req3 = ParseHeaders stream req2; body_start = header_end + 4
                        in (True, if body_start < length request_buffer
                                  then req3\<lparr>rq_body := drop body_start request_buffer\<rparr>
                                  else req3)))))"

text \<open>
  \<^verbatim>\<open>request request;\<close> in \<^verbatim>\<open>session::handle_read\<close>: the strings and the vector are empty,
  the Boolean is whatever the memory held.
\<close>

definition fresh_request :: "bool \<Rightarrow> request" where
  "fresh_request garbage =
     \<lparr>is_valid = garbage, raw_request = [], rq_method = [], url = [], rq_http_version = [],
      rq_headers = [], rq_body = []\<rparr>"

subsection \<open>What the steps do\<close>

text \<open>The fields a request line decides, and the header lines of a stream.\<close>

definition request_line :: "string \<Rightarrow> (string \<times> string) option" where
  "request_line line =
     (case ParseRequestLine line (fresh_request True) of
        (ok, r) \<Rightarrow> if ok then Some (rq_method r, url r) else None)"

definition header_list :: "string \<Rightarrow> string list" where
  "header_list stream = rq_headers (ParseHeaders stream (fresh_request True))"

lemma ParseRequestLine_eq:
  "ParseRequestLine line req =
     (case request_line line of
        None \<Rightarrow> (False, req\<lparr>is_valid := False\<rparr>)
      | Some (m, u) \<Rightarrow> (True, req\<lparr>rq_method := m, url := u, rq_http_version := ''1.1''\<rparr>))"
  by (auto simp: request_line_def ParseRequestLine_def Let_def split: option.split prod.split)

lemma ParseHeaderLine_headers:
  "ParseHeaderLine line (req\<lparr>rq_headers := hs\<rparr>) =
     (fst (ParseHeaderLine line req),
      req\<lparr>rq_headers := hs @ rq_headers (snd (ParseHeaderLine line (req\<lparr>rq_headers := []\<rparr>)))\<rparr>)"
  by (auto simp: ParseHeaderLine_def Let_def split: option.split)

lemma ParseHeaders_eq:
  "ParseHeaders stream req = req\<lparr>rq_headers := rq_headers req @ header_list stream\<rparr>"
proof -
  have step: "snd (ParseHeaderLine line r) = r\<lparr>rq_headers := rq_headers r @
      (case str_find '':'' line of None \<Rightarrow> []
       | Some n \<Rightarrow> [take n line @ '': '' @ trim_blanks (drop (n + 1) line)])\<rparr>" for line r
    by (auto simp: ParseHeaderLine_def Let_def split: option.split)
  have main: "ParseHeaders stream r = r\<lparr>rq_headers := rq_headers r @ rq_headers (ParseHeaders stream r0)\<rparr>"
    if "rq_headers r0 = []" for r r0
    using that
  proof (induction "length stream" arbitrary: stream r r0 rule: less_induct)
    case less
    show ?case
    proof (cases "getline LF stream")
      case None
      with less.prems show ?thesis by (simp add: ParseHeaders.simps [of stream])
    next
      case (Some p)
      obtain line rest where p: "p = (line, rest)" by (cases p)
      let ?e = "fresh_request True"
      from Some p have "length rest < length stream" using getline_shorter by blast
      then have IH: "ParseHeaders rest q = q\<lparr>rq_headers := rq_headers q @ rq_headers (ParseHeaders rest ?e)\<rparr>" for q
        using less.hyps by (simp add: fresh_request_def)
      show ?thesis
      proof (cases "line = [CR] \<or> strip_cr line = []")
        case True
        with Some p less.prems show ?thesis
          by (auto simp: ParseHeaders.simps [of stream] Let_def)
      next
        case False
        with Some p less.prems
        have "ParseHeaders stream q = ParseHeaders rest (snd (ParseHeaderLine (strip_cr line) q))" for q
          by (simp add: ParseHeaders.simps [of stream] Let_def)
        then show ?thesis
          using less.prems IH [of "snd (ParseHeaderLine (strip_cr line) r)"]
            IH [of "snd (ParseHeaderLine (strip_cr line) r0)"]
          by (simp add: step)
      qed
    qed
  qed
  then show ?thesis by (simp add: header_list_def fresh_request_def)
qed

lemma header_list_unfold:
  "header_list stream =
     (case getline LF stream of
        None \<Rightarrow> []
      | Some (line, stream') \<Rightarrow>
          if line = [CR] \<or> strip_cr line = [] then []
          else (case str_find '':'' (strip_cr line) of None \<Rightarrow> []
                | Some n \<Rightarrow> [take n (strip_cr line) @ '': '' @ trim_blanks (drop (n + 1) (strip_cr line))])
               @ header_list stream')"
  unfolding header_list_def
  by (subst ParseHeaders.simps, simp add: Let_def ParseHeaders_eq split: option.split)
    (auto simp: ParseHeaderLine_def header_list_def fresh_request_def Let_def split: option.split)

lemma RequestParser_Parse_eq:
  "RequestParser_Parse buf req =
     (case str_find CRLFCRLF buf of
        None \<Rightarrow> (False, req)
      | Some n \<Rightarrow>
          (True,
           case getline LF buf of
             None \<Rightarrow> req\<lparr>is_valid := False, raw_request := buf\<rparr>
           | Some (line, stream) \<Rightarrow>
              (case request_line (strip_cr line) of
                 None \<Rightarrow> req\<lparr>is_valid := False, raw_request := buf\<rparr>
               | Some (m, u) \<Rightarrow>
                   req\<lparr>is_valid := True, raw_request := buf, rq_method := m, url := u,
                      rq_http_version := ''1.1'', rq_headers := rq_headers req @ header_list stream,
                      rq_body := (if n + 4 < length buf then drop (n + 4) buf else rq_body req)\<rparr>)))"
  by (simp add: RequestParser_Parse_def ParseRequestLine_eq ParseHeaders_eq Let_def split: option.split)

subsection \<open>The head of a request does not depend on what follows it\<close>

lemma getline_head:
  "(\<exists>line g'. g = line @ LF # g' \<and> LF \<notin> set line \<and>
      getline LF (g @ CRLFCRLF @ x) = Some (line, g' @ CRLFCRLF @ x))
   \<or> LF \<notin> set g \<and> getline LF (g @ CRLFCRLF @ x) = Some (g @ [CR], CRLF @ x)"
proof (cases "LF \<in> set g")
  case True
  then obtain line g' where "g = line @ LF # g'" "LF \<notin> set line"
    by (meson split_list_first)
  then show ?thesis using getline_hit [of LF line "g' @ CRLFCRLF @ x"] by auto
next
  case False
  then show ?thesis using getline_hit [of LF "g @ [CR]" "CRLF @ x"] by simp
qed

lemma header_list_CR [simp]: "header_list (CR # LF # s) = []"
  using getline_hit [of LF "[CR]" s] by (subst header_list_unfold) simp

lemma header_list_head:
  "header_list (g @ CRLFCRLF @ x) = header_list (g @ CRLFCRLF @ y)"
proof (induction "length g" arbitrary: g rule: less_induct)
  case less
  consider line g' where "g = line @ LF # g'" "LF \<notin> set line" | "LF \<notin> set g"
    using getline_head [of g x] by blast
  then show ?case
  proof cases
    case 1
    then have "getline LF (g @ CRLFCRLF @ z) = Some (line, g' @ CRLFCRLF @ z)" for z
      using getline_hit [of LF line "g' @ CRLFCRLF @ z"] by simp
    moreover have "header_list (g' @ CRLFCRLF @ x) = header_list (g' @ CRLFCRLF @ y)"
      using 1 by (intro less) simp
    ultimately show ?thesis
      by (subst (1 2) header_list_unfold) simp
  next
    case 2
    then have "getline LF (g @ CRLFCRLF @ z) = Some (g @ [CR], CRLF @ z)" for z
      using getline_hit [of LF "g @ [CR]" "CRLF @ z"] by simp
    then show ?thesis
      by (subst (1 2) header_list_unfold) simp
  qed
qed

lemma parse_head_indep:
  "\<exists>line sx sy. getline LF (g @ CRLFCRLF @ x) = Some (line, sx)
     \<and> getline LF (g @ CRLFCRLF @ y) = Some (line, sy) \<and> header_list sx = header_list sy"
proof (cases "LF \<in> set g")
  case True
  then obtain line g' where g: "g = line @ LF # g'" "LF \<notin> set line"
    by (meson split_list_first)
  then have "getline LF (g @ CRLFCRLF @ z) = Some (line, g' @ CRLFCRLF @ z)" for z
    using getline_hit [of LF line "g' @ CRLFCRLF @ z"] by simp
  with header_list_head show ?thesis by blast
next
  case False
  then have "getline LF (g @ CRLFCRLF @ z) = Some (g @ [CR], CRLF @ z)" for z
    using getline_hit [of LF "g @ [CR]" "CRLF @ z"] by simp
  then show ?thesis by auto
qed

subsection \<open>Words and lines\<close>

lemma extract_word_space [simp]:
  "w \<noteq> [] \<Longrightarrow> \<forall>c\<in>set w. \<not> isspace c \<Longrightarrow> isspace d \<Longrightarrow>
   extract_word (w @ d # s) = Some (w, d # s)"
  by (cases w) (simp_all add: extract_word_def takeWhile_append2 dropWhile_append2)

lemma extract_word_last [simp]:
  "w \<noteq> [] \<Longrightarrow> \<forall>c\<in>set w. \<not> isspace c \<Longrightarrow> extract_word w = Some (w, [])"
  by (cases w) (auto simp: extract_word_def takeWhile_eq_all_conv)

lemma extract_word_skip [simp]: "isspace d \<Longrightarrow> extract_word (d # s) = extract_word s"
  by (simp add: extract_word_def)

lemma isspace_SPACE [simp]: "isspace SPACE"
  by (simp add: isspace_def)

lemma isspace_breaks [simp]: "isspace CR" "isspace LF"
  by (simp_all add: isspace_def code_def)

lemma strip_cr_snoc [simp]: "strip_cr (l @ [CR]) = l"
  by (simp add: strip_cr_def)

text \<open>What \<open>extract_word\<close> hands out is a non-empty word with no white space.\<close>

lemma extract_wordD:
  "extract_word s = Some (w, r) \<Longrightarrow> w \<noteq> [] \<and> (\<forall>c\<in>set w. \<not> isspace c)"
  using hd_dropWhile [of isspace s]
  by (auto simp: extract_word_def Let_def takeWhile_eq_Nil_iff dest: set_takeWhileD
      split: if_splits)

lemma request_line_SomeD:
  assumes "request_line l = Some (m, u)"
  shows "m \<in> set kAllowedMethods \<and> u \<noteq> [] \<and> hd u = CHR ''/'' \<and> (\<forall>c\<in>set u. \<not> isspace c)"
  using assms
  by (auto simp: request_line_def ParseRequestLine_def Let_def
      split: option.splits if_splits dest!: extract_wordD)

lemma request_line_words:
  assumes "m \<in> set kAllowedMethods" "u \<noteq> []" "hd u = CHR ''/''" "\<forall>c\<in>set u. \<not> isspace c"
  shows "request_line (m @ SPACE # u @ '' HTTP/1.1'') = Some (m, u)"
proof -
  have m: "m \<noteq> []" "\<forall>c\<in>set m. \<not> isspace c"
    using assms(1) by (auto simp: kAllowedMethods_def isspace_def code_def)
  have v: "extract_word ''HTTP/1.1'' = Some (''HTTP/1.1'', [])"
    by (rule extract_word_last) (auto simp: isspace_def code_def)
  show ?thesis
    using assms m v by (simp add: request_line_def ParseRequestLine_def)
qed

subsection \<open>Requests in their usual form\<close>

text \<open>A request as a client writes it, and what makes its parts writable.\<close>

definition render_request :: "string \<Rightarrow> string \<Rightarrow> (string \<times> string) list \<Rightarrow> string \<Rightarrow> string" where
  "render_request m u hs body =
     header_lines ((m @ SPACE # u @ '' HTTP/1.1'') # map (\<lambda>(n, v). n @ '':'' @ v) hs) @ CRLF @ body"

definition wf_target :: "string \<Rightarrow> bool" where
  "wf_target u \<longleftrightarrow> u \<noteq> [] \<and> hd u = CHR ''/'' \<and> list_all (\<lambda>c. \<not> isspace c) u"

definition wf_header :: "string \<times> string \<Rightarrow> bool" where
  "wf_header h \<longleftrightarrow> (case h of (n, v) \<Rightarrow>
     CHR '':'' \<notin> set n \<and> list_all (\<lambda>c. c \<noteq> CR \<and> c \<noteq> LF) (n @ v))"

lemma header_list_render:
  "list_all wf_header hs \<Longrightarrow>
   header_list (header_lines (map (\<lambda>(n, v). n @ '':'' @ v) hs) @ CRLF @ body)
   = map (\<lambda>(n, v). n @ '': '' @ trim_blanks v) hs"
proof (induction hs)
  case (Cons h hs)
  obtain n v where h: "h = (n, v)" by (cases h)
  let ?line = "n @ CHR '':'' # v"
  let ?rest = "header_lines (map (\<lambda>(n, v). n @ '':'' @ v) hs) @ CRLF @ body"
  from Cons.prems h have line: "CHR '':'' \<notin> set n" "LF \<notin> set (?line @ [CR])"
    by (auto simp: wf_header_def list_all_iff)
  then have "getline LF (?line @ CR # LF # ?rest) = Some (?line @ [CR], ?rest)"
    using getline_hit [of LF "?line @ [CR]" ?rest] by simp
  moreover have "str_find '':'' ?line = Some (length n)"
    using line(1) by (rule str_find_char_append)
  moreover have "strip_cr (?line @ [CR]) = ?line" by (rule strip_cr_snoc)
  ultimately have "header_list (?line @ CR # LF # ?rest)
      = (n @ '': '' @ trim_blanks v) # header_list ?rest"
    by (subst header_list_unfold) simp
  with Cons h show ?case by simp
qed simp

text \<open>The parser's view of a rendered request.\<close>

lemma render_parts:
  fixes body :: string
  assumes "m \<in> set kAllowedMethods" "wf_target u" "list_all wf_header hs"
  defines "line \<equiv> m @ SPACE # u @ '' HTTP/1.1''"
    and "rest \<equiv> header_lines (map (\<lambda>(n, v). n @ '':'' @ v) hs) @ CRLF @ body"
  shows "getline LF (render_request m u hs body) = Some (line @ [CR], rest)"
    and "request_line line = Some (m, u)"
    and "\<exists>n. str_find CRLFCRLF (render_request m u hs body) = Some n
      \<and> drop (n + 4) (render_request m u hs body) = body
      \<and> n + 4 + length body = length (render_request m u hs body)"
proof -
  have u: "u \<noteq> []" "hd u = CHR ''/''" "\<forall>c\<in>set u. \<not> isspace c"
    using assms(2) by (auto simp: wf_target_def list_all_iff)
  show "request_line line = Some (m, u)"
    unfolding line_def by (rule request_line_words [OF assms(1) u])
  have m: "CR \<notin> set m" "LF \<notin> set m"
    using assms(1) by (auto simp: kAllowedMethods_def)
  moreover have "CR \<notin> set u" "LF \<notin> set u" using u(3) isspace_breaks by blast+
  ultimately have crlf: "CR \<notin> set line" "LF \<notin> set (line @ [CR])"
    by (simp_all add: line_def)
  have render: "render_request m u hs body = (line @ [CR]) @ LF # rest"
    by (simp add: render_request_def line_def rest_def)
  show "getline LF (render_request m u hs body) = Some (line @ [CR], rest)"
    unfolding render by (rule getline_hit [OF crlf(2)])
  let ?ls = "line # map (\<lambda>(n, v). n @ '':'' @ v) hs"
  have ok: "list_all line_ok ?ls"
    using crlf(1) assms(3) by (auto simp: line_ok_def line_def wf_header_def list_all_iff)
  have eq: "render_request m u hs body = header_lines ?ls @ CRLF @ body"
    by (simp add: render_request_def line_def)
  have len: "2 \<le> length (header_lines ?ls)" by simp
  have "str_find CRLFCRLF (render_request m u hs body) = Some (length (header_lines ?ls) - 2)"
    unfolding eq by (rule str_find_head [OF ok]) simp
  moreover have "drop (length (header_lines ?ls) - 2 + 4) (render_request m u hs body) = body"
    "length (header_lines ?ls) - 2 + 4 + length body = length (render_request m u hs body)"
    unfolding eq using len by (simp_all del: header_lines.simps)
  ultimately show "\<exists>n. str_find CRLFCRLF (render_request m u hs body) = Some n
      \<and> drop (n + 4) (render_request m u hs body) = body
      \<and> n + 4 + length body = length (render_request m u hs body)" by blast
qed

lemma render_parsed:
  assumes "m \<in> set kAllowedMethods" "wf_target u" "list_all wf_header hs"
  shows "RequestParser_Parse (render_request m u hs body) (fresh_request g) =
    (True, \<lparr>is_valid = True, raw_request = render_request m u hs body, rq_method = m, url = u,
            rq_http_version = ''1.1'',
            rq_headers = map (\<lambda>(n, v). n @ '': '' @ trim_blanks v) hs, rq_body = body\<rparr>)"
proof -
  note parts = render_parts(1) [OF assms, where body = body] render_parts(2) [OF assms]
    render_parts(3) [OF assms, where body = body]
  obtain n where n: "str_find CRLFCRLF (render_request m u hs body) = Some n"
    "drop (n + 4) (render_request m u hs body) = body"
    "n + 4 + length body = length (render_request m u hs body)" using parts(3) by blast
  have strip: "strip_cr ((m @ SPACE # u @ '' HTTP/1.1'') @ [CR]) = m @ SPACE # u @ '' HTTP/1.1''"
    by (rule strip_cr_snoc)
  have body: "(if n + 4 < length (render_request m u hs body)
      then drop (n + 4) (render_request m u hs body) else []) = body"
    using n(2,3) by (cases body) auto
  show ?thesis
    unfolding RequestParser_Parse_eq n(1) parts(1) option.case prod.case strip parts(2)
      header_list_render [OF assms(3)]
    by (simp only: body fresh_request_def request.simps) (simp add: body)
qed

text \<open>Bytes after a complete head.\<close>

lemma parse_extended:
  assumes "RequestParser_Parse buf (fresh_request g) = (True, r)"
  shows "RequestParser_Parse (buf @ extra) (fresh_request g') =
    (True, r\<lparr>raw_request := buf @ extra,
             rq_body := (if is_valid r then rq_body r @ extra else rq_body r)\<rparr>)"
proof -
  obtain n where n: "str_find CRLFCRLF buf = Some n"
    using assms by (auto simp: RequestParser_Parse_eq split: option.splits)
  define h b where "h = take n buf" and "b = drop (n + 4) buf"
  have buf: "buf = h @ CRLFCRLF @ b" and len: "n + 4 \<le> length buf"
    using str_find_SomeE [OF n] by (simp_all add: h_def b_def numeral_eq_Suc)
  have find: "str_find CRLFCRLF (buf @ extra) = Some n" by (rule str_find_append [OF n])
  obtain line sx sy where line: "getline LF buf = Some (line, sx)"
    "getline LF (buf @ extra) = Some (line, sy)" "header_list sx = header_list sy"
    using parse_head_indep [of h b "b @ extra"] unfolding buf by auto
  have body: "(if n + 4 < length (buf @ extra) then drop (n + 4) (buf @ extra) else [])
      = (if n + 4 < length buf then drop (n + 4) buf else []) @ extra"
    using len by auto
  show ?thesis
  proof (cases "request_line (strip_cr line)")
    case None
    with assms show ?thesis
      by (auto simp: RequestParser_Parse_eq n find line(1,2) fresh_request_def)
  next
    case (Some p)
    with assms body show ?thesis
      by (cases p) (auto simp: RequestParser_Parse_eq n find line fresh_request_def
          simp del: length_append)
  qed
qed

text \<open>\<open>GET /\<close> with no headers and no body.\<close>

definition sample_request :: string where
  "sample_request = render_request ''GET'' ''/'' [] []"

lemma sample_request_parsed:
  "RequestParser_Parse sample_request (fresh_request g) =
    (True, \<lparr>is_valid = True, raw_request = sample_request, rq_method = ''GET'', url = ''/'',
            rq_http_version = ''1.1'', rq_headers = [], rq_body = []\<rparr>)"
  unfolding sample_request_def
  by (subst render_parsed) (simp_all add: kAllowedMethods_def wf_target_def isspace_def code_def)

subsection \<open>Properties of the request parser\<close>

text \<open>
  C25: a request in the usual form is read back as it was written. For
  an allowed method, a target that starts with a slash and has no white space, and headers
  whose names have no colon, the parser reports a complete valid request with exactly that
  method, target, headers (blanks around values trimmed) and body, version 1.1.
\<close>

theorem RequestParser_roundtrip:
  assumes "m \<in> set kAllowedMethods" "wf_target u" "list_all wf_header hs"
  shows "RequestParser_Parse (render_request m u hs body) (fresh_request g) =
    (True, \<lparr>is_valid = True, raw_request = render_request m u hs body, rq_method = m, url = u,
            rq_http_version = ''1.1'',
            rq_headers = map (\<lambda>(n, v). n @ '': '' @ trim_blanks v) hs, rq_body = body\<rparr>)"
  by (rule render_parsed [OF assms])

theorem RequestParser_roundtrip_witness:
  "snd (RequestParser_Parse (render_request ''POST'' ''/api/Shoes'' [(''Host'', '' x'')] ''{}'') (fresh_request True))
   = \<lparr>is_valid = True, raw_request = render_request ''POST'' ''/api/Shoes'' [(''Host'', '' x'')] ''{}'',
      rq_method = ''POST'', url = ''/api/Shoes'', rq_http_version = ''1.1'',
      rq_headers = [''Host: x''], rq_body = ''{}''\<rparr>"
proof -
  have t: "wf_target ''/api/Shoes''" by (simp add: wf_target_def isspace_def code_def)
  have h: "list_all wf_header [(''Host'', '' x'')]" by (simp add: wf_header_def)
  show ?thesis
    using RequestParser_roundtrip [OF _ t h, of "''POST''" "''{}''" True]
    by (simp add: kAllowedMethods_def trim_blanks_def blank_def)
qed

text \<open>
  The parser asks for more data exactly when the buffer holds
  no blank line, whatever the bytes are, and then it leaves the request object untouched.
\<close>

lemma RequestParser_complete_iff:
  "(fst (RequestParser_Parse buf req) \<longleftrightarrow> (\<exists>a b. buf = a @ CRLFCRLF @ b)) \<and>
   (fst (RequestParser_Parse buf req) \<or> snd (RequestParser_Parse buf req) = req)"
proof -
  have "(\<exists>n. str_find CRLFCRLF buf = Some n) \<longleftrightarrow> (\<exists>a b. buf = a @ CRLFCRLF @ b)"
  proof
    assume "\<exists>n. str_find CRLFCRLF buf = Some n"
    then show "\<exists>a b. buf = a @ CRLFCRLF @ b" using str_find_SomeE(1) by blast
  next
    assume "\<exists>a b. buf = a @ CRLFCRLF @ b"
    then show "\<exists>n. str_find CRLFCRLF buf = Some n" using str_find_complete by blast
  qed
  then show ?thesis by (auto simp: RequestParser_Parse_eq split: option.split)
qed

text \<open>
  A request the parser calls valid has one of the four supported
  methods, a target that starts with a slash and contains no white space, and version 1.1.
\<close>

lemma RequestParser_valid:
  assumes "RequestParser_Parse buf req = (True, r)" and "is_valid r"
  shows "rq_method r \<in> set kAllowedMethods \<and> wf_target (url r) \<and> rq_http_version r = ''1.1''
    \<and> raw_request r = buf"
  using assms
  by (auto simp: RequestParser_Parse_eq wf_target_def list_all_iff split: option.splits
      dest!: request_line_SomeD)

text \<open>
  Bytes received after a complete head never change the request line
  or the headers; for a valid request they only lengthen the body. So a buffer that is kept
  after a request has been answered keeps yielding that same first request: a second request
  sent on the connection is read as more body of the first.
\<close>

lemma RequestParser_extend:
  assumes "RequestParser_Parse buf (fresh_request g) = (True, r)"
  shows "RequestParser_Parse (buf @ extra) (fresh_request g') =
    (True, r\<lparr>raw_request := buf @ extra,
             rq_body := (if is_valid r then rq_body r @ extra else rq_body r)\<rparr>)"
  by (rule parse_extended [OF assms])

end
