(* ===== verification/Entity_Store.thy ===== *)
theory Entity_Store
  imports Prelude
begin

text \<open>
  The interface of the entity stores, \<^verbatim>\<open>include/entity_store.h\<close>, and the validation helpers
  of \<^verbatim>\<open>src/entity_store_validation.cc\<close>.

  \<open>EntityStore\<close> is the abstract class as a record of its virtual operations over a state.
  The locale \<open>entity_store\<close> is the contract its comments promise, against a map from entity
  and ID to data; \<open>reliable_entity_store\<close> adds that operations succeed when they can. The
  two stores of the program are interpretations of these locales, and the API handler is a
  client of them.
\<close>

subsection \<open>Validation\<close>

definition IsValidEntityName :: "string \<Rightarrow> bool" where
  "IsValidEntityName entity_name \<longleftrightarrow> entity_name \<noteq> [] \<and>
     list_all (\<lambda>c. isalnum c \<or> c = CHR ''_'' \<or> c = CHR ''-'') entity_name"

text \<open>
  \<^verbatim>\<open>result = result * 10 + (c - '0')\<close> on \<^verbatim>\<open>int\<close>. Signed overflow is undefined in C++; the
  model takes the two's complement wrap-around compilers produce. \<open>ParseId_exact\<close> is about
  the strings for which no step overflows, \<open>ParseId_wraps\<close> about the others.
\<close>

fun ParseId_loop :: "string \<Rightarrow> cint \<Rightarrow> cint option" where
  "ParseId_loop [] r = Some r"
| "ParseId_loop (c # s) r =
     (if \<not> isdigit c then None else ParseId_loop s (r * 10 + of_nat (code c - 48)))"

definition ParseId :: "string \<Rightarrow> cint option" where
  "ParseId segment = (if segment = [] then None else ParseId_loop segment 0)"

lemma ParseId_loop_eq:
  "ParseId_loop s (of_nat (dec_value u)) =
     (if list_all isdigit s then Some (of_nat (dec_value (u @ s))) else None)"
proof (induction s arbitrary: u)
  case (Cons c s)
  then show ?case using Cons.IH [of "u @ [c]"] by (simp add: dec_value_snoc algebra_simps)
qed simp

lemma ParseId_eq:
  "ParseId s = (if s \<noteq> [] \<and> list_all isdigit s then Some (of_nat (dec_value s)) else None)"
  using ParseId_loop_eq [of s "[]"] by (auto simp: ParseId_def dec_value_def)

lemma ParseId_digits: "ParseId s = Some i \<Longrightarrow> list_all isdigit s \<and> s \<noteq> []"
  by (auto simp: ParseId_eq split: if_splits)

lemma ParseId_to_string:
  assumes "0 \<le> sint i"
  shows "ParseId (to_string i) = Some i"
proof -
  have "list_all isdigit (dec_nat n)" for n
    using dec_nat_digits by (auto simp: list_all_iff)
  with assms show ?thesis
    by (simp add: ParseId_eq to_string_nonneg)
qed

subsection \<open>The abstract class\<close>

text \<open>
  The virtual functions of \<^verbatim>\<open>EntityStore\<close>. \<open>es_Create\<close> is \<open>None\<close> when the search for an ID
  does not end; \<open>es_Read\<close> returns the data it would store in \<^verbatim>\<open>out_data\<close>, or \<open>None\<close> where the
  code returns \<^verbatim>\<open>false\<close> and leaves \<^verbatim>\<open>out_data\<close> alone.
\<close>

record 's EntityStore =
  es_Create :: "string \<Rightarrow> string \<Rightarrow> 's \<Rightarrow> (cint \<times> 's) option"
  es_Read :: "string \<Rightarrow> cint \<Rightarrow> 's \<Rightarrow> string option \<times> 's"
  es_Update :: "string \<Rightarrow> cint \<Rightarrow> string \<Rightarrow> 's \<Rightarrow> bool \<times> 's"
  es_Delete :: "string \<Rightarrow> cint \<Rightarrow> 's \<Rightarrow> bool \<times> 's"
  es_List :: "string \<Rightarrow> 's \<Rightarrow> cint list \<times> 's"

text \<open>The contents of a store: for every entity, the data under each ID.\<close>

type_synonym contents = "string \<Rightarrow> cint \<Rightarrow> string option"

definition put :: "contents \<Rightarrow> string \<Rightarrow> cint \<Rightarrow> string \<Rightarrow> contents" where
  "put m e i d = m(e := (m e)(i := Some d))"

definition drop_object :: "contents \<Rightarrow> string \<Rightarrow> cint \<Rightarrow> contents" where
  "drop_object m e i = m(e := (m e)(i := None))"

lemma put_apply [store_simps]:
  "put m e i d e' i' = (if e' = e \<and> i' = i then Some d else m e' i')"
  by (simp add: put_def)

lemma drop_object_apply [store_simps]:
  "drop_object m e i e' i' = (if e' = e \<and> i' = i then None else m e' i')"
  by (simp add: drop_object_def)

text \<open>
  The contract. \<open>ops\<close> is indexed by what the outside world does to the call (which file
  operations fail, for the store on disk), \<open>inv\<close> is the store's own invariant and \<open>abs\<close> its
  contents. Callers pass valid entity names and nonnegative IDs.
\<close>

locale entity_store =
  fixes ops :: "'e \<Rightarrow> 's EntityStore"
    and inv :: "'s \<Rightarrow> bool"
    and abs :: "'s \<Rightarrow> contents"
  assumes create_inv:
      "inv s \<Longrightarrow> IsValidEntityName e \<Longrightarrow> es_Create (ops w) e d s = Some (i, s') \<Longrightarrow> inv s'"
    and create_ok:
      "inv s \<Longrightarrow> IsValidEntityName e \<Longrightarrow> es_Create (ops w) e d s = Some (i, s') \<Longrightarrow> 0 \<le> sint i
       \<Longrightarrow> abs s e i = None \<and> abs s' = put (abs s) e i d"
    and create_keeps:
      "inv s \<Longrightarrow> IsValidEntityName e \<Longrightarrow> es_Create (ops w) e d s = Some (i, s')
       \<Longrightarrow> abs s e' j = Some d' \<Longrightarrow> abs s' e' j = Some d'"
    and read_state:
      "inv s \<Longrightarrow> IsValidEntityName e \<Longrightarrow> 0 \<le> sint i \<Longrightarrow> es_Read (ops w) e i s = (r, s')
       \<Longrightarrow> inv s' \<and> abs s' = abs s"
    and read_ok:
      "inv s \<Longrightarrow> IsValidEntityName e \<Longrightarrow> 0 \<le> sint i \<Longrightarrow> es_Read (ops w) e i s = (Some d, s')
       \<Longrightarrow> abs s e i = Some d"
    and update_inv:
      "inv s \<Longrightarrow> IsValidEntityName e \<Longrightarrow> 0 \<le> sint i \<Longrightarrow> es_Update (ops w) e i d s = (b, s') \<Longrightarrow> inv s'"
    and update_ok:
      "inv s \<Longrightarrow> IsValidEntityName e \<Longrightarrow> 0 \<le> sint i \<Longrightarrow> es_Update (ops w) e i d s = (True, s')
       \<Longrightarrow> abs s' = put (abs s) e i d"
    and update_frame:
      "inv s \<Longrightarrow> IsValidEntityName e \<Longrightarrow> 0 \<le> sint i \<Longrightarrow> es_Update (ops w) e i d s = (b, s')
       \<Longrightarrow> (e', j) \<noteq> (e, i) \<Longrightarrow> abs s' e' j = abs s e' j"
    and delete_inv:
      "inv s \<Longrightarrow> IsValidEntityName e \<Longrightarrow> 0 \<le> sint i \<Longrightarrow> es_Delete (ops w) e i s = (b, s') \<Longrightarrow> inv s'"
    and delete_ok:
      "inv s \<Longrightarrow> IsValidEntityName e \<Longrightarrow> 0 \<le> sint i \<Longrightarrow> es_Delete (ops w) e i s = (True, s')
       \<Longrightarrow> abs s e i \<noteq> None \<and> abs s' = drop_object (abs s) e i"
    and delete_fail:
      "inv s \<Longrightarrow> IsValidEntityName e \<Longrightarrow> 0 \<le> sint i \<Longrightarrow> es_Delete (ops w) e i s = (False, s')
       \<Longrightarrow> abs s' = abs s"
    and list_state:
      "inv s \<Longrightarrow> IsValidEntityName e \<Longrightarrow> es_List (ops w) e s = (ids, s') \<Longrightarrow> inv s' \<and> abs s' = abs s"
    and list_ok:
      "inv s \<Longrightarrow> IsValidEntityName e \<Longrightarrow> es_List (ops w) e s = (ids, s')
       \<Longrightarrow> distinct ids \<and> (\<forall>i \<in> set ids. abs s e i \<noteq> None)"
begin

text \<open>What one client sees of another: an object changes only through its own key.\<close>

lemma create_other_entity:
  "inv s \<Longrightarrow> IsValidEntityName e \<Longrightarrow> es_Create (ops w) e d s = Some (i, s') \<Longrightarrow> 0 \<le> sint i
   \<Longrightarrow> (e', j) \<noteq> (e, i) \<Longrightarrow> abs s' e' j = abs s e' j"
  using create_ok by (auto simp: store_simps)

lemma delete_frame:
  "inv s \<Longrightarrow> IsValidEntityName e \<Longrightarrow> 0 \<le> sint i \<Longrightarrow> es_Delete (ops w) e i s = (b, s')
   \<Longrightarrow> (e', j) \<noteq> (e, i) \<Longrightarrow> abs s' e' j = abs s e' j"
  by (cases b) (auto simp: store_simps dest: delete_ok delete_fail)

end

text \<open>
  A store that succeeds when it can: \<open>ok w\<close> says that nothing fails outside, \<open>room s e\<close> that
  an ID is left for the entity, \<open>usable s e\<close> that the store has a place for its objects.
\<close>

locale reliable_entity_store = entity_store ops inv abs
  for ops :: "'e \<Rightarrow> 's EntityStore" and inv :: "'s \<Rightarrow> bool" and abs :: "'s \<Rightarrow> contents" +
  fixes ok :: "'e \<Rightarrow> bool"
    and room :: "'s \<Rightarrow> string \<Rightarrow> bool"
    and usable :: "'s \<Rightarrow> string \<Rightarrow> bool"
  assumes create_total:
      "ok w \<Longrightarrow> inv s \<Longrightarrow> IsValidEntityName e \<Longrightarrow> room s e
       \<Longrightarrow> \<exists>i s'. es_Create (ops w) e d s = Some (i, s') \<and> 0 \<le> sint i"
    and read_total:
      "ok w \<Longrightarrow> inv s \<Longrightarrow> IsValidEntityName e \<Longrightarrow> 0 \<le> sint i \<Longrightarrow> fst (es_Read (ops w) e i s) = abs s e i"
    and update_total:
      "ok w \<Longrightarrow> inv s \<Longrightarrow> IsValidEntityName e \<Longrightarrow> usable s e \<Longrightarrow> 0 \<le> sint i
       \<Longrightarrow> fst (es_Update (ops w) e i d s)"
    and delete_total:
      "ok w \<Longrightarrow> inv s \<Longrightarrow> IsValidEntityName e \<Longrightarrow> 0 \<le> sint i
       \<Longrightarrow> fst (es_Delete (ops w) e i s) \<longleftrightarrow> abs s e i \<noteq> None"
    and list_total:
      "ok w \<Longrightarrow> inv s \<Longrightarrow> IsValidEntityName e \<Longrightarrow> set (fst (es_List (ops w) e s)) = {i. abs s e i \<noteq> None}"

subsection \<open>Sequences of operations\<close>

datatype store_op =
    OpCreate string string
  | OpRead string cint
  | OpUpdate string cint string
  | OpDelete string cint
  | OpList string

text \<open>The operations a caller may issue, and the ones that may change an object on purpose.\<close>

definition op_allowed :: "store_op \<Rightarrow> bool" where
  "op_allowed x \<longleftrightarrow>
     (case x of
        OpCreate e d \<Rightarrow> IsValidEntityName e
      | OpRead e i \<Rightarrow> IsValidEntityName e \<and> 0 \<le> sint i
      | OpUpdate e i d \<Rightarrow> IsValidEntityName e \<and> 0 \<le> sint i
      | OpDelete e i \<Rightarrow> IsValidEntityName e \<and> 0 \<le> sint i
      | OpList e \<Rightarrow> IsValidEntityName e)"

definition op_targets :: "store_op \<Rightarrow> string \<Rightarrow> cint \<Rightarrow> bool" where
  "op_targets x e i \<longleftrightarrow> (case x of OpUpdate e' j _ \<Rightarrow> (e', j) = (e, i) | OpDelete e' j \<Rightarrow> (e', j) = (e, i) | _ \<Rightarrow> False)"

definition exec_op :: "'s EntityStore \<Rightarrow> store_op \<Rightarrow> 's \<Rightarrow> 's option" where
  "exec_op es x s =
     (case x of
        OpCreate e d \<Rightarrow> map_option snd (es_Create es e d s)
      | OpRead e i \<Rightarrow> Some (snd (es_Read es e i s))
      | OpUpdate e i d \<Rightarrow> Some (snd (es_Update es e i d s))
      | OpDelete e i \<Rightarrow> Some (snd (es_Delete es e i s))
      | OpList e \<Rightarrow> Some (snd (es_List es e s)))"

text \<open>Each step has its own outside world.\<close>

fun exec_ops :: "('e \<Rightarrow> 's EntityStore) \<Rightarrow> ('e \<times> store_op) list \<Rightarrow> 's \<Rightarrow> 's option" where
  "exec_ops ops [] s = Some s"
| "exec_ops ops ((w, x) # xs) s =
     (case exec_op (ops w) x s of None \<Rightarrow> None | Some s' \<Rightarrow> exec_ops ops xs s')"

context entity_store
begin

lemma exec_op_inv:
  assumes "inv s" "op_allowed x" "exec_op (ops w) x s = Some s'"
  shows "inv s'"
proof (cases x)
  case (OpRead e i)
  with assms read_state show ?thesis
    by (cases "es_Read (ops w) e i s") (auto simp: exec_op_def op_allowed_def)
next
  case (OpUpdate e i d)
  with assms update_inv show ?thesis
    by (cases "es_Update (ops w) e i d s") (auto simp: exec_op_def op_allowed_def)
next
  case (OpDelete e i)
  with assms delete_inv show ?thesis
    by (cases "es_Delete (ops w) e i s") (auto simp: exec_op_def op_allowed_def)
next
  case (OpList e)
  with assms list_state show ?thesis
    by (cases "es_List (ops w) e s") (auto simp: exec_op_def op_allowed_def)
qed (use assms create_inv in \<open>auto simp: exec_op_def op_allowed_def\<close>)

lemma exec_op_keeps:
  assumes "inv s" "op_allowed x" "exec_op (ops w) x s = Some s'"
    and "\<not> op_targets x e i" "abs s e i = Some d"
  shows "abs s' e i = Some d"
proof (cases x)
  case (OpRead e' j)
  with assms read_state show ?thesis
    by (cases "es_Read (ops w) e' j s") (auto simp: exec_op_def op_allowed_def)
next
  case (OpUpdate e' j d')
  with assms update_frame [of s e' j w d' _ s' e i] show ?thesis
    by (cases "es_Update (ops w) e' j d' s") (auto simp: exec_op_def op_allowed_def op_targets_def)
next
  case (OpDelete e' j)
  with assms delete_frame [of s e' j w _ s' e i] show ?thesis
    by (cases "es_Delete (ops w) e' j s") (auto simp: exec_op_def op_allowed_def op_targets_def)
next
  case (OpList e')
  with assms list_state show ?thesis
    by (cases "es_List (ops w) e' s") (auto simp: exec_op_def op_allowed_def)
qed (use assms create_keeps in \<open>auto simp: exec_op_def op_allowed_def\<close>)

lemma exec_ops_inv:
  "exec_ops ops xs s = Some s' \<Longrightarrow> inv s \<Longrightarrow> list_all (\<lambda>(w, x). op_allowed x) xs \<Longrightarrow> inv s'"
proof (induction xs arbitrary: s)
  case (Cons p xs)
  then show ?case by (cases p) (auto split: option.splits dest: exec_op_inv)
qed simp

lemma exec_ops_keeps:
  "exec_ops ops xs s = Some s' \<Longrightarrow> inv s \<Longrightarrow>
   list_all (\<lambda>(w, x). op_allowed x \<and> \<not> op_targets x e i) xs \<Longrightarrow>
   abs s e i = Some d \<Longrightarrow> abs s' e i = Some d"
proof (induction xs arbitrary: s)
  case (Cons p xs)
  then show ?case by (cases p) (auto split: option.splits dest: exec_op_inv exec_op_keeps)
qed simp

end

subsection \<open>Properties of the validation helpers\<close>

text \<open>
  \<open>ParseId\<close> accepts exactly the non-empty strings of decimal digits (no
  sign, no blanks), and gives the number they denote whenever that number fits into an
  \<^verbatim>\<open>int\<close>.
\<close>

lemma ParseId_exact:
  "(ParseId s = None \<longleftrightarrow> s = [] \<or> \<not> list_all isdigit s) \<and>
   (s \<noteq> [] \<and> list_all isdigit s \<and> dec_value s < 2 ^ 31
    \<longrightarrow> map_option sint (ParseId s) = Some (int (dec_value s)))"
  by (auto simp: ParseId_eq sint_of_nat_small)

text \<open>
  \<open>ParseId\<close> has no check for overflow: on the wrap-around a machine with two's
  complement makes, an ID and the ID plus \<open>2^32\<close> are read as the same object, and an ID from
  \<open>2^31\<close> to \<open>2^32 - 1\<close> is read as a negative one.
\<close>

lemma ParseId_wraps:
  "ParseId (dec_nat (n + 2 ^ 32)) = ParseId (dec_nat n) \<and>
   (2 ^ 31 \<le> n \<and> n < 2 ^ 32 \<longrightarrow> map_option sint (ParseId (dec_nat n)) = Some (int n - 2 ^ 32))"
proof -
  have digits: "list_all isdigit (dec_nat k)" for k
    using dec_nat_digits by (auto simp: list_all_iff)
  have "sint (of_nat n :: cint) = int n - 2 ^ 32" if "2 ^ 31 \<le> n" "n < 2 ^ 32"
  proof -
    have "of_nat n = (word_of_int (int n - 2 ^ 32) :: cint)" by simp
    moreover have "sint (word_of_int (int n - 2 ^ 32) :: cint) = int n - 2 ^ 32"
      using that by (transfer, simp add: signed_take_bit_int_eq_self)
    ultimately show ?thesis by metis
  qed
  moreover have "(of_nat (n + 2 ^ 32) :: cint) = of_nat n" by simp
  ultimately show ?thesis using digits by (simp add: ParseId_eq)
qed

end
