(* ===== verification/Store_In_Memory.thy ===== *)
theory Store_In_Memory
  imports Entity_Store "HOL-Library.AList"
begin

text \<open>
  The in-memory entity store, \<^verbatim>\<open>src/entity_store_in_memory.cc\<close>. Every operation holds the
  store's mutex from its first to its last line, so each is one atomic step on the state.

  A hash map is an association list with distinct keys; the position of an entry stands for
  the unspecified iteration order, and no lemma depends on it. \<^verbatim>\<open>operator[]\<close> on the outer map
  inserts an empty inner map, in the reading operations too.
\<close>

type_synonym objects = "(cint \<times> string) list"

record mem_store =
  objects_by_id_by_entity :: "(string \<times> objects) list"
  next_id :: cint

definition EntityStoreInMemory_init :: mem_store where
  "EntityStoreInMemory_init = \<lparr>objects_by_id_by_entity = [], next_id = 0\<rparr>"

text \<open>\<^verbatim>\<open>objects_by_id_by_entity_[entity_name]\<close>: the inner map and the outer one that holds it.\<close>

definition subscript :: "string \<Rightarrow> mem_store \<Rightarrow> objects \<times> mem_store" where
  "subscript entity_name s =
     (case map_of (objects_by_id_by_entity s) entity_name of
        Some objs \<Rightarrow> (objs, s)
      | None \<Rightarrow> ([], s\<lparr>objects_by_id_by_entity := AList.update entity_name [] (objects_by_id_by_entity s)\<rparr>))"

definition store_objects :: "string \<Rightarrow> objects \<Rightarrow> mem_store \<Rightarrow> mem_store" where
  "store_objects entity_name objs s =
     s\<lparr>objects_by_id_by_entity := AList.update entity_name objs (objects_by_id_by_entity s)\<rparr>"

definition InMemory_Create :: "string \<Rightarrow> string \<Rightarrow> mem_store \<Rightarrow> (cint \<times> mem_store) option" where
  "InMemory_Create entity_name data s =
     (case subscript entity_name s of (objs, s1) \<Rightarrow>
        (case next_unused (\<lambda>i. map_of objs i \<noteq> None) (next_id s1) of
           None \<Rightarrow> None
         | Some i \<Rightarrow>
             Some (i, store_objects entity_name (AList.update i data objs) (s1\<lparr>next_id := i + 1\<rparr>))))"

definition InMemory_Read :: "string \<Rightarrow> cint \<Rightarrow> mem_store \<Rightarrow> string option \<times> mem_store" where
  "InMemory_Read entity_name i s =
     (case subscript entity_name s of (objs, s1) \<Rightarrow> (map_of objs i, s1))"

definition InMemory_Update :: "string \<Rightarrow> cint \<Rightarrow> string \<Rightarrow> mem_store \<Rightarrow> bool \<times> mem_store" where
  "InMemory_Update entity_name i data s =
     (case subscript entity_name s of (objs, s1) \<Rightarrow>
        (True, store_objects entity_name (AList.update i data objs) s1))"

definition InMemory_Delete :: "string \<Rightarrow> cint \<Rightarrow> mem_store \<Rightarrow> bool \<times> mem_store" where
  "InMemory_Delete entity_name i s =
     (case subscript entity_name s of (objs, s1) \<Rightarrow>
        (let elements_erased = length objs - length (AList.delete i objs)
         in (elements_erased \<noteq> 0, store_objects entity_name (AList.delete i objs) s1)))"

definition InMemory_List :: "string \<Rightarrow> mem_store \<Rightarrow> cint list \<times> mem_store" where
  "InMemory_List entity_name s =
     (case subscript entity_name s of (objs, s1) \<Rightarrow> (map fst objs, s1))"

text \<open>The class as an implementation of the interface; nothing outside can make it fail.\<close>

definition EntityStoreInMemory :: "unit \<Rightarrow> mem_store EntityStore" where
  "EntityStoreInMemory w =
     \<lparr>es_Create = InMemory_Create, es_Read = InMemory_Read, es_Update = InMemory_Update,
      es_Delete = InMemory_Delete, es_List = InMemory_List\<rparr>"

subsection \<open>Contents and invariant\<close>

definition objects_of :: "mem_store \<Rightarrow> string \<Rightarrow> objects" where
  "objects_of s e = (case map_of (objects_by_id_by_entity s) e of None \<Rightarrow> [] | Some objs \<Rightarrow> objs)"

definition mem_abs :: "mem_store \<Rightarrow> contents" where
  "mem_abs s e = map_of (objects_of s e)"

definition mem_inv :: "mem_store \<Rightarrow> bool" where
  "mem_inv s \<longleftrightarrow> (\<forall>e. distinct (map fst (objects_of s e)))"

text \<open>An ID is left for the entity: counting up from \<open>next_id\<close> past its objects stays an \<^verbatim>\<open>int\<close>.\<close>

definition mem_room :: "mem_store \<Rightarrow> string \<Rightarrow> bool" where
  "mem_room s e \<longleftrightarrow> 0 \<le> sint (next_id s) \<and> sint (next_id s) + int (length (objects_of s e)) < 2 ^ 31"

text \<open>What \<^verbatim>\<open>operator[]\<close> leaves behind.\<close>

definition touch :: "string \<Rightarrow> mem_store \<Rightarrow> mem_store" where
  "touch e s = snd (subscript e s)"

lemma subscript_eq: "subscript e s = (objects_of s e, touch e s)"
  by (simp add: subscript_def touch_def objects_of_def split: option.split)

lemma touch_simps [store_simps]:
  "objects_of (touch e s) e' = objects_of s e'"
  "next_id (touch e s) = next_id s"
  by (simp_all add: subscript_def touch_def objects_of_def update_conv' split: option.split)

lemma objects_of_store [store_simps]:
  "objects_of (store_objects e objs s) e' = (if e' = e then objs else objects_of s e')"
  "next_id (store_objects e objs s) = next_id s"
  "objects_of (s\<lparr>next_id := n\<rparr>) e' = objects_of s e'"
  by (simp_all add: store_objects_def objects_of_def update_conv')

lemma mem_abs_store [store_simps]:
  "mem_abs (store_objects e objs s) e' = (if e' = e then map_of objs else mem_abs s e')"
  "mem_abs (touch e s) = mem_abs s"
  "mem_abs (s\<lparr>next_id := n\<rparr>) = mem_abs s"
  by (simp_all add: mem_abs_def objects_of_store touch_simps fun_eq_iff)

lemma mem_inv_store [store_simps]:
  "mem_inv s \<Longrightarrow> distinct (map fst objs) \<Longrightarrow> mem_inv (store_objects e objs s)"
  "mem_inv (touch e s) = mem_inv s"
  "mem_inv (s\<lparr>next_id := n\<rparr>) = mem_inv s"
  by (simp_all add: mem_inv_def objects_of_store touch_simps)

lemma mem_invD: "mem_inv s \<Longrightarrow> distinct (map fst (objects_of s e))"
  by (simp add: mem_inv_def)

text \<open>The operations in terms of the objects of one entity.\<close>

lemma InMemory_eqs [store_simps]:
  "InMemory_Create e d s =
     map_option (\<lambda>i. (i, store_objects e (AList.update i d (objects_of s e))
                          ((touch e s)\<lparr>next_id := i + 1\<rparr>)))
       (next_unused (\<lambda>i. mem_abs s e i \<noteq> None) (next_id s))"
  "InMemory_Read e i s = (mem_abs s e i, touch e s)"
  "InMemory_Update e i d s =
     (True, store_objects e (AList.update i d (objects_of s e)) (touch e s))"
  "InMemory_Delete e i s =
     (length (objects_of s e) - length (AList.delete i (objects_of s e)) \<noteq> 0,
      store_objects e (AList.delete i (objects_of s e)) (touch e s))"
  "InMemory_List e s = (map fst (objects_of s e), touch e s)"
  by (simp_all add: InMemory_Create_def InMemory_Read_def InMemory_Update_def InMemory_Delete_def
      InMemory_List_def mem_abs_def subscript_eq touch_simps Let_def not_le split: option.split)

lemma length_delete_less: "length (AList.delete k al) < length al \<longleftrightarrow> map_of al k \<noteq> None"
proof (induction al)
  case (Cons p al)
  have "length (AList.delete k al) \<le> length al" by (rule length_delete_le)
  with Cons show ?case by (cases p) auto
qed simp

lemma InMemory_ops [store_simps]:
  "es_Create (EntityStoreInMemory w) = InMemory_Create"
  "es_Read (EntityStoreInMemory w) = InMemory_Read"
  "es_Update (EntityStoreInMemory w) = InMemory_Update"
  "es_Delete (EntityStoreInMemory w) = InMemory_Delete"
  "es_List (EntityStoreInMemory w) = InMemory_List"
  by (simp_all add: EntityStoreInMemory_def)

lemma mem_abs_update [store_simps]:
  "mem_abs (store_objects e (AList.update i d (objects_of s e)) t)
    = (mem_abs t)(e := (mem_abs s e)(i := Some d))"
  by (simp add: fun_eq_iff mem_abs_store update_conv') (simp add: mem_abs_def)

lemma mem_abs_delete [store_simps]:
  "mem_abs (store_objects e (AList.delete i (objects_of s e)) t)
    = (mem_abs t)(e := (mem_abs s e)(i := None))"
  by (simp add: fun_eq_iff mem_abs_store delete_conv') (simp add: mem_abs_def)

lemma mem_erased [store_simps]:
  "length (objects_of s e) \<le> length (AList.delete i (objects_of s e)) \<longleftrightarrow> mem_abs s e i = None"
  using length_delete_less [of i "objects_of s e"] by (auto simp: mem_abs_def)

lemma mem_ids [store_simps]: "fst ` set (objects_of s e) = {i. mem_abs s e i \<noteq> None}"
  by (auto simp: mem_abs_def map_of_eq_None_iff)

lemma map_of_objects [store_simps]: "map_of (objects_of s e) = mem_abs s e"
  by (simp add: mem_abs_def)

lemma mem_used_card: "card {i. mem_abs s e i \<noteq> None} \<le> length (objects_of s e)"
  unfolding mem_ids [symmetric] by (metis card_length length_map list.set_map)

lemma mem_create_search:
  assumes "mem_room s e"
  shows "\<exists>i. next_unused (\<lambda>i. mem_abs s e i \<noteq> None) (next_id s) = Some i \<and> sint (next_id s) \<le> sint i
    \<and> mem_abs s e i = None \<and> (\<forall>j. sint (next_id s) \<le> sint j \<and> sint j < sint i \<longrightarrow> mem_abs s e j \<noteq> None)"
proof -
  have "sint (next_id s) + int (card {i. mem_abs s e i \<noteq> None}) < 2 ^ 31"
    using assms mem_used_card [of s e] by (simp add: mem_room_def)
  with next_unused_int [of "next_id s" "\<lambda>i. mem_abs s e i \<noteq> None"] assms show ?thesis
    by (auto simp: mem_room_def)
qed

subsection \<open>The store satisfies the contract\<close>

interpretation in_memory: entity_store EntityStoreInMemory mem_inv mem_abs
proof (unfold_locales, goal_cases)
  case (2 s e w d i s')
  then show ?case
    by (auto simp: store_simps put_def fun_eq_iff dest: next_unused_fresh)
next
  case (3 s e w d i s' e' j d')
  then show ?case
    by (auto simp: store_simps dest!: next_unused_fresh)
qed (auto simp: store_simps put_def drop_object_def mem_invD distinct_update distinct_delete
    fun_eq_iff)

interpretation in_memory: reliable_entity_store EntityStoreInMemory mem_inv mem_abs "\<lambda>w. True" mem_room
  "\<lambda>s e. True"
proof (unfold_locales, goal_cases)
  case (1 w s e d)
  then obtain i where "next_unused (\<lambda>i. mem_abs s e i \<noteq> None) (next_id s) = Some i"
    "sint (next_id s) \<le> sint i"
    using mem_create_search by blast
  with 1 show ?case by (auto simp: store_simps mem_room_def)
qed (auto simp: store_simps)

subsection \<open>Properties of the in-memory store\<close>

text \<open>
  The in-memory store is the map its interface promises. Whatever the
  stored objects, \<open>Read\<close> returns what is stored, \<open>Update\<close> stores and reports success,
  \<open>Delete\<close> removes the object and reports whether there was one, and \<open>List\<close> gives every ID
  of the entity exactly once; none of them touches another object, and the invariant is kept.
\<close>

lemma InMemory_refines_map:
  assumes "mem_inv s"
  shows "(fst (InMemory_Read e i s) = mem_abs s e i \<and> mem_abs (snd (InMemory_Read e i s)) = mem_abs s)
    \<and> (fst (InMemory_Update e i d s) \<and> mem_abs (snd (InMemory_Update e i d s)) = put (mem_abs s) e i d)
    \<and> ((fst (InMemory_Delete e i s) \<longleftrightarrow> mem_abs s e i \<noteq> None)
        \<and> mem_abs (snd (InMemory_Delete e i s)) = drop_object (mem_abs s) e i)
    \<and> (distinct (fst (InMemory_List e s)) \<and> set (fst (InMemory_List e s)) = {i. mem_abs s e i \<noteq> None}
        \<and> mem_abs (snd (InMemory_List e s)) = mem_abs s)
    \<and> (mem_inv (snd (InMemory_Read e i s)) \<and> mem_inv (snd (InMemory_Update e i d s))
        \<and> mem_inv (snd (InMemory_Delete e i s)) \<and> mem_inv (snd (InMemory_List e s)))"
  using assms
  by (simp add: store_simps put_def drop_object_def mem_invD distinct_update distinct_delete)

definition sample_store :: mem_store where
  "sample_store = \<lparr>objects_by_id_by_entity = [(''Shoes'', [(1, ''one'')])], next_id = 0\<rparr>"

lemma sample_store_inv: "mem_inv sample_store"
  by (simp add: sample_store_def mem_inv_def objects_of_def)

text \<open>
  \<open>Create\<close> ends, and picks the first free ID at or above the counter:
  it is nonnegative, was unused, every ID it skipped is in use, and the counter moves past
  it, so later creations of any entity get larger IDs. The new object is stored and nothing
  else changes. (Room: the counter plus the number of objects of the entity is an \<^verbatim>\<open>int\<close>.)
\<close>

lemma InMemory_Create_spec:
  assumes "mem_inv s" "mem_room s e"
  shows "\<exists>i s'. InMemory_Create e d s = Some (i, s') \<and> mem_inv s'
    \<and> sint (next_id s) \<le> sint i \<and> next_id s' = i + 1 \<and> mem_abs s e i = None
    \<and> (\<forall>j. sint (next_id s) \<le> sint j \<and> sint j < sint i \<longrightarrow> mem_abs s e j \<noteq> None)
    \<and> mem_abs s' = put (mem_abs s) e i d"
  using mem_create_search [OF assms(2)] assms(1)
  by (auto simp: store_simps put_def mem_invD distinct_update)

text \<open>
  An object stays as it is, through any sequence of operations that
  does not update or delete it under its own entity and ID.
\<close>

lemma InMemory_keeps_objects:
  assumes "mem_inv s" "mem_abs s e i = Some d"
    and "list_all (\<lambda>(w, x). op_allowed x \<and> \<not> op_targets x e i) xs"
    and "exec_ops EntityStoreInMemory xs s = Some s'"
  shows "mem_abs s' e i = Some d"
  using in_memory.exec_ops_keeps assms by blast

end
