(* ===== verification/Store_Persistent.thy ===== *)
theory Store_Persistent
  imports Entity_Store "HOL-Library.AList"
begin

text \<open>
  The entity store on disk, \<^verbatim>\<open>src/entity_store_persistent.cc\<close>, over a model of the part of the
  file system it uses: the directory \<^verbatim>\<open>data_root_\<close> with one directory per entity and one
  file per object. A missing data root is an empty one, since \<^verbatim>\<open>create_directories\<close> makes it.

  The order of a directory's entries stands for the unspecified order in which
  \<^verbatim>\<open>directory_iterator\<close> visits them; no lemma depends on it. \<open>OtherFile\<close> is a directory
  entry that is no regular file and cannot be opened, such as a socket.
  \<open>NotDirectory\<close> is a plain file where an entity's directory should be. Subdirectories of
  an entity directory are not modelled, nor the exceptions that \<^verbatim>\<open>is_regular_file()\<close> and the
  step to the next entry throw when the disk fails in the middle of a directory.

  \<open>io\<close> is what the outside world does to one call: which calls into the file system fail,
  and how many bytes of a write reach the file before the disk is full.
\<close>

datatype node = RegularFile string | OtherFile
datatype entry = Directory "(string \<times> node) list" | NotDirectory
type_synonym disk = "(string \<times> entry) list"

record io =
  io_mkdir :: "string \<Rightarrow> bool"
  io_status :: "string \<Rightarrow> bool"
  io_iterate :: "string \<Rightarrow> bool"
  io_open_write :: "string \<Rightarrow> string \<Rightarrow> bool"
  io_write :: "string \<Rightarrow> string \<Rightarrow> nat option"
  io_open_read :: "string \<Rightarrow> string \<Rightarrow> bool"
  io_remove :: "string \<Rightarrow> string \<Rightarrow> bool"

definition io_ok :: "io \<Rightarrow> bool" where
  "io_ok w \<longleftrightarrow> (\<forall>e. io_mkdir w e \<and> io_status w e \<and> io_iterate w e) \<and>
     (\<forall>e n. io_open_write w e n \<and> io_write w e n = None \<and> io_open_read w e n \<and> io_remove w e n)"

definition io_fine :: io where
  "io_fine = \<lparr>io_mkdir = \<lambda>_. True, io_status = \<lambda>_. True, io_iterate = \<lambda>_. True,
     io_open_write = \<lambda>_ _. True, io_write = \<lambda>_ _. None, io_open_read = \<lambda>_ _. True,
     io_remove = \<lambda>_ _. True\<rparr>"

lemma io_ok_fine: "io_ok io_fine"
  by (simp add: io_ok_def io_fine_def)

subsection \<open>File operations\<close>

definition dir_entries :: "disk \<Rightarrow> string \<Rightarrow> (string \<times> node) list option" where
  "dir_entries disk e = (case map_of disk e of Some (Directory es) \<Rightarrow> Some es | _ \<Rightarrow> None)"

definition set_entries :: "string \<Rightarrow> (string \<times> node) list \<Rightarrow> disk \<Rightarrow> disk" where
  "set_entries e es disk = AList.update e (Directory es) disk"

text \<open>\<^verbatim>\<open>EntityDirectory\<close> and \<^verbatim>\<open>EntityFilePath\<close>, as names under \<^verbatim>\<open>data_root_\<close>.\<close>

definition EntityFilePath :: "string \<Rightarrow> cint \<Rightarrow> string \<times> string" where
  "EntityFilePath entity_name i = (entity_name, to_string i)"

text \<open>\<^verbatim>\<open>EnsureEntityDirectory\<close>: \<^verbatim>\<open>create_directories\<close> succeeds on a directory that exists.\<close>

definition EnsureEntityDirectory :: "io \<Rightarrow> string \<Rightarrow> disk \<Rightarrow> bool \<times> disk" where
  "EnsureEntityDirectory w entity_name disk =
     (case map_of disk entity_name of
        Some (Directory _) \<Rightarrow> (True, disk)
      | Some NotDirectory \<Rightarrow> (False, disk)
      | None \<Rightarrow> if io_mkdir w entity_name then (True, set_entries entity_name [] disk) else (False, disk))"

text \<open>
  The loop over \<^verbatim>\<open>directory_iterator(entity_dir, ec)\<close> that collects the IDs of the regular
  files with a numeric name. \<open>None\<close> is an error in \<^verbatim>\<open>ec\<close>; the loop is then empty.
\<close>

definition regular :: "node \<Rightarrow> bool" where
  "regular n = (case n of RegularFile _ \<Rightarrow> True | OtherFile \<Rightarrow> False)"

fun entry_ids :: "(string \<times> node) list \<Rightarrow> cint list" where
  "entry_ids [] = []"
| "entry_ids ((name, n) # es) =
     (if regular n
      then (case ParseId name of Some i \<Rightarrow> i # entry_ids es | None \<Rightarrow> entry_ids es)
      else entry_ids es)"

definition iterate_ids :: "io \<Rightarrow> string \<Rightarrow> disk \<Rightarrow> cint list option" where
  "iterate_ids w entity_name disk =
     (case dir_entries disk entity_name of
        None \<Rightarrow> None
      | Some es \<Rightarrow> if io_iterate w entity_name then Some (entry_ids es) else None)"

text \<open>
  \<^verbatim>\<open>std::ofstream output(path, binary | trunc); output << data; output.close();\<close> and the
  checks after each: opening truncates or creates the file, and a write that fails leaves
  the bytes that reached it.
\<close>

definition write_file :: "io \<Rightarrow> string \<times> string \<Rightarrow> string \<Rightarrow> disk \<Rightarrow> bool \<times> disk" where
  "write_file w path data disk =
     (case path of (e, name) \<Rightarrow>
        (case dir_entries disk e of
           None \<Rightarrow> (False, disk)
         | Some es \<Rightarrow>
             if \<not> io_open_write w e name \<or> map_of es name = Some OtherFile then (False, disk)
             else (case io_write w e name of
                     None \<Rightarrow> (True, set_entries e (AList.update name (RegularFile data) es) disk)
                   | Some n \<Rightarrow>
                       (False, set_entries e (AList.update name (RegularFile (take n data)) es) disk))))"

subsection \<open>The operations of EntityStorePersistent\<close>

text \<open>
  \<open>Create\<close> in two parts, because it holds no lock: lines 18 to 45 make the directory and
  choose the lowest unused ID, lines 47 to 63 write the file. Another thread can run in
  between (see \<open>Persistent_Create_race\<close>).
\<close>

datatype choice = Refused | Endless | Chosen cint

definition Create_choose :: "io \<Rightarrow> string \<Rightarrow> disk \<Rightarrow> choice \<times> disk" where
  "Create_choose w entity_name disk =
     (if \<not> IsValidEntityName entity_name then (Refused, disk)
      else (case EnsureEntityDirectory w entity_name disk of
              (False, disk1) \<Rightarrow> (Refused, disk1)
            | (True, disk1) \<Rightarrow>
               (case iterate_ids w entity_name disk1 of
                  None \<Rightarrow> (Refused, disk1)
                | Some ids \<Rightarrow>
                   (case next_unused (\<lambda>i. i \<in> set ids) 0 of
                      None \<Rightarrow> (Endless, disk1)
                    | Some i \<Rightarrow> (Chosen i, disk1)))))"

definition Create_store :: "io \<Rightarrow> string \<Rightarrow> cint \<Rightarrow> string \<Rightarrow> disk \<Rightarrow> cint \<times> disk" where
  "Create_store w entity_name i data disk =
     (case write_file w (EntityFilePath entity_name i) data disk of
        (False, disk1) \<Rightarrow> (-1, disk1)
      | (True, disk1) \<Rightarrow> (i, disk1))"

definition Persistent_Create :: "io \<Rightarrow> string \<Rightarrow> string \<Rightarrow> disk \<Rightarrow> (cint \<times> disk) option" where
  "Persistent_Create w entity_name data disk =
     (case Create_choose w entity_name disk of
        (Refused, disk1) \<Rightarrow> Some (-1, disk1)
      | (Endless, disk1) \<Rightarrow> None
      | (Chosen i, disk1) \<Rightarrow> Some (Create_store w entity_name i data disk1))"

definition Persistent_Read :: "io \<Rightarrow> string \<Rightarrow> cint \<Rightarrow> disk \<Rightarrow> string option \<times> disk" where
  "Persistent_Read w entity_name i disk =
     (if sint i < 0 \<or> \<not> IsValidEntityName entity_name then (None, disk)
      else (case EntityFilePath entity_name i of (e, name) \<Rightarrow>
             (case dir_entries disk e of
                None \<Rightarrow> (None, disk)
              | Some es \<Rightarrow>
                 (case map_of es name of
                    Some (RegularFile data) \<Rightarrow> (if io_open_read w e name then Some data else None, disk)
                  | _ \<Rightarrow> (None, disk)))))"

definition Persistent_Update :: "io \<Rightarrow> string \<Rightarrow> cint \<Rightarrow> string \<Rightarrow> disk \<Rightarrow> bool \<times> disk" where
  "Persistent_Update w entity_name i data disk =
     (if sint i < 0 \<or> \<not> IsValidEntityName entity_name then (False, disk)
      else (case EnsureEntityDirectory w entity_name disk of
              (False, disk1) \<Rightarrow> (False, disk1)
            | (True, disk1) \<Rightarrow> write_file w (EntityFilePath entity_name i) data disk1))"

definition Persistent_Delete :: "io \<Rightarrow> string \<Rightarrow> cint \<Rightarrow> disk \<Rightarrow> bool \<times> disk" where
  "Persistent_Delete w entity_name i disk =
     (if sint i < 0 \<or> \<not> IsValidEntityName entity_name then (False, disk)
      else (case EntityFilePath entity_name i of (e, name) \<Rightarrow>
             (case dir_entries disk e of
                None \<Rightarrow> (False, disk)
              | Some es \<Rightarrow>
                 (if map_of es name = None \<or> \<not> io_remove w e name then (False, disk)
                  else (True, set_entries e (AList.delete name es) disk)))))"

definition Persistent_List :: "io \<Rightarrow> string \<Rightarrow> disk \<Rightarrow> cint list \<times> disk" where
  "Persistent_List w entity_name disk =
     (if \<not> IsValidEntityName entity_name then ([], disk)
      else if map_of disk entity_name = None \<or> \<not> io_status w entity_name then ([], disk)
      else (case iterate_ids w entity_name disk of
              None \<Rightarrow> ([], disk)
            | Some ids \<Rightarrow> (sort_key sint ids, disk)))"

definition EntityStorePersistent :: "io \<Rightarrow> disk EntityStore" where
  "EntityStorePersistent w =
     \<lparr>es_Create = Persistent_Create w, es_Read = Persistent_Read w, es_Update = Persistent_Update w,
      es_Delete = Persistent_Delete w, es_List = Persistent_List w\<rparr>"

lemma Persistent_ops [store_simps]:
  "es_Create (EntityStorePersistent w) = Persistent_Create w"
  "es_Read (EntityStorePersistent w) = Persistent_Read w"
  "es_Update (EntityStorePersistent w) = Persistent_Update w"
  "es_Delete (EntityStorePersistent w) = Persistent_Delete w"
  "es_List (EntityStorePersistent w) = Persistent_List w"
  by (simp_all add: EntityStorePersistent_def)

subsection \<open>Contents and invariant\<close>

text \<open>An object is the regular file named after its nonnegative ID.\<close>

definition disk_abs :: "disk \<Rightarrow> contents" where
  "disk_abs disk e i =
     (if sint i < 0 then None
      else case dir_entries disk e of
             None \<Rightarrow> None
           | Some es \<Rightarrow> (case map_of es (to_string i) of Some (RegularFile d) \<Rightarrow> Some d | _ \<Rightarrow> None))"

text \<open>
  Names are unique, as on any file system, and a file with a numeric name is one the store
  wrote: a regular file named after a nonnegative ID without leading zeros.
\<close>

definition dir_inv :: "(string \<times> node) list \<Rightarrow> bool" where
  "dir_inv es \<longleftrightarrow> distinct (map fst es) \<and>
     list_all (\<lambda>(name, n). case ParseId name of None \<Rightarrow> True
        | Some i \<Rightarrow> 0 \<le> sint i \<and> name = to_string i \<and> regular n) es"

definition disk_inv :: "disk \<Rightarrow> bool" where
  "disk_inv disk \<longleftrightarrow> (\<forall>e es. dir_entries disk e = Some es \<longrightarrow> dir_inv es)"

text \<open>No plain file is in the place of the entity's directory; and an ID is left for it.\<close>

definition disk_usable :: "disk \<Rightarrow> string \<Rightarrow> bool" where
  "disk_usable disk e \<longleftrightarrow> map_of disk e \<noteq> Some NotDirectory"

definition disk_room :: "disk \<Rightarrow> string \<Rightarrow> bool" where
  "disk_room disk e \<longleftrightarrow> disk_usable disk e \<and>
     (case dir_entries disk e of None \<Rightarrow> True | Some es \<Rightarrow> length es < 2 ^ 31)"

subsection \<open>Lemmas on directories\<close>

lemma dir_entries_set [store_simps]:
  "dir_entries (set_entries e es disk) e' = (if e' = e then Some es else dir_entries disk e')"
  by (simp add: dir_entries_def set_entries_def update_conv')

lemma ParseId_negative: "sint i < 0 \<Longrightarrow> ParseId (to_string i) = None"
  by (auto simp: ParseId_eq to_string_def dec_int_def isdigit_def code_def)

lemma list_all_update:
  "list_all P al \<Longrightarrow> P (k, v) \<Longrightarrow> list_all P (AList.update k v al)"
proof (induction al)
  case (Cons p al)
  then show ?case by (cases p) auto
qed simp

lemma list_all_delete: "list_all P al \<Longrightarrow> list_all P (AList.delete k al)"
  by (simp add: AList.delete_eq list_all_iff)

lemma dir_inv_Nil [simp]: "dir_inv []"
  by (simp add: dir_inv_def)

lemma dir_inv_update: "dir_inv es \<Longrightarrow> dir_inv (AList.update (to_string i) (RegularFile d) es)"
  unfolding dir_inv_def
  by (cases "sint i < 0")
    (auto simp: distinct_update ParseId_negative ParseId_to_string regular_def intro!: list_all_update)

lemma dir_inv_delete: "dir_inv es \<Longrightarrow> dir_inv (AList.delete name es)"
  unfolding dir_inv_def by (simp add: distinct_delete list_all_delete)

lemma disk_invD: "disk_inv disk \<Longrightarrow> dir_entries disk e = Some es \<Longrightarrow> dir_inv es"
  by (simp add: disk_inv_def)

lemma disk_inv_set: "disk_inv disk \<Longrightarrow> dir_inv es \<Longrightarrow> disk_inv (set_entries e es disk)"
  by (simp add: disk_inv_def dir_entries_set)

text \<open>The object an entity directory holds under an ID.\<close>

definition dir_object :: "(string \<times> node) list \<Rightarrow> cint \<Rightarrow> string option" where
  "dir_object es i =
     (if sint i < 0 then None
      else case map_of es (to_string i) of Some (RegularFile d) \<Rightarrow> Some d | _ \<Rightarrow> None)"

lemma disk_abs_eq:
  "disk_abs disk e = (case dir_entries disk e of None \<Rightarrow> (\<lambda>_. None) | Some es \<Rightarrow> dir_object es)"
  by (auto simp: disk_abs_def dir_object_def fun_eq_iff split: option.split)

lemma disk_abs_set [store_simps]:
  "disk_abs (set_entries e es disk) = (disk_abs disk)(e := dir_object es)"
  by (simp add: fun_eq_iff disk_abs_eq dir_entries_set)

lemma dir_object_Nil [simp]: "dir_object [] = (\<lambda>_. None)"
  by (simp add: dir_object_def fun_eq_iff)

lemma dir_object_update:
  "0 \<le> sint i \<Longrightarrow> dir_object (AList.update (to_string i) (RegularFile d) es) = (dir_object es)(i := Some d)"
  by (auto simp: dir_object_def fun_eq_iff update_conv' to_string_inject)

lemma dir_object_update_negative:
  "sint i < 0 \<Longrightarrow> dir_object (AList.update (to_string i) (RegularFile d) es) = dir_object es"
  by (auto simp: dir_object_def fun_eq_iff update_conv' to_string_inject)

lemma dir_object_delete:
  "0 \<le> sint i \<Longrightarrow> dir_object (AList.delete (to_string i) es) = (dir_object es)(i := None)"
  by (auto simp: dir_object_def fun_eq_iff delete_conv' to_string_inject)

text \<open>The iteration finds exactly the objects, each once.\<close>

lemma entry_ids_iff:
  "i \<in> set (entry_ids es) \<longleftrightarrow> (\<exists>name n. (name, n) \<in> set es \<and> regular n \<and> ParseId name = Some i)"
  by (induction es rule: entry_ids.induct) (auto split: option.splits)

lemma entry_ids_objects:
  assumes "dir_inv es"
  shows "i \<in> set (entry_ids es) \<longleftrightarrow> dir_object es i \<noteq> None"
proof
  assume "i \<in> set (entry_ids es)"
  then obtain name n where n: "(name, n) \<in> set es" "regular n" "ParseId name = Some i"
    by (auto simp: entry_ids_iff)
  with assms have "0 \<le> sint i" "name = to_string i" "map_of es name = Some n"
    by (auto simp: dir_inv_def list_all_iff split: option.splits)
  with n(2) show "dir_object es i \<noteq> None"
    by (auto simp: dir_object_def regular_def split: node.splits)
next
  assume "dir_object es i \<noteq> None"
  then obtain d where "0 \<le> sint i" "map_of es (to_string i) = Some (RegularFile d)"
    by (auto simp: dir_object_def split: if_splits option.splits node.splits)
  then show "i \<in> set (entry_ids es)"
    using map_of_SomeD [of es "to_string i" "RegularFile d"]
    by (auto simp: entry_ids_iff ParseId_to_string regular_def intro!: exI [of _ "to_string i"])
qed

lemma distinct_entry_ids: "dir_inv es \<Longrightarrow> distinct (entry_ids es)"
proof (induction es)
  case (Cons p es)
  obtain name n where p: "p = (name, n)" by (cases p)
  note 2 = Cons.prems [unfolded p]
  from Cons have IH: "distinct (entry_ids es)" by (simp add: p dir_inv_def)
  have "i \<notin> set (entry_ids es)" if "ParseId name = Some i" for i
  proof
    assume "i \<in> set (entry_ids es)"
    then obtain name' n' where "(name', n') \<in> set es" "ParseId name' = Some i"
      by (auto simp: entry_ids_iff)
    with 2 that have "name' = name"
      by (force simp: dir_inv_def list_all_iff)
    with \<open>(name', n') \<in> set es\<close> have "name \<in> fst ` set es" by force
    with 2 show False by (simp add: dir_inv_def)
  qed
  with IH show ?case by (auto simp: p split: option.split)
qed simp

lemma length_entry_ids: "length (entry_ids es) \<le> length es"
proof (induction es)
  case (Cons p es)
  then show ?case by (cases p) (auto split: option.split)
qed simp

subsection \<open>Lemmas on the operations\<close>

text \<open>The entries of an entity's directory, a missing one taken as empty.\<close>

definition entries_of :: "disk \<Rightarrow> string \<Rightarrow> (string \<times> node) list" where
  "entries_of disk e = (case dir_entries disk e of None \<Rightarrow> [] | Some es \<Rightarrow> es)"

lemma disk_abs_entries: "disk_abs disk e = dir_object (entries_of disk e)"
  by (simp add: disk_abs_eq entries_of_def split: option.split)

lemma entries_of_inv: "disk_inv disk \<Longrightarrow> dir_inv (entries_of disk e)"
  by (simp add: entries_of_def disk_inv_def split: option.split)

lemma ensure_directory:
  assumes "EnsureEntityDirectory w e disk = (b, disk1)"
  shows "disk_abs disk1 = disk_abs disk"
    and "disk_inv disk \<Longrightarrow> disk_inv disk1"
    and "entries_of disk1 = entries_of disk"
    and "b \<Longrightarrow> dir_entries disk1 e = Some (entries_of disk e)"
proof -
  have "entries_of disk1 = entries_of disk \<and> (disk_inv disk \<longrightarrow> disk_inv disk1)
      \<and> (b \<longrightarrow> dir_entries disk1 e = Some (entries_of disk e))"
    using assms
    by (auto simp: EnsureEntityDirectory_def entries_of_def fun_eq_iff store_simps disk_inv_set
        split: option.splits entry.splits if_splits) (auto simp: dir_entries_def)
  then show "disk_inv disk \<Longrightarrow> disk_inv disk1" "entries_of disk1 = entries_of disk"
    "b \<Longrightarrow> dir_entries disk1 e = Some (entries_of disk e)" by auto
  then show "disk_abs disk1 = disk_abs disk" by (simp add: fun_eq_iff disk_abs_entries)
qed

lemma ensure_ok:
  "io_ok w \<Longrightarrow> disk_usable disk e \<Longrightarrow> fst (EnsureEntityDirectory w e disk)"
  by (auto simp: EnsureEntityDirectory_def io_ok_def disk_usable_def split: option.split entry.split)

lemma write_file_cases:
  assumes "write_file w (EntityFilePath e i) data disk = (b, disk1)"
  obtains "\<not> b" "disk1 = disk"
  | es where "dir_entries disk e = Some es" "b"
      "disk1 = set_entries e (AList.update (to_string i) (RegularFile data) es) disk"
  | es n where "dir_entries disk e = Some es" "\<not> b"
      "disk1 = set_entries e (AList.update (to_string i) (RegularFile (take n data)) es) disk"
  using assms
  by (auto simp: write_file_def EntityFilePath_def split: option.splits if_splits)

lemma write_file_abs:
  assumes "write_file w (EntityFilePath e i) data disk = (b, disk1)" "disk_inv disk"
  shows "disk_inv disk1"
    and "(e', j) \<noteq> (e, i) \<Longrightarrow> disk_abs disk1 e' j = disk_abs disk e' j"
    and "0 \<le> sint i \<Longrightarrow> b \<Longrightarrow> disk_abs disk1 = put (disk_abs disk) e i data"
    and "sint i < 0 \<Longrightarrow> disk_abs disk1 = disk_abs disk"
proof -
  have inv: "disk_inv (set_entries e (AList.update (to_string i) (RegularFile d) es) disk)"
    if "dir_entries disk e = Some es" for d es
    using assms(2) that by (simp add: disk_inv_set dir_inv_update disk_invD)
  have abs: "disk_abs (set_entries e (AList.update (to_string i) (RegularFile d) es) disk)
      = (if sint i < 0 then disk_abs disk else put (disk_abs disk) e i d)"
    if "dir_entries disk e = Some es" for d es
    using that by (auto simp: disk_abs_set dir_object_update dir_object_update_negative put_def
        disk_abs_eq fun_eq_iff)
  from write_file_cases [OF assms(1)] inv assms(2) show "disk_inv disk1" by metis
  from write_file_cases [OF assms(1)] abs show
    "(e', j) \<noteq> (e, i) \<Longrightarrow> disk_abs disk1 e' j = disk_abs disk e' j"
    by cases (auto simp: put_apply)
  from write_file_cases [OF assms(1)] abs show
    "0 \<le> sint i \<Longrightarrow> b \<Longrightarrow> disk_abs disk1 = put (disk_abs disk) e i data"
    by cases auto
  from write_file_cases [OF assms(1)] abs show "sint i < 0 \<Longrightarrow> disk_abs disk1 = disk_abs disk"
    by cases auto
qed

text \<open>What \<open>Create_choose\<close> does: it may make the directory, and it picks the lowest unused ID.\<close>

lemma Create_choose_state:
  assumes "Create_choose w e disk = (c, disk1)"
  shows "disk_abs disk1 = disk_abs disk" "disk_inv disk \<Longrightarrow> disk_inv disk1"
    "entries_of disk1 = entries_of disk"
proof -
  have "disk1 = disk \<or> (\<exists>b. EnsureEntityDirectory w e disk = (b, disk1))"
    using assms by (auto simp: Create_choose_def split: if_splits prod.splits bool.splits option.splits)
  with ensure_directory(1-3) show "disk_abs disk1 = disk_abs disk"
    "disk_inv disk \<Longrightarrow> disk_inv disk1" "entries_of disk1 = entries_of disk" by blast+
qed

lemma Create_choose_Chosen:
  assumes "Create_choose w e disk = (Chosen i, disk1)" "disk_inv disk"
  shows "dir_entries disk1 e = Some (entries_of disk e)"
    and "next_unused (\<lambda>i. disk_abs disk e i \<noteq> None) 0 = Some i"
    and "disk_abs disk e i = None"
proof -
  from assms(1) obtain ids where ensure: "EnsureEntityDirectory w e disk = (True, disk1)"
    and ids: "iterate_ids w e disk1 = Some ids" "next_unused (\<lambda>i. i \<in> set ids) 0 = Some i"
    by (auto simp: Create_choose_def split: if_splits prod.splits bool.splits option.splits)
  show dir: "dir_entries disk1 e = Some (entries_of disk e)"
    using ensure_directory(4) [OF ensure] by simp
  with ids(1) have "ids = entry_ids (entries_of disk e)"
    by (auto simp: iterate_ids_def split: if_splits)
  then have "(\<lambda>i. i \<in> set ids) = (\<lambda>i. disk_abs disk e i \<noteq> None)"
    by (simp add: fun_eq_iff entry_ids_objects entries_of_inv assms(2) disk_abs_entries)
  with ids(2) show nxt: "next_unused (\<lambda>i. disk_abs disk e i \<noteq> None) 0 = Some i" by simp
  show "disk_abs disk e i = None" using next_unused_fresh [OF nxt] by simp
qed

lemma Create_choose_total:
  assumes "io_ok w" "disk_inv disk" "IsValidEntityName e" "disk_room disk e"
  shows "\<exists>i disk1. Create_choose w e disk = (Chosen i, disk1) \<and> 0 \<le> sint i
    \<and> (\<forall>j. 0 \<le> sint j \<and> sint j < sint i \<longrightarrow> disk_abs disk e j \<noteq> None)"
proof -
  let ?es = "entries_of disk e"
  obtain disk1 where ensure: "EnsureEntityDirectory w e disk = (True, disk1)"
    using ensure_ok [of w disk e] assms(1,4)
    by (cases "EnsureEntityDirectory w e disk") (auto simp: disk_room_def)
  have ids: "iterate_ids w e disk1 = Some (entry_ids ?es)"
    using ensure_directory(4) [OF ensure] assms(1) by (simp add: iterate_ids_def io_ok_def)
  have objs: "(\<lambda>i. i \<in> set (entry_ids ?es)) = (\<lambda>i. disk_abs disk e i \<noteq> None)"
    by (simp add: fun_eq_iff entry_ids_objects entries_of_inv assms(2) disk_abs_entries)
  have "card {i. i \<in> set (entry_ids ?es)} \<le> length ?es"
    using card_length [of "entry_ids ?es"] length_entry_ids [of ?es] by simp
  moreover have "length ?es < 2 ^ 31"
    using assms(4) by (auto simp: disk_room_def entries_of_def split: option.splits)
  ultimately obtain i where "next_unused (\<lambda>i. i \<in> set (entry_ids ?es)) 0 = Some i" "0 \<le> sint i"
    "\<forall>j. 0 \<le> sint j \<and> sint j < sint i \<longrightarrow> j \<in> set (entry_ids ?es)"
    using next_unused_int [of 0 "\<lambda>i. i \<in> set (entry_ids ?es)"] by auto
  with ensure ids objs assms(3) show ?thesis
    by (auto simp: Create_choose_def fun_eq_iff)
qed

lemma Create_cases:
  assumes "Persistent_Create w e d disk = Some (i, disk')"
  obtains c where "Create_choose w e disk = (c, disk')" "i = -1"
  | k disk1 b where "Create_choose w e disk = (Chosen k, disk1)"
      "write_file w (EntityFilePath e k) d disk1 = (b, disk')" "i = (if b then k else -1)"
proof (cases "Create_choose w e disk")
  case (Pair c disk1)
  note choose = this
  show ?thesis
  proof (cases c)
    case (Chosen k)
    obtain b disk2 where w: "write_file w (EntityFilePath e k) d disk1 = (b, disk2)"
      by (cases "write_file w (EntityFilePath e k) d disk1")
    with assms choose Chosen have "disk2 = disk'" "i = (if b then k else -1)"
      by (cases b; simp add: Persistent_Create_def Create_store_def)+
    with w choose Chosen show ?thesis by (intro that(2)) auto
  qed (use assms choose that(1) in \<open>auto simp: Persistent_Create_def\<close>)
qed

lemma Update_cases:
  assumes "Persistent_Update w e i d disk = (b, disk')" "IsValidEntityName e" "0 \<le> sint i"
  obtains "\<not> b" "EnsureEntityDirectory w e disk = (False, disk')"
  | disk1 where "EnsureEntityDirectory w e disk = (True, disk1)"
      "write_file w (EntityFilePath e i) d disk1 = (b, disk')"
  using assms by (auto simp: Persistent_Update_def split: prod.splits bool.splits)

lemma Update_abs:
  assumes "Persistent_Update w e i d disk = (b, disk')" "IsValidEntityName e" "0 \<le> sint i" "disk_inv disk"
  shows "disk_inv disk'" "b \<Longrightarrow> disk_abs disk' = put (disk_abs disk) e i d"
    "(e', j) \<noteq> (e, i) \<Longrightarrow> disk_abs disk' e' j = disk_abs disk e' j"
proof -
  have "disk_inv disk' \<and> (b \<longrightarrow> disk_abs disk' = put (disk_abs disk) e i d)
      \<and> ((e', j) \<noteq> (e, i) \<longrightarrow> disk_abs disk' e' j = disk_abs disk e' j)"
    using assms(1-3)
  proof (cases rule: Update_cases)
    case 1
    with ensure_directory(1,2) [OF 1(2)] assms(4) show ?thesis by simp
  next
    case (2 disk1)
    with ensure_directory(1,2) [OF 2(1)] assms(3,4) write_file_abs [OF 2(2)] show ?thesis by auto
  qed
  then show "disk_inv disk'" "b \<Longrightarrow> disk_abs disk' = put (disk_abs disk) e i d"
    "(e', j) \<noteq> (e, i) \<Longrightarrow> disk_abs disk' e' j = disk_abs disk e' j" by auto
qed

text \<open>Under the invariant a numeric name in a directory is an object.\<close>

lemma dir_object_known:
  assumes "dir_inv es" "0 \<le> sint i"
  shows "dir_object es i = None \<longleftrightarrow> map_of es (to_string i) = None"
proof (cases "map_of es (to_string i)")
  case (Some n)
  have "ParseId (to_string i) = Some i" using assms(2) by (rule ParseId_to_string)
  moreover have "case ParseId (to_string i) of None \<Rightarrow> True
      | Some j \<Rightarrow> 0 \<le> sint j \<and> to_string i = to_string j \<and> regular n"
    using assms(1) map_of_SomeD [OF Some] unfolding dir_inv_def list_all_iff by fast
  ultimately have "regular n" by simp
  with Some assms(2) show ?thesis by (auto simp: dir_object_def regular_def split: node.splits)
qed (simp add: dir_object_def)

lemma dir_object_ex:
  "dir_inv es \<Longrightarrow> 0 \<le> sint i \<Longrightarrow>
   (\<exists>d. dir_object es i = Some d) \<longleftrightarrow> (\<exists>n. map_of es (to_string i) = Some n)"
  using dir_object_known [of es i] by auto

subsection \<open>The store satisfies the contract\<close>

lemmas persistent_defs = Persistent_Read_def Persistent_Delete_def Persistent_Update_def
  Persistent_List_def EntityFilePath_def

interpretation persistent: entity_store EntityStorePersistent disk_inv disk_abs
proof (unfold_locales, goal_cases)
  case (1 s e w d i s')
  then show ?case
    by (auto simp: store_simps elim!: Create_cases dest: Create_choose_state(2) write_file_abs(1))
next
  case (2 s e w d i s')
  from 2(3) have "Persistent_Create w e d s = Some (i, s')" by (simp add: store_simps)
  then show ?case
  proof (cases rule: Create_cases)
    case 1
    with 2 show ?thesis by simp
  next
    case (2 k disk1 b)
    from \<open>0 \<le> sint i\<close> 2(3) have "b" "i = k" by (auto split: if_splits)
    with 2 \<open>disk_inv s\<close> \<open>0 \<le> sint i\<close> show ?thesis
      using Create_choose_Chosen(3) [OF 2(1)] Create_choose_state [OF 2(1)]
        write_file_abs(3) [OF 2(2)] by simp
  qed
next
  case (3 s e w d i s' e' j d')
  from 3(3) have "Persistent_Create w e d s = Some (i, s')" by (simp add: store_simps)
  then show ?case
  proof (cases rule: Create_cases)
    case 1
    with 3 Create_choose_state(1) [OF 1(1)] show ?thesis by simp
  next
    case (2 k disk1 b)
    have "(e', j) \<noteq> (e, k)" using 3 Create_choose_Chosen(3) [OF 2(1)] by auto
    with 3 Create_choose_state [OF 2(1)] write_file_abs(2) [OF 2(2)] show ?thesis by simp
  qed
next
  case (4 s e i w r s')
  then show ?case
    by (auto simp: store_simps persistent_defs split: option.splits node.splits if_splits)
next
  case (5 s e i w d s')
  then show ?case
    by (auto simp: store_simps persistent_defs disk_abs_def split: option.splits node.splits if_splits)
next
  case (6 s e i w d b s')
  then show ?case using Update_abs(1) by (auto simp: store_simps)
next
  case (7 s e i w d s')
  then show ?case using Update_abs(2) by (auto simp: store_simps)
next
  case (8 s e i w d b s' e' j)
  then show ?case using Update_abs(3) by (auto simp: store_simps)
next
  case (9 s e i w b s')
  then show ?case
    by (auto simp: store_simps persistent_defs disk_inv_set dir_inv_delete disk_invD
        split: if_splits option.splits)
next
  case (10 s e i w s')
  then show ?case
    by (auto simp: store_simps persistent_defs disk_abs_eq dir_object_delete dir_object_ex disk_invD
        drop_object_def fun_eq_iff split: if_splits option.splits)
next
  case (11 s e i w s')
  then show ?case
    by (auto simp: store_simps persistent_defs split: if_splits option.splits)
next
  case (12 s e w ids s')
  then show ?case
    by (auto simp: store_simps persistent_defs split: if_splits option.splits)
next
  case (13 s e w ids s')
  then show ?case
    by (auto simp: store_simps persistent_defs iterate_ids_def disk_abs_eq distinct_entry_ids
        entry_ids_objects disk_invD split: if_splits option.splits)
qed

lemma Persistent_reads:
  "io_ok w \<Longrightarrow> IsValidEntityName e \<Longrightarrow> 0 \<le> sint i \<Longrightarrow> Persistent_Read w e i disk = (disk_abs disk e i, disk)"
  by (auto simp: persistent_defs disk_abs_def io_ok_def split: option.split node.split)

lemma Persistent_deletes:
  "io_ok w \<Longrightarrow> disk_inv disk \<Longrightarrow> IsValidEntityName e \<Longrightarrow> 0 \<le> sint i \<Longrightarrow>
   fst (Persistent_Delete w e i disk) \<longleftrightarrow> disk_abs disk e i \<noteq> None"
  by (auto simp: persistent_defs disk_abs_eq io_ok_def dir_object_ex dir_object_known disk_invD
      split: option.split)

lemma Persistent_lists:
  assumes "io_ok w" "disk_inv disk" "IsValidEntityName e"
  shows "set (fst (Persistent_List w e disk)) = {i. disk_abs disk e i \<noteq> None}"
proof (cases "dir_entries disk e")
  case None
  then show ?thesis by (auto simp: Persistent_List_def iterate_ids_def disk_abs_eq)
next
  case (Some es)
  then have "map_of disk e \<noteq> None" by (auto simp: dir_entries_def split: option.splits)
  with Some assms show ?thesis
    by (auto simp: Persistent_List_def iterate_ids_def disk_abs_eq io_ok_def entry_ids_objects
        disk_invD)
qed

lemma write_file_ok:
  "io_ok w \<Longrightarrow> disk_inv disk \<Longrightarrow> 0 \<le> sint i \<Longrightarrow> dir_entries disk e = Some es \<Longrightarrow>
   fst (write_file w (EntityFilePath e i) d disk)"
  using dir_object_known [of es i]
  by (auto simp: write_file_def EntityFilePath_def io_ok_def disk_invD dir_object_def split: if_splits)

lemma Persistent_updates:
  assumes "io_ok w" "disk_inv disk" "IsValidEntityName e" "0 \<le> sint i"
    and "disk_usable disk e"
  shows "fst (Persistent_Update w e i d disk)"
proof -
  obtain disk1 where en: "EnsureEntityDirectory w e disk = (True, disk1)"
    using ensure_ok [OF assms(1,5)] by (cases "EnsureEntityDirectory w e disk") auto
  from write_file_ok [OF assms(1) ensure_directory(2) [OF en assms(2)] assms(4) ensure_directory(4) [OF en]]
  show ?thesis using assms(3,4) en by (simp add: Persistent_Update_def)
qed

interpretation persistent: reliable_entity_store EntityStorePersistent disk_inv disk_abs
  io_ok disk_room disk_usable
proof (unfold_locales, goal_cases)
  case (1 w s e d)
  from Create_choose_total [OF 1] obtain i disk1 where
    choose: "Create_choose w e s = (Chosen i, disk1)" "0 \<le> sint i" by blast
  note st = Create_choose_state [OF choose(1)] Create_choose_Chosen(1) [OF choose(1) 1(2)]
  from write_file_ok [OF 1(1) st(2) [OF 1(2)] choose(2) st(4), of d] choose show ?case
    by (cases "write_file w (EntityFilePath e i) d disk1")
      (auto simp: store_simps Persistent_Create_def Create_store_def)
qed (auto simp: store_simps Persistent_reads Persistent_updates Persistent_deletes Persistent_lists)

subsection \<open>Properties of the persistent store\<close>

text \<open>
  When nothing fails outside, \<open>Create\<close> ends and returns the lowest
  nonnegative ID that holds no object; the new object holds the data and no other object
  of any entity changes. So deleted IDs are used again, unlike in the in-memory store.
\<close>

lemma Persistent_Create_lowest:
  assumes "io_ok w" "disk_inv disk" "IsValidEntityName e" "disk_room disk e"
  shows "\<exists>i disk'. Persistent_Create w e d disk = Some (i, disk') \<and> 0 \<le> sint i
    \<and> disk_abs disk e i = None
    \<and> (\<forall>j. 0 \<le> sint j \<and> sint j < sint i \<longrightarrow> disk_abs disk e j \<noteq> None)
    \<and> disk_inv disk' \<and> disk_abs disk' = put (disk_abs disk) e i d"
proof -
  from Create_choose_total [OF assms] obtain i disk1 where
    choose: "Create_choose w e disk = (Chosen i, disk1)" and i: "0 \<le> sint i"
    "\<forall>j. 0 \<le> sint j \<and> sint j < sint i \<longrightarrow> disk_abs disk e j \<noteq> None" by blast
  note st = Create_choose_state [OF choose] Create_choose_Chosen [OF choose assms(2)]
  have inv1: "disk_inv disk1" using st(2) assms(2) .
  obtain disk' where w: "write_file w (EntityFilePath e i) d disk1 = (True, disk')"
    using write_file_ok [OF assms(1) inv1 i(1) st(4), of d]
    by (cases "write_file w (EntityFilePath e i) d disk1") auto
  with choose i st write_file_abs [OF w inv1] show ?thesis
    by (auto simp: Persistent_Create_def Create_store_def)
qed

definition sample_disk :: disk where
  "sample_disk = [(''Shoes'', Directory [(''1'', RegularFile ''one''), (''0'', RegularFile ''zero'')])]"

lemma sample_disk_entries:
  "dir_entries sample_disk e =
     (if e = ''Shoes'' then Some [(''1'', RegularFile ''one''), (''0'', RegularFile ''zero'')] else None)"
  by (simp add: sample_disk_def dir_entries_def)

lemma sample_disk_inv: "disk_inv sample_disk"
  by (auto simp: disk_inv_def sample_disk_entries dir_inv_def ParseId_eq isdigit_def code_def
      dec_value_def regular_def to_string_nonneg dec_nat.simps digit_chars split: if_splits)

lemma sample_disk_room: "disk_room sample_disk ''Shoes''"
  by (simp add: disk_room_def disk_usable_def sample_disk_entries) (simp add: sample_disk_def)

lemma Shoes_valid: "IsValidEntityName ''Shoes''"
  by (simp add: IsValidEntityName_def isalnum_def isdigit_def code_def)

lemma Persistent_list_order:
  assumes "disk_inv disk"
  shows "snd (Persistent_List w e disk) = disk" "sorted (map sint (fst (Persistent_List w e disk)))"
    "distinct (fst (Persistent_List w e disk))"
  using assms
  by (auto simp: Persistent_List_def iterate_ids_def distinct_entry_ids disk_invD split: option.split)

text \<open>
  When nothing fails outside, the store on disk is the map its
  interface promises: \<open>Read\<close> returns what is stored, \<open>Update\<close> stores and reports success,
  \<open>Delete\<close> removes the object and reports whether there was one, and \<open>List\<close> gives the IDs of
  the entity in ascending order, each once.
\<close>

lemma Persistent_map:
  assumes "io_ok w" "disk_inv disk" "IsValidEntityName e" "0 \<le> sint i" "disk_usable disk e"
  shows "Persistent_Read w e i disk = (disk_abs disk e i, disk)"
    and "\<exists>disk'. Persistent_Update w e i d disk = (True, disk') \<and> disk_inv disk'
         \<and> disk_abs disk' = put (disk_abs disk) e i d"
    and "\<exists>disk'. Persistent_Delete w e i disk = (disk_abs disk e i \<noteq> None, disk') \<and> disk_inv disk'
         \<and> disk_abs disk' = drop_object (disk_abs disk) e i"
    and "\<exists>ids. Persistent_List w e disk = (ids, disk) \<and> sorted (map sint ids) \<and> distinct ids
         \<and> set ids = {j. disk_abs disk e j \<noteq> None}"
proof -
  show "Persistent_Read w e i disk = (disk_abs disk e i, disk)"
    using Persistent_reads assms by simp
  show "\<exists>disk'. Persistent_Update w e i d disk = (True, disk') \<and> disk_inv disk'
      \<and> disk_abs disk' = put (disk_abs disk) e i d"
    using Persistent_updates [OF assms(1-5), of d] Update_abs(1,2) [OF _ assms(3,4,2)]
    by (cases "Persistent_Update w e i d disk") auto
  show "\<exists>disk'. Persistent_Delete w e i disk = (disk_abs disk e i \<noteq> None, disk') \<and> disk_inv disk'
      \<and> disk_abs disk' = drop_object (disk_abs disk) e i"
  proof (cases "Persistent_Delete w e i disk")
    case (Pair b disk')
    then have del: "es_Delete (EntityStorePersistent w) e i disk = (b, disk')" by (simp add: store_simps)
    have "b \<longleftrightarrow> disk_abs disk e i \<noteq> None" using Persistent_deletes [OF assms(1-4)] Pair by simp
    moreover have "disk_abs disk' = drop_object (disk_abs disk) e i"
      using persistent.delete_ok [OF assms(2-4), of w disk'] persistent.delete_fail [OF assms(2-4), of w disk']
        del calculation by (cases b) (auto simp: drop_object_def fun_eq_iff)
    ultimately show ?thesis using Pair persistent.delete_inv [OF assms(2-4) del] by simp
  qed
  from Persistent_lists [OF assms(1-3)] Persistent_list_order [OF assms(2)]
  show "\<exists>ids. Persistent_List w e disk = (ids, disk) \<and> sorted (map sint ids) \<and> distinct ids
      \<and> set ids = {j. disk_abs disk e j \<noteq> None}"
    by (metis prod.collapse)
qed

text \<open>
  Whatever the file system does, call by call, an object stays as
  it is through any sequence of operations that does not update or delete it under its own
  entity and ID.
\<close>

lemma Persistent_keeps_objects:
  assumes "disk_inv disk" "disk_abs disk e i = Some d"
    and "list_all (\<lambda>(w, x). op_allowed x \<and> \<not> op_targets x e i) xs"
    and "exec_ops EntityStorePersistent xs disk = Some disk'"
  shows "disk_abs disk' e i = Some d"
  using persistent.exec_ops_keeps assms by blast

definition io_full :: "nat \<Rightarrow> io" where
  "io_full n = io_fine\<lparr>io_write := \<lambda>_ _. Some n\<rparr>"

lemma disk_full_same:
  "EnsureEntityDirectory (w\<lparr>io_write := f\<rparr>) e disk = EnsureEntityDirectory w e disk"
  "iterate_ids (w\<lparr>io_write := f\<rparr>) e disk = iterate_ids w e disk"
  by (simp_all add: EnsureEntityDirectory_def iterate_ids_def split: option.split)

lemma Create_choose_full: "Create_choose (w\<lparr>io_write := f\<rparr>) e disk = Create_choose w e disk"
  by (simp add: Create_choose_def disk_full_same split: prod.split bool.split)

lemma write_file_full:
  assumes "io_ok w" "disk_inv disk" "dir_entries disk e = Some es" "0 \<le> sint i"
  shows "\<exists>disk'. write_file (w\<lparr>io_write := \<lambda>_ _. Some n\<rparr>) (EntityFilePath e i) d disk = (False, disk')
    \<and> disk_abs disk' = put (disk_abs disk) e i (take n d)"
proof -
  have obj: "dir_object es = disk_abs disk e" using assms(3) by (simp add: disk_abs_eq)
  have "map_of es (to_string i) \<noteq> Some OtherFile"
    using assms(4) dir_object_known [OF disk_invD [OF assms(2,3)] assms(4)] by (auto simp: dir_object_def)
  with assms obj show ?thesis
    by (auto simp: write_file_def EntityFilePath_def io_ok_def disk_abs_set put_def dir_object_update)
qed

text \<open>
  C38: what a write that fails half-way leaves. The file is truncated
  before it is written, so a failed \<open>Update\<close> has replaced the old data by a prefix of the new
  data, and a failed \<open>Create\<close>, which returns \<^verbatim>\<open>-1\<close>, has left an object with a prefix of the
  data under the ID it had chosen.
\<close>

theorem Persistent_failed_write:
  assumes "io_ok w" "w' = w\<lparr>io_write := \<lambda>_ _. Some n\<rparr>"
    and "disk_inv disk" "IsValidEntityName e" "disk_room disk e" "0 \<le> sint i"
  shows "(\<exists>disk'. Persistent_Update w' e i d disk = (False, disk')
      \<and> disk_abs disk' = put (disk_abs disk) e i (take n d))
    \<and> (\<exists>j disk'. Persistent_Create w' e d disk = Some (-1, disk') \<and> disk_abs disk e j = None
      \<and> disk_abs disk' = put (disk_abs disk) e j (take n d))"
proof
  from assms(5) have "disk_usable disk e" by (simp add: disk_room_def)
  then obtain disk1 where en: "EnsureEntityDirectory w e disk = (True, disk1)"
    using ensure_ok [OF assms(1)] by (cases "EnsureEntityDirectory w e disk") fastforce
  note st1 = ensure_directory [OF en]
  from write_file_full [OF assms(1) st1(2) [OF assms(3)] st1(4) assms(6)] en assms(4,6) st1(1)
  show "\<exists>disk'. Persistent_Update w' e i d disk = (False, disk')
      \<and> disk_abs disk' = put (disk_abs disk) e i (take n d)"
    by (simp add: Persistent_Update_def disk_full_same assms(2))
  from Create_choose_total [OF assms(1,3,4,5)] obtain j disk2 where
    choose: "Create_choose w e disk = (Chosen j, disk2)" "0 \<le> sint j" by blast
  note st2 = Create_choose_state [OF choose(1)] Create_choose_Chosen [OF choose(1) assms(3)]
  from write_file_full [OF assms(1) st2(2) [OF assms(3)] st2(4) choose(2), of n d] choose st2
  show "\<exists>j disk'. Persistent_Create w' e d disk = Some (-1, disk') \<and> disk_abs disk e j = None
      \<and> disk_abs disk' = put (disk_abs disk) e j (take n d)"
    by (auto simp: Persistent_Create_def Create_store_def Create_choose_full assms(2))
qed

theorem Persistent_failed_write_witness:
  "\<exists>disk'. Persistent_Update (io_full 2) ''Shoes'' 1 ''data'' sample_disk = (False, disk')
     \<and> disk_abs disk' ''Shoes'' 1 = Some ''da''"
proof -
  have full: "io_full 2 = io_fine\<lparr>io_write := \<lambda>_ _. Some 2\<rparr>" by (simp add: io_full_def)
  from Persistent_failed_write [OF io_ok_fine full sample_disk_inv Shoes_valid sample_disk_room,
      of 1 "''data''"]
  show ?thesis by (auto simp: store_simps)
qed

text \<open>
  \<open>Create\<close> takes no lock. When two threads create an object of the
  same entity and both choose an ID before either writes its file, both report success with
  the same ID, and the first one's data is gone.
\<close>

lemma Persistent_Create_race:
  assumes "io_ok w" "disk_inv disk" "IsValidEntityName e" "disk_room disk e"
  shows "\<exists>i disk1 disk2 disk3 disk4. 0 \<le> sint i
    \<and> Create_choose w e disk = (Chosen i, disk1) \<and> Create_choose w e disk1 = (Chosen i, disk2)
    \<and> Create_store w e i d1 disk2 = (i, disk3) \<and> Create_store w e i d2 disk3 = (i, disk4)
    \<and> disk_abs disk4 = put (disk_abs disk) e i d2"
proof -
  from Create_choose_total [OF assms] obtain i disk1 where
    c1: "Create_choose w e disk = (Chosen i, disk1)" "0 \<le> sint i" by blast
  note st1 = Create_choose_state [OF c1(1)] Create_choose_Chosen [OF c1(1) assms(2)]
  have "disk_room disk1 e"
    using assms(4) st1(3,4) by (auto simp: disk_room_def disk_usable_def entries_of_def dir_entries_def
        split: option.splits entry.splits)
  from Create_choose_total [OF assms(1) st1(2) [OF assms(2)] assms(3) this] obtain i' disk2 where
    c2: "Create_choose w e disk1 = (Chosen i', disk2)" by blast
  note st2 = Create_choose_state [OF c2] Create_choose_Chosen [OF c2 st1(2) [OF assms(2)]]
  have "i' = i" using st1(1,5) st2(5) by simp
  have inv2: "disk_inv disk2" using st1(2) st2(2) assms(2) by simp
  obtain disk3 where w1: "write_file w (EntityFilePath e i) d1 disk2 = (True, disk3)"
    using write_file_ok [OF assms(1) inv2 c1(2) st2(4), of d1]
    by (cases "write_file w (EntityFilePath e i) d1 disk2") auto
  note ab3 = write_file_abs [OF w1 inv2]
  obtain es3 where "dir_entries disk3 e = Some es3"
    using w1 by (auto simp: write_file_def EntityFilePath_def store_simps split: option.splits if_splits)
  then obtain disk4 where w2: "write_file w (EntityFilePath e i) d2 disk3 = (True, disk4)"
    using write_file_ok [OF assms(1) ab3(1) c1(2), of e es3 d2]
    by (cases "write_file w (EntityFilePath e i) d2 disk3") auto
  have "disk_abs disk4 = put (disk_abs disk) e i d2"
    using write_file_abs(3) [OF w2 ab3(1) c1(2)] ab3(3) c1(2) st1(1) st2(1)
    by (simp add: put_def)
  with c1 c2 w1 w2 \<open>i' = i\<close> show ?thesis by (auto simp: Create_store_def)
qed

end
