(* ===== verification/Api_Handler.thy ===== *)
theory Api_Handler
  imports Request_Parser Store_In_Memory Store_Persistent
begin

text \<open>
  The CRUD handler, \<^verbatim>\<open>src/request_handler_api.cc\<close>, over an entity store given by its
  operations. JSON validation is Boost's parser (\<^verbatim>\<open>boost::json::parse\<close> without an error), a
  parameter \<open>json\<close> of the handler.

  The handler is a client of the contracts \<open>entity_store\<close> and \<open>reliable_entity_store\<close>: what
  it does to the stored objects is proved once inside these locales, and the properties
  follow for the two stores by their interpretations.
\<close>

subsection \<open>Segments of the target\<close>

text \<open>\<^verbatim>\<open>while (std::getline(ss, segment, '/')) if (!segment.empty()) segments.push_back(segment);\<close>\<close>

function collect_segments :: "string \<Rightarrow> string list" where
  "collect_segments ss =
     (case getline CHR ''/'' ss of
        None \<Rightarrow> []
      | Some (segment, ss') \<Rightarrow>
          (if segment \<noteq> [] then segment # collect_segments ss' else collect_segments ss'))"
  by pat_completeness auto
termination
  by (relation "measure length") (auto dest: getline_shorter)

declare collect_segments.simps [simp del]

definition drop_query :: "string \<Rightarrow> string" where
  "drop_query path = (case str_find ''?'' path of None \<Rightarrow> path | Some query_pos \<Rightarrow> take query_pos path)"

definition drop_url_prefix :: "string \<Rightarrow> string \<Rightarrow> string" where
  "drop_url_prefix url_prefix path =
     (if url_prefix \<noteq> [] \<and> starts_with url_prefix path then
        (let prefix_len = length url_prefix;
             exact_match = (length path = prefix_len);
             boundary = (\<not> exact_match \<and> path ! prefix_len = CHR ''/'')
         in if exact_match \<or> boundary then drop prefix_len path else path)
      else path)"

definition trim_slashes :: "string \<Rightarrow> string" where
  "trim_slashes path =
     rev (dropWhile (\<lambda>c. c = CHR ''/'') (rev (dropWhile (\<lambda>c. c = CHR ''/'') path)))"

definition ExtractSegments :: "string \<Rightarrow> string \<Rightarrow> string list" where
  "ExtractSegments url_prefix raw_url =
     (let path = trim_slashes (drop_url_prefix url_prefix (drop_query raw_url))
      in if path = [] then [] else collect_segments path)"

subsection \<open>The handler\<close>

definition kJsonContentType :: string where
  "kJsonContentType = ''application/json''"

definition id_json :: "cint \<Rightarrow> string" where
  "id_json i = ''{\"id\":'' @ to_string i @ ''}''"

definition HandlePost :: "'s EntityStore \<Rightarrow> (string \<Rightarrow> bool) \<Rightarrow> string \<Rightarrow> string \<Rightarrow> 's \<Rightarrow> (response \<times> 's) outcome" where
  "HandlePost es json entity_name body s =
     (if \<not> json body then Done (BadRequest ''Body is not valid JSON'', s)
      else (case es_Create es entity_name body s of
              None \<Rightarrow> Forever
            | Some (i, s1) \<Rightarrow>
                if sint i < 0 then Done (InternalServerError ''Failed to create entity'', s1)
                else Done (Ok (id_json i) kJsonContentType, s1)))"

fun ids_json :: "cint list \<Rightarrow> string" where
  "ids_json [] = []"
| "ids_json [i] = to_string i"
| "ids_json (i # j # is) = to_string i @ '','' @ ids_json (j # is)"

definition HandleGet :: "'s EntityStore \<Rightarrow> string \<Rightarrow> string list \<Rightarrow> 's \<Rightarrow> response \<times> 's" where
  "HandleGet es entity_name segments s =
     (if length segments = 1 then
        (case es_List es entity_name s of
           (ids, s1) \<Rightarrow> (Ok (''['' @ ids_json (sort_key sint ids) @ '']'') kJsonContentType, s1))
      else
        (case ParseId (segments ! 1) of
           None \<Rightarrow> (BadRequest ''Invalid ID'', s)
         | Some i \<Rightarrow>
             (case es_Read es entity_name i s of
                (None, s1) \<Rightarrow> (NotFound ''Entity not found'', s1)
              | (Some data, s1) \<Rightarrow> (Ok data kJsonContentType, s1))))"

definition HandlePut :: "'s EntityStore \<Rightarrow> (string \<Rightarrow> bool) \<Rightarrow> string \<Rightarrow> cint \<Rightarrow> string \<Rightarrow> 's \<Rightarrow> response \<times> 's" where
  "HandlePut es json entity_name i body s =
     (if \<not> json body then (BadRequest ''Body is not valid JSON'', s)
      else (case es_Update es entity_name i body s of
              (False, s1) \<Rightarrow> (InternalServerError ''Failed to update entity'', s1)
            | (True, s1) \<Rightarrow> (Ok (id_json i) kJsonContentType, s1)))"

definition HandleDelete :: "'s EntityStore \<Rightarrow> string \<Rightarrow> cint \<Rightarrow> 's \<Rightarrow> response \<times> 's" where
  "HandleDelete es entity_name i s =
     (case es_Delete es entity_name i s of
        (False, s1) \<Rightarrow> (NotFound ''Entity not found'', s1)
      | (True, s1) \<Rightarrow> (Ok ''{\"deleted\":true}'' kJsonContentType, s1))"

text \<open>The members of the object: a store, possibly null, and a prefix.\<close>

definition ApiRequestHandler :: "'s EntityStore option \<Rightarrow> string \<Rightarrow> ('s EntityStore option \<times> string) outcome" where
  "ApiRequestHandler store url_prefix =
     (case store of None \<Rightarrow> Exception | Some _ \<Rightarrow> Done (store, url_prefix))"

definition Api_handle_request ::
  "'s EntityStore option \<Rightarrow> string \<Rightarrow> (string \<Rightarrow> bool) \<Rightarrow> request \<Rightarrow> 's \<Rightarrow> (response \<times> 's) outcome" where
  "Api_handle_request store url_prefix json req s =
     (case store of
        None \<Rightarrow> Done (InternalServerError ''Entity store is unavailable'', s)
      | Some es \<Rightarrow>
          (case ExtractSegments url_prefix (url req) of
             [] \<Rightarrow> Done (BadRequest ''Entity type required'', s)
           | entity_name # rest \<Rightarrow>
               if \<not> IsValidEntityName entity_name then Done (BadRequest ''Invalid entity name'', s)
               else if rq_method req = ''POST'' then
                 (if rest \<noteq> [] then Done (BadRequest ''POST target must be /Entity'', s)
                  else HandlePost es json entity_name (rq_body req) s)
               else if rq_method req = ''GET'' then
                 Done (HandleGet es entity_name (entity_name # rest) s)
               else if rq_method req = ''PUT'' then
                 (if length (entity_name # rest) \<noteq> 2
                  then Done (BadRequest ''PUT target must be /Entity/{id}'', s)
                  else (case ParseId ((entity_name # rest) ! 1) of
                          None \<Rightarrow> Done (BadRequest ''Invalid ID'', s)
                        | Some i \<Rightarrow> Done (HandlePut es json entity_name i (rq_body req) s)))
               else if rq_method req = ''DELETE'' then
                 (if length (entity_name # rest) \<noteq> 2
                  then Done (BadRequest ''DELETE target must be /Entity/{id}'', s)
                  else (case ParseId ((entity_name # rest) ! 1) of
                          None \<Rightarrow> Done (BadRequest ''Invalid ID'', s)
                        | Some i \<Rightarrow> Done (HandleDelete es entity_name i s)))
               else Done (MethodNotAllowed ''Unsupported method'', s)))"

subsection \<open>What the segments of a target are\<close>

text \<open>A target built from segments, and the segments a target may be built from.\<close>

definition slash_path :: "string list \<Rightarrow> string" where
  "slash_path segs = concat (map (\<lambda>s. CHR ''/'' # s) segs)"

definition good_segment :: "string \<Rightarrow> bool" where
  "good_segment s \<longleftrightarrow> s \<noteq> [] \<and> CHR ''/'' \<notin> set s \<and> CHR ''?'' \<notin> set s"

lemma slash_path_simps [simp]:
  "slash_path [] = []" "slash_path (s # segs) = CHR ''/'' # s @ slash_path segs"
  by (simp_all add: slash_path_def)

lemma collect_segments_path:
  "list_all good_segment (s # segs) \<Longrightarrow> collect_segments (s @ slash_path segs) = s # segs"
proof (induction segs arbitrary: s)
  case Nil
  then show ?case
    by (simp add: good_segment_def collect_segments.simps [of s]) (simp add: collect_segments.simps)
next
  case (Cons t segs)
  then have "getline CHR ''/'' (s @ slash_path (t # segs)) = Some (s, t @ slash_path segs)"
    by (simp add: good_segment_def)
  with Cons show ?case
    by (subst collect_segments.simps) (simp add: good_segment_def)
qed

lemma collect_segments_good:
  "t \<in> set (collect_segments ss) \<Longrightarrow> CHR ''?'' \<notin> set ss \<Longrightarrow> good_segment t"
proof (induction ss rule: collect_segments.induct)
  case (1 ss)
  show ?case
  proof (cases "getline CHR ''/'' ss")
    case None
    with "1.prems"(1) show ?thesis by (simp add: collect_segments.simps [of ss])
  next
    case (Some p)
    then obtain l r where g: "getline CHR ''/'' ss = Some (l, r)" by (cases p) auto
    from getline_SomeD [OF g] "1.prems"(2) have l: "CHR ''/'' \<notin> set l" "CHR ''?'' \<notin> set l"
      "CHR ''?'' \<notin> set r" by auto
    from "1.prems"(1) g have "t = l \<and> l \<noteq> [] \<or> t \<in> set (collect_segments r)"
      by (auto simp: collect_segments.simps [of ss] split: if_splits)
    with l "1.IH" [OF g refl] show ?thesis by (auto simp: good_segment_def)
  qed
qed

lemma trim_slashes_path:
  assumes "list_all good_segment (s # segs)"
  shows "trim_slashes (slash_path (s # segs) @ replicate k CHR ''/'') = s @ slash_path segs"
proof -
  let ?p = "\<lambda>c. c = CHR ''/''"
  have last: "s \<noteq> [] \<and> last (s @ slash_path segs) \<noteq> CHR ''/''"
    using assms
  proof (induction segs arbitrary: s)
    case Nil
    then have "s \<noteq> []" "CHR ''/'' \<notin> set s" by (auto simp: good_segment_def)
    with last_in_set [of s] show ?case by (metis append.right_neutral slash_path_simps(1))
  next
    case (Cons t segs)
    then have "t \<noteq> []" "last (t @ slash_path segs) \<noteq> CHR ''/''" by auto
    with Cons.prems show ?case by (auto simp: good_segment_def last_append)
  qed
  then obtain c cs where s: "s = c # cs" by (cases s) auto
  with assms have "c \<noteq> CHR ''/''" by (auto simp: good_segment_def)
  with s have "dropWhile ?p (slash_path (s # segs) @ replicate k CHR ''/'')
      = (s @ slash_path segs) @ replicate k CHR ''/''" by simp
  moreover have "dropWhile ?p (replicate k CHR ''/'' @ rev (s @ slash_path segs)) = rev (s @ slash_path segs)"
  proof -
    have "dropWhile ?p (replicate k CHR ''/'' @ zs) = dropWhile ?p zs" for zs
      by (induction k) auto
    moreover have "dropWhile ?p (rev zs) = rev zs" if "zs \<noteq> []" "last zs \<noteq> CHR ''/''" for zs
      using that by (cases zs rule: rev_cases) auto
    moreover have "s @ slash_path segs \<noteq> []" using last by simp
    ultimately show ?thesis using last by (metis (no_types))
  qed
  ultimately show ?thesis by (simp add: trim_slashes_def del: rev_append) simp
qed

lemma drop_query_append:
  assumes "CHR ''?'' \<notin> set a" "q = [] \<or> hd q = CHR ''?''"
  shows "drop_query (a @ q) = a"
proof (cases q)
  case Nil
  with assms str_find_char_None [of "CHR ''?''" a] show ?thesis by (simp add: drop_query_def)
next
  case (Cons c q')
  with assms have "str_find ''?'' (a @ q) = Some (length a)" by (simp add: str_find_char_append)
  then show ?thesis by (simp add: drop_query_def)
qed

lemma slash_path_query: "list_all good_segment segs \<Longrightarrow> CHR ''?'' \<notin> set (slash_path segs)"
  by (induction segs) (auto simp: good_segment_def)

lemma drop_url_prefix_path:
  "drop_url_prefix p (p @ slash_path segs @ replicate k CHR ''/'') = slash_path segs @ replicate k CHR ''/''"
proof (cases "slash_path segs @ replicate k CHR ''/''")
  case Nil
  then show ?thesis by (simp add: drop_url_prefix_def starts_with_def)
next
  case (Cons c cs)
  then have "c = CHR ''/''" by (cases segs; cases k) auto
  with Cons show ?thesis by (simp add: drop_url_prefix_def starts_with_def)
qed

lemma ExtractSegments_path:
  assumes "list_all good_segment segs" "CHR ''?'' \<notin> set p" "q = [] \<or> hd q = CHR ''?''"
  shows "ExtractSegments p (p @ slash_path segs @ replicate k CHR ''/'' @ q) = segs"
proof -
  let ?path = "slash_path segs @ replicate k CHR ''/''"
  have "CHR ''?'' \<notin> set (p @ ?path)" using assms slash_path_query by auto
  then have "drop_query ((p @ ?path) @ q) = p @ ?path" using assms(3) by (rule drop_query_append)
  then have path: "drop_url_prefix p (drop_query (p @ slash_path segs @ replicate k CHR ''/'' @ q)) = ?path"
    by (simp add: drop_url_prefix_path)
  show ?thesis
  proof (cases segs)
    case Nil
    have "trim_slashes (replicate k CHR ''/'') = []"
      by (simp add: trim_slashes_def dropWhile_eq_Nil_conv)
    with Nil path show ?thesis by (simp add: ExtractSegments_def)
  next
    case (Cons s segs')
    with assms(1) trim_slashes_path [of s segs' k] collect_segments_path [of s segs'] path show ?thesis
      by (auto simp: ExtractSegments_def good_segment_def)
  qed
qed

lemma drop_query_clean: "CHR ''?'' \<notin> set (drop_query u)"
  using str_find_char_first [of "CHR ''?''" u]
  by (auto simp: drop_query_def str_find_char_None split: option.split)

lemma ExtractSegments_good:
  assumes "s \<in> set (ExtractSegments p u)"
  shows "good_segment s"
proof -
  have "set (drop_url_prefix p x) \<subseteq> set x" for x
    by (auto simp: drop_url_prefix_def Let_def dest: in_set_dropD)
  moreover have "set (trim_slashes x) \<subseteq> set x" for x
    by (auto simp: trim_slashes_def dest!: set_dropWhileD)
  ultimately have "CHR ''?'' \<notin> set (trim_slashes (drop_url_prefix p (drop_query u)))"
    using drop_query_clean by blast
  with assms collect_segments_good show ?thesis
    by (auto simp: ExtractSegments_def Let_def split: if_splits)
qed

subsection \<open>What the API promises\<close>

text \<open>
  The requests the API accepts, by method and segments, and its answers on the stored
  objects: \<open>api_spec json segs req m resp m'\<close> says that on contents \<open>m\<close> the answer \<open>resp\<close>
  is right and leaves \<open>m'\<close>.
\<close>

definition numeric :: "string \<Rightarrow> bool" where
  "numeric seg \<longleftrightarrow> seg \<noteq> [] \<and> list_all isdigit seg"

definition api_accepts :: "(string \<Rightarrow> bool) \<Rightarrow> string list \<Rightarrow> request \<Rightarrow> bool" where
  "api_accepts json segs req \<longleftrightarrow>
     segs \<noteq> [] \<and> IsValidEntityName (hd segs) \<and>
     (rq_method req = ''POST'' \<and> length segs = 1 \<and> json (rq_body req)
      \<or> rq_method req = ''GET'' \<and> (length segs = 1 \<or> numeric (segs ! 1))
      \<or> rq_method req = ''PUT'' \<and> length segs = 2 \<and> numeric (segs ! 1) \<and> json (rq_body req)
      \<or> rq_method req = ''DELETE'' \<and> length segs = 2 \<and> numeric (segs ! 1))"

definition rejection :: "response \<Rightarrow> bool" where
  "rejection resp \<longleftrightarrow> wf_response resp \<and> status_code resp \<in> {''400 Bad Request'', ''405 Method Not Allowed''}"

lemma rejections [simp]: "rejection (BadRequest msg)" "rejection (MethodNotAllowed msg)"
  by (simp_all add: rejection_def resp_simps)

inductive api_spec ::
  "(string \<Rightarrow> bool) \<Rightarrow> string list \<Rightarrow> request \<Rightarrow> contents \<Rightarrow> response \<Rightarrow> contents \<Rightarrow> bool"
  for json segs req m
where
  spec_reject: "\<not> api_accepts json segs req \<Longrightarrow> rejection resp
     \<Longrightarrow> api_spec json segs req m resp m"
| spec_create: "api_accepts json segs req \<Longrightarrow> rq_method req = ''POST'' \<Longrightarrow> segs = [e]
     \<Longrightarrow> 0 \<le> sint i \<Longrightarrow> m e i = None
     \<Longrightarrow> api_spec json segs req m (Ok (id_json i) kJsonContentType) (put m e i (rq_body req))"
| spec_list: "api_accepts json segs req \<Longrightarrow> rq_method req = ''GET'' \<Longrightarrow> segs = [e]
     \<Longrightarrow> sorted (map sint ids) \<Longrightarrow> distinct ids \<Longrightarrow> set ids = {i. m e i \<noteq> None}
     \<Longrightarrow> api_spec json segs req m (Ok (''['' @ ids_json ids @ '']'') kJsonContentType) m"
| spec_read: "api_accepts json segs req \<Longrightarrow> rq_method req = ''GET'' \<Longrightarrow> segs = e # seg # more_segs
     \<Longrightarrow> ParseId seg = Some i \<Longrightarrow> m e i = Some d
     \<Longrightarrow> api_spec json segs req m (Ok d kJsonContentType) m"
| spec_read_absent: "api_accepts json segs req \<Longrightarrow> rq_method req = ''GET'' \<Longrightarrow> segs = e # seg # more_segs
     \<Longrightarrow> ParseId seg = Some i \<Longrightarrow> m e i = None
     \<Longrightarrow> api_spec json segs req m (NotFound ''Entity not found'') m"
| spec_update: "api_accepts json segs req \<Longrightarrow> rq_method req = ''PUT'' \<Longrightarrow> segs = [e, seg]
     \<Longrightarrow> ParseId seg = Some i
     \<Longrightarrow> api_spec json segs req m (Ok (id_json i) kJsonContentType) (put m e i (rq_body req))"
| spec_delete: "api_accepts json segs req \<Longrightarrow> rq_method req = ''DELETE'' \<Longrightarrow> segs = [e, seg]
     \<Longrightarrow> ParseId seg = Some i \<Longrightarrow> m e i \<noteq> None
     \<Longrightarrow> api_spec json segs req m (Ok ''{\"deleted\":true}'' kJsonContentType) (drop_object m e i)"
| spec_delete_absent: "api_accepts json segs req \<Longrightarrow> rq_method req = ''DELETE'' \<Longrightarrow> segs = [e, seg]
     \<Longrightarrow> ParseId seg = Some i \<Longrightarrow> m e i = None
     \<Longrightarrow> api_spec json segs req m (NotFound ''Entity not found'') m"

text \<open>No ID of the request overflows an \<^verbatim>\<open>int\<close>, so each is nonnegative.\<close>

definition id_fits :: "string \<Rightarrow> bool" where
  "id_fits seg \<longleftrightarrow> (list_all isdigit seg \<longrightarrow> dec_value seg < 2 ^ 31)"

definition ids_fit :: "string list \<Rightarrow> bool" where
  "ids_fit segs \<longleftrightarrow> list_all id_fits (tl segs)"

lemma ids_fit_Cons [simp]: "ids_fit (e # segs) \<longleftrightarrow> list_all id_fits segs"
  by (simp add: ids_fit_def)

lemma ParseId_fit: "id_fits seg \<Longrightarrow> ParseId seg = Some i \<Longrightarrow> 0 \<le> sint i"
  by (auto simp: id_fits_def ParseId_eq sint_of_nat_small split: if_splits)

lemma ParseId_numeric: "ParseId seg = None \<longleftrightarrow> \<not> numeric seg" "(\<exists>i. ParseId seg = Some i) \<longleftrightarrow> numeric seg"
  by (auto simp: ParseId_eq numeric_def)

lemma wf_json [resp_simps]: "wf_response (Ok b kJsonContentType)"
  by (rule wf_builders) (simp_all add: kJsonContentType_def)

text \<open>The handler on each kind of request.\<close>

lemma Api_rejects:
  assumes "\<not> api_accepts json (ExtractSegments p (url req)) req"
  shows "\<exists>resp. Api_handle_request (Some es) p json req s = Done (resp, s) \<and> rejection resp"
proof (cases "ExtractSegments p (url req)")
  case Nil
  then show ?thesis by (simp add: Api_handle_request_def)
next
  case (Cons e rest)
  note segs = this
  show ?thesis
  proof (cases "IsValidEntityName e")
    case False
    with segs show ?thesis by (simp add: Api_handle_request_def)
  next
    case True
    note [simp] = Api_handle_request_def HandlePost_def HandlePut_def HandleGet_def segs True
    consider "rq_method req = ''POST''" | "rq_method req = ''GET''" | "rq_method req = ''PUT''"
      | "rq_method req = ''DELETE''"
      | "rq_method req \<notin> {''POST'', ''GET'', ''PUT'', ''DELETE''}" by blast
    then show ?thesis
    proof cases
      case 1
      with assms show ?thesis by (simp add: api_accepts_def)
    next
      case 2
      with assms have "rest \<noteq> []" "ParseId (rest ! 0) = None"
        by (auto simp: api_accepts_def ParseId_numeric)
      with 2 show ?thesis by simp
    next
      case 3
      with assms have "length rest = 1 \<Longrightarrow> ParseId (rest ! 0) \<noteq> None \<Longrightarrow> \<not> json (rq_body req)"
        by (simp add: api_accepts_def ParseId_numeric)
      with 3 show ?thesis by (cases "ParseId (rest ! 0)") auto
    next
      case 4
      with assms have "length rest = 1 \<Longrightarrow> ParseId (rest ! 0) = None"
        by (simp add: api_accepts_def ParseId_numeric)
      with 4 show ?thesis by (cases "ParseId (rest ! 0)") auto
    next
      case 5
      then show ?thesis by simp
    qed
  qed
qed

lemma Api_accepted:
  assumes "api_accepts json (ExtractSegments p (url req)) req"
  obtains e where "IsValidEntityName e" "rq_method req = ''POST''" "ExtractSegments p (url req) = [e]"
    "json (rq_body req)"
    "\<And>(es :: 's EntityStore) s. Api_handle_request (Some es) p json req s = HandlePost es json e (rq_body req) s"
  | e where "IsValidEntityName e" "rq_method req = ''GET''" "ExtractSegments p (url req) = [e]"
    "\<And>(es :: 's EntityStore) s. Api_handle_request (Some es) p json req s = Done (HandleGet es e [e] s)"
  | e seg rest i where "IsValidEntityName e" "rq_method req = ''GET''"
    "ExtractSegments p (url req) = e # seg # rest" "ParseId seg = Some i"
    "\<And>(es :: 's EntityStore) s. Api_handle_request (Some es) p json req s = Done (HandleGet es e (e # seg # rest) s)"
  | e seg i where "IsValidEntityName e" "rq_method req = ''PUT''"
    "ExtractSegments p (url req) = [e, seg]" "ParseId seg = Some i" "json (rq_body req)"
    "\<And>(es :: 's EntityStore) s. Api_handle_request (Some es) p json req s = Done (HandlePut es json e i (rq_body req) s)"
  | e seg i where "IsValidEntityName e" "rq_method req = ''DELETE''"
    "ExtractSegments p (url req) = [e, seg]" "ParseId seg = Some i"
    "\<And>(es :: 's EntityStore) s. Api_handle_request (Some es) p json req s = Done (HandleDelete es e i s)"
proof (cases "ExtractSegments p (url req)")
  case Nil
  with assms that show ?thesis by (simp add: api_accepts_def)
next
  case (Cons e rest)
  note segs = this
  show ?thesis
  proof (cases rest)
    case Nil
    with segs assms have *: "rq_method req = ''POST'' \<and> json (rq_body req) \<or> rq_method req = ''GET''"
      "IsValidEntityName e"
      by (auto simp: api_accepts_def)
    from *(1) show ?thesis
    proof (elim disjE conjE)
      assume "rq_method req = ''POST''" "json (rq_body req)"
      with segs Nil *(2) show ?thesis by (intro that(1)) (auto simp: Api_handle_request_def)
    next
      assume "rq_method req = ''GET''"
      with segs Nil *(2) show ?thesis by (intro that(2)) (auto simp: Api_handle_request_def)
    qed
  next
    case (Cons seg rest')
    with segs assms have *: "rq_method req = ''GET'' \<or> (rq_method req = ''PUT'' \<and> rest' = [] \<and> json (rq_body req))
      \<or> (rq_method req = ''DELETE'' \<and> rest' = [])" "IsValidEntityName e" "numeric seg"
      by (auto simp: api_accepts_def)
    then obtain i where i: "ParseId seg = Some i" using ParseId_numeric(2) by blast
    from *(1) show ?thesis
    proof (elim disjE conjE)
      assume "rq_method req = ''GET''"
      with segs Cons * i show ?thesis by (intro that(3)) (auto simp: Api_handle_request_def)
    next
      assume "rq_method req = ''PUT''" "rest' = []" "json (rq_body req)"
      with segs Cons * i show ?thesis by (intro that(4)) (auto simp: Api_handle_request_def)
    next
      assume "rq_method req = ''DELETE''" "rest' = []"
      with segs Cons * i show ?thesis by (intro that(5)) (auto simp: Api_handle_request_def)
    qed
  qed
qed

interpretation api_handler: request_handler "Api_handle_request store url_prefix json"
  by unfold_locales
    (auto simp: Api_handle_request_def HandlePost_def HandleGet_def HandlePut_def HandleDelete_def
      resp_simps split: option.splits list.splits if_splits prod.splits bool.splits)

text \<open>The object a request may change on purpose.\<close>

definition api_targets :: "string list \<Rightarrow> request \<Rightarrow> string \<Rightarrow> cint \<Rightarrow> bool" where
  "api_targets segs req e i \<longleftrightarrow> rq_method req \<in> {''PUT'', ''DELETE''} \<and>
     (\<exists>seg. segs = [e, seg] \<and> ParseId seg = Some i)"

text \<open>
  On any store that satisfies the contract, whatever fails outside: the answer is well formed,
  the invariant is kept, an object the request does not name stays as it is, and after an
  answer \<^verbatim>\<open>4xx\<close> all objects do.
\<close>

context entity_store
begin

lemma HandlePost_keeps:
  assumes "inv s" "IsValidEntityName e" "HandlePost (ops w) json e body s = Done (resp, s')"
  shows "wf_response resp \<and> inv s' \<and> (abs s e' j = Some d \<longrightarrow> abs s' e' j = Some d)
    \<and> (status_code resp \<in> {''400 Bad Request'', ''404 Not Found'', ''405 Method Not Allowed''} \<longrightarrow> abs s' = abs s)"
  using assms create_inv [OF assms(1,2)] create_keeps [OF assms(1,2)]
  by (auto simp: HandlePost_def resp_simps split: if_splits option.splits)

lemma HandleGet_keeps:
  assumes "inv s" "IsValidEntityName e" "HandleGet (ops w) e segs s = (resp, s')"
    and "length segs \<noteq> 1 \<Longrightarrow> id_fits (segs ! 1)"
  shows "wf_response resp \<and> inv s' \<and> abs s' = abs s"
  using assms list_state [OF assms(1,2)] read_state [OF assms(1,2)] ParseId_fit [of "segs ! 1"]
  by (auto simp: HandleGet_def resp_simps split: if_splits option.splits prod.splits)

lemma HandlePut_keeps:
  assumes "inv s" "IsValidEntityName e" "0 \<le> sint i" "HandlePut (ops w) json e i body s = (resp, s')"
  shows "wf_response resp \<and> inv s' \<and> ((e', j) \<noteq> (e, i) \<longrightarrow> abs s' e' j = abs s e' j)
    \<and> (status_code resp \<in> {''400 Bad Request'', ''404 Not Found'', ''405 Method Not Allowed''} \<longrightarrow> abs s' = abs s)"
  using assms update_inv [OF assms(1-3)] update_frame [OF assms(1-3)]
  by (auto simp: HandlePut_def resp_simps split: if_splits prod.splits bool.splits)

lemma HandleDelete_keeps:
  assumes "inv s" "IsValidEntityName e" "0 \<le> sint i" "HandleDelete (ops w) e i s = (resp, s')"
  shows "wf_response resp \<and> inv s' \<and> ((e', j) \<noteq> (e, i) \<longrightarrow> abs s' e' j = abs s e' j)
    \<and> (status_code resp \<in> {''400 Bad Request'', ''404 Not Found'', ''405 Method Not Allowed''} \<longrightarrow> abs s' = abs s)"
  using assms delete_inv [OF assms(1-3)] delete_frame [OF assms(1-3)] delete_fail [OF assms(1-3)]
  by (auto simp: HandleDelete_def resp_simps split: prod.splits bool.splits)

lemma api_keeps:
  assumes "inv s" "ids_fit (ExtractSegments p (url req))"
    and "Api_handle_request (Some (ops w)) p json req s = Done (resp, s')"
  shows "wf_response resp \<and> inv s'
    \<and> (\<not> api_targets (ExtractSegments p (url req)) req e j \<and> abs s e j = Some d \<longrightarrow> abs s' e j = Some d)
    \<and> (status_code resp \<in> {''400 Bad Request'', ''404 Not Found'', ''405 Method Not Allowed''} \<longrightarrow> abs s' = abs s)"
proof (cases "api_accepts json (ExtractSegments p (url req)) req")
  case False
  from Api_rejects [OF this, of "ops w" s] assms show ?thesis
    by (auto simp: rejection_def)
next
  case True
  then show ?thesis
  proof (cases rule: Api_accepted [where 's = 's])
    case (1 e')
    from 1(5) assms(3) HandlePost_keeps [OF assms(1) 1(1)] show ?thesis by auto
  next
    case (2 e')
    from 2(4) assms(3) HandleGet_keeps [OF assms(1) 2(1), of w "[e']"] show ?thesis by auto
  next
    case (3 e' seg rest i)
    from 3(3,5) assms(2,3) HandleGet_keeps [OF assms(1) 3(1), of w "e' # seg # rest"] show ?thesis by auto
  next
    case (4 e' seg i)
    from 4(3,4) assms(2) have "0 \<le> sint i" using ParseId_fit by auto
    from HandlePut_keeps [OF assms(1) 4(1) this] 4 assms(3) show ?thesis
      by (auto simp: api_targets_def)
  next
    case (5 e' seg i)
    from 5(3,4) assms(2) have "0 \<le> sint i" using ParseId_fit by auto
    from HandleDelete_keeps [OF assms(1) 5(1) this] 5 assms(3) show ?thesis
      by (auto simp: api_targets_def)
  qed
qed

end

text \<open>
  On a store that succeeds when it can, the handler is the API: it answers every request, as
  \<open>api_spec\<close> says.
\<close>

context reliable_entity_store
begin

lemma api_refines:
  assumes "ok w" "inv s" "ids_fit (ExtractSegments p (url req))" "\<And>e. room s e \<and> usable s e"
  shows "\<exists>resp s'. Api_handle_request (Some (ops w)) p json req s = Done (resp, s') \<and> inv s'
    \<and> api_spec json (ExtractSegments p (url req)) req (abs s) resp (abs s')"
proof (cases "api_accepts json (ExtractSegments p (url req)) req")
  case False
  with Api_rejects [OF this, of "ops w" s] assms(2) show ?thesis by (auto intro: spec_reject)
next
  case True
  then show ?thesis
  proof (cases rule: Api_accepted [where 's = 's])
    case (1 e)
    obtain i s' where c: "es_Create (ops w) e (rq_body req) s = Some (i, s')" "0 \<le> sint i"
      using create_total [OF assms(1,2) 1(1)] assms(4) by blast
    with create_inv [OF assms(2) 1(1) c(1)] create_ok [OF assms(2) 1(1) c] 1 True show ?thesis
      by (auto simp: HandlePost_def intro: spec_create)
  next
    case (2 e)
    obtain ids s' where l: "es_List (ops w) e s = (ids, s')" by (cases "es_List (ops w) e s")
    from list_total [OF assms(1,2) 2(1)] l have "set ids = {i. abs s e i \<noteq> None}" by (metis fst_conv)
    with list_ok [OF assms(2) 2(1) l] True 2(2,3)
    have "api_spec json [e] req (abs s) (Ok (''['' @ ids_json (sort_key sint ids) @ '']'') kJsonContentType) (abs s)"
      by (intro spec_list [of json "[e]" req e]) auto
    with list_state [OF assms(2) 2(1) l] l 2 show ?thesis by (auto simp: HandleGet_def)
  next
    case (3 e seg rest i)
    then have i: "0 \<le> sint i" using assms(3) ParseId_fit by auto
    obtain r s' where r: "es_Read (ops w) e i s = (r, s')" by (cases "es_Read (ops w) e i s")
    from read_total [OF assms(1,2) 3(1) i] r have "r = abs s e i" by simp
    with read_state [OF assms(2) 3(1) i r] r 3 True show ?thesis
      by (cases "abs s e i") (auto simp: HandleGet_def intro: spec_read spec_read_absent)
  next
    case (4 e seg i)
    then have i: "0 \<le> sint i" using assms(3) ParseId_fit by auto
    obtain s' where u: "es_Update (ops w) e i (rq_body req) s = (True, s')"
      using update_total [OF assms(1,2) 4(1) _ i, of "rq_body req"] assms(4)
      by (cases "es_Update (ops w) e i (rq_body req) s") auto
    with update_inv [OF assms(2) 4(1) i u] update_ok [OF assms(2) 4(1) i u] 4 True show ?thesis
      by (auto simp: HandlePut_def intro: spec_update)
  next
    case (5 e seg i)
    then have i: "0 \<le> sint i" using assms(3) ParseId_fit by auto
    obtain b s' where d: "es_Delete (ops w) e i s = (b, s')" by (cases "es_Delete (ops w) e i s")
    from delete_total [OF assms(1,2) 5(1) i] d have b: "b \<longleftrightarrow> abs s e i \<noteq> None" by simp
    show ?thesis
    proof (cases b)
      case True
      with d have d': "es_Delete (ops w) e i s = (True, s')" by simp
      from delete_inv [OF assms(2) 5(1) i d'] delete_ok [OF assms(2) 5(1) i d'] d' 5
        \<open>api_accepts json (ExtractSegments p (url req)) req\<close>
      show ?thesis by (auto simp: HandleDelete_def intro!: spec_delete)
    next
      case False
      with d have d': "es_Delete (ops w) e i s = (False, s')" by simp
      from delete_inv [OF assms(2) 5(1) i d'] delete_fail [OF assms(2) 5(1) i d'] d' 5 b False
        \<open>api_accepts json (ExtractSegments p (url req)) req\<close>
      show ?thesis by (auto simp: HandleDelete_def intro!: spec_delete_absent)
    qed
  qed
qed

end

context reliable_entity_store
begin

text \<open>An object can be fetched by the URL that its creation or its update names.\<close>

lemma post_get:
  assumes "ok w" "inv s" "room s e" "IsValidEntityName e" "json (rq_body r1)"
    and "rq_method r1 = ''POST''" "ExtractSegments p (url r1) = [e]"
  shows "\<exists>i s'. 0 \<le> sint i \<and> abs s e i = None
    \<and> Api_handle_request (Some (ops w)) p json r1 s = Done (Ok (id_json i) kJsonContentType, s')
    \<and> (\<forall>w2 r2 json2. ok w2 \<and> rq_method r2 = ''GET'' \<and> ExtractSegments p (url r2) = [e, to_string i] \<longrightarrow>
        (\<exists>s''. Api_handle_request (Some (ops w2)) p json2 r2 s' = Done (Ok (rq_body r1) kJsonContentType, s'')))"
proof -
  obtain i s' where c: "es_Create (ops w) e (rq_body r1) s = Some (i, s')" "0 \<le> sint i"
    using create_total [OF assms(1,2,4,3)] by blast
  note st = create_inv [OF assms(2,4) c(1)] create_ok [OF assms(2,4) c]
  have "\<exists>s''. Api_handle_request (Some (ops w2)) p json2 r2 s' = Done (Ok (rq_body r1) kJsonContentType, s'')"
    if "ok w2" "rq_method r2 = ''GET''" "ExtractSegments p (url r2) = [e, to_string i]" for w2 r2 json2
  proof -
    obtain d s'' where r: "es_Read (ops w2) e i s' = (d, s'')" by (cases "es_Read (ops w2) e i s'")
    from read_total [OF that(1) st(1) assms(4) c(2)] r st(2) have "d = Some (rq_body r1)"
      by (simp add: store_simps)
    with r that assms(4) show ?thesis
      by (simp add: Api_handle_request_def HandleGet_def ParseId_to_string c(2))
  qed
  with c st assms(4-7) show ?thesis by (auto simp: Api_handle_request_def HandlePost_def)
qed

end

lemma good_name: "IsValidEntityName e \<Longrightarrow> good_segment e"
  by (auto simp: IsValidEntityName_def good_segment_def isalnum_def isdigit_def code_def list_all_iff)

lemma good_id: "0 \<le> sint i \<Longrightarrow> good_segment (to_string i)"
  by (auto simp: to_string_nonneg good_segment_def isdigit_def code_def dest!: dec_nat_digits)

subsection \<open>Properties of the API handler\<close>

text \<open>
  C5: the handler on the persistent store implements the API. When
  nothing fails outside, every request whose ID fits into an \<^verbatim>\<open>int\<close> is answered, and the
  answer and the stored objects afterwards are the ones \<open>api_spec\<close> gives: exactly the
  well-formed requests are accepted, a \<^verbatim>\<open>POST\<close> stores the body under an unused ID and
  returns it, a \<^verbatim>\<open>GET\<close> lists the IDs in order or returns the stored bytes, \<^verbatim>\<open>PUT\<close> and \<^verbatim>\<open>DELETE\<close>
  change the named object only, and every refused request changes nothing.
\<close>

theorem Api_persistent_refines:
  assumes "io_ok w" "disk_inv disk" "ids_fit (ExtractSegments p (url req))" "\<forall>e. disk_room disk e"
  shows "\<exists>resp disk'. Api_handle_request (Some (EntityStorePersistent w)) p json req disk = Done (resp, disk')
    \<and> disk_inv disk' \<and> api_spec json (ExtractSegments p (url req)) req (disk_abs disk) resp (disk_abs disk')"
  using persistent.api_refines [OF assms(1-3)] assms(4) by (simp add: disk_room_def)

lemma sample_disk_all_room: "\<forall>e. disk_room sample_disk e"
  by (simp add: disk_room_def disk_usable_def sample_disk_entries) (simp add: sample_disk_def)

definition sample_get :: request where
  "sample_get = \<lparr>is_valid = True, raw_request = [], rq_method = ''GET'', url = ''/api/Shoes/1'',
     rq_http_version = ''1.1'', rq_headers = [], rq_body = []\<rparr>"

lemma Shoes_good [simp]: "good_segment ''Shoes''" "good_segment ''1''"
  by (simp_all add: good_segment_def)

lemma sample_get_segments: "ExtractSegments ''/api'' (url sample_get) = [''Shoes'', ''1'']"
  using ExtractSegments_path [of "[''Shoes'', ''1'']" "''/api''" "[]" 0] by (simp add: sample_get_def)

lemma ParseId_1: "ParseId ''1'' = Some 1"
  by (simp add: ParseId_def isdigit_def code_def)

inductive_cases api_spec_getE: "api_spec json [e, seg] req m resp m'"

theorem Api_persistent_refines_witness:
  "\<exists>disk'. Api_handle_request (Some (EntityStorePersistent io_fine)) ''/api'' (\<lambda>_. True) sample_get sample_disk
     = Done (Ok ''one'' kJsonContentType, disk')"
proof -
  have fit: "ids_fit (ExtractSegments ''/api'' (url sample_get))"
    by (simp add: sample_get_segments id_fits_def dec_value_def code_def)
  have one: "disk_abs sample_disk ''Shoes'' 1 = Some ''one''"
    by (simp add: disk_abs_def sample_disk_entries to_string_nonneg dec_nat.simps digit_chars)
  have acc: "api_accepts (\<lambda>_. True) [''Shoes'', ''1''] sample_get"
    using Shoes_valid by (simp add: api_accepts_def sample_get_def numeric_def isdigit_def code_def)
  from Api_persistent_refines [OF io_ok_fine sample_disk_inv fit sample_disk_all_room, of "\<lambda>_. True"]
  obtain resp disk' where
    r: "Api_handle_request (Some (EntityStorePersistent io_fine)) ''/api'' (\<lambda>_. True) sample_get sample_disk
      = Done (resp, disk')"
    and spec: "api_spec (\<lambda>_. True) [''Shoes'', ''1''] sample_get (disk_abs sample_disk) resp (disk_abs disk')"
    by (auto simp: sample_get_segments)
  from spec have "resp = Ok ''one'' kJsonContentType"
    by (rule api_spec_getE) (use acc one ParseId_1 in \<open>auto simp: sample_get_def\<close>)
  with r show ?thesis by simp
qed

text \<open>
  C39: the handler on the in-memory store implements the same API, as long
  as the store's counter has not come near the largest \<^verbatim>\<open>int\<close>.
\<close>

theorem Api_in_memory_refines:
  assumes "mem_inv s" "ids_fit (ExtractSegments p (url req))" "\<forall>e. mem_room s e"
  shows "\<exists>resp s'. Api_handle_request (Some (EntityStoreInMemory ())) p json req s = Done (resp, s')
    \<and> mem_inv s' \<and> api_spec json (ExtractSegments p (url req)) req (mem_abs s) resp (mem_abs s')"
  using in_memory.api_refines [OF _ assms(1,2), of "()"] assms(3) by simp

theorem Api_in_memory_refines_witness:
  "\<exists>resp s'. Api_handle_request (Some (EntityStoreInMemory ())) ''/api'' (\<lambda>_. True) sample_get sample_store
     = Done (resp, s')"
proof -
  have fit: "ids_fit (ExtractSegments ''/api'' (url sample_get))"
    by (simp add: sample_get_segments id_fits_def dec_value_def code_def)
  have room: "\<forall>e. mem_room sample_store e"
    by (simp add: mem_room_def sample_store_def objects_of_def)
  from Api_in_memory_refines [OF sample_store_inv fit room, of "\<lambda>_. True"] show ?thesis by blast
qed

text \<open>
  C24: whatever the file system does during the request, an answer of the
  handler is well formed, an object the request does not name is left as it is, and after an
  answer \<^verbatim>\<open>400\<close>, \<^verbatim>\<open>404\<close> or \<^verbatim>\<open>405\<close> every object is as it was before.
\<close>

theorem Api_persistent_safe:
  assumes "disk_inv disk" "ids_fit (ExtractSegments p (url req))"
    and "Api_handle_request (Some (EntityStorePersistent w)) p json req disk = Done (resp, disk')"
  shows "wf_response resp \<and> disk_inv disk'
    \<and> (\<not> api_targets (ExtractSegments p (url req)) req e i \<and> disk_abs disk e i = Some d
        \<longrightarrow> disk_abs disk' e i = Some d)
    \<and> (status_code resp \<in> {''400 Bad Request'', ''404 Not Found'', ''405 Method Not Allowed''}
        \<longrightarrow> disk_abs disk' = disk_abs disk)"
  using persistent.api_keeps [OF assms] .

definition sample_put :: request where
  "sample_put = sample_get\<lparr>rq_method := ''PUT'', rq_body := ''data''\<rparr>"

theorem Api_persistent_safe_witness:
  "\<exists>resp disk'. Api_handle_request (Some (EntityStorePersistent (io_full 2))) ''/api'' (\<lambda>_. True) sample_put sample_disk
     = Done (resp, disk') \<and> disk_abs disk' ''Shoes'' 0 = Some ''zero''"
proof -
  have segs: "ExtractSegments ''/api'' (url sample_put) = [''Shoes'', ''1'']"
    using sample_get_segments by (simp add: sample_put_def)
  then have fit: "ids_fit (ExtractSegments ''/api'' (url sample_put))"
    by (simp add: id_fits_def dec_value_def code_def)
  have "Api_handle_request (Some (EntityStorePersistent (io_full 2))) ''/api'' (\<lambda>_. True) sample_put sample_disk
      = Done (HandlePut (EntityStorePersistent (io_full 2)) (\<lambda>_. True) ''Shoes'' 1 ''data'' sample_disk)"
    using segs Shoes_valid by (simp add: Api_handle_request_def ParseId_1) (simp add: sample_put_def)
  then obtain resp disk' where
    r: "Api_handle_request (Some (EntityStorePersistent (io_full 2))) ''/api'' (\<lambda>_. True) sample_put sample_disk
      = Done (resp, disk')"
    by (metis prod.collapse)
  have zero: "disk_abs sample_disk ''Shoes'' 0 = Some ''zero''"
    by (simp add: disk_abs_def sample_disk_entries to_string_nonneg dec_nat.simps digit_chars)
  have "\<not> api_targets (ExtractSegments ''/api'' (url sample_put)) sample_put ''Shoes'' 0"
    by (simp add: segs api_targets_def ParseId_1)
  with Api_persistent_safe [OF sample_disk_inv fit r, of "''Shoes''" 0 "''zero''"] zero r show ?thesis by blast
qed

text \<open>
  What a client stores it can fetch. On the persistent store, a \<^verbatim>\<open>POST\<close> of
  a valid JSON body to \<^verbatim>\<open>prefix/Entity\<close> answers with an unused ID, and a \<^verbatim>\<open>GET\<close> of
  \<^verbatim>\<open>prefix/Entity/ID\<close> that follows returns exactly the bytes of that body; the entity's name
  and the ID survive the way through the URL, with or without trailing slashes and a query.
\<close>

lemma Api_post_then_get:
  assumes "io_ok w1" "disk_inv disk" "disk_room disk e" "IsValidEntityName e" "json (rq_body r1)"
    and "CHR ''?'' \<notin> set p" "rq_method r1 = ''POST''" "url r1 = p @ ''/'' @ e"
    and "io_ok w2" "rq_method r2 = ''GET''" "q = [] \<or> hd q = CHR ''?''"
  shows "\<exists>i disk'. 0 \<le> sint i \<and> disk_abs disk e i = None
    \<and> Api_handle_request (Some (EntityStorePersistent w1)) p json r1 disk = Done (Ok (id_json i) kJsonContentType, disk')
    \<and> (url r2 = p @ ''/'' @ e @ ''/'' @ to_string i @ replicate k CHR ''/'' @ q \<longrightarrow>
       (\<exists>disk''. Api_handle_request (Some (EntityStorePersistent w2)) p json r2 disk'
          = Done (Ok (rq_body r1) kJsonContentType, disk'')))"
proof -
  have "ExtractSegments p (url r1) = [e]"
    using ExtractSegments_path [of "[e]" p "[]" 0] assms good_name by simp
  note created = persistent.post_get [where json = json and ?r1.0 = r1, OF assms(1-5) assms(7) this]
  from created obtain i disk' where
    i: "0 \<le> sint i" "disk_abs disk e i = None"
    "Api_handle_request (Some (EntityStorePersistent w1)) p json r1 disk = Done (Ok (id_json i) kJsonContentType, disk')"
    and fetch: "\<forall>w2 r2 json2. io_ok w2 \<and> rq_method r2 = ''GET'' \<and> ExtractSegments p (url r2) = [e, to_string i] \<longrightarrow>
        (\<exists>s''. Api_handle_request (Some (EntityStorePersistent w2)) p json2 r2 disk'
           = Done (Ok (rq_body r1) kJsonContentType, s''))" by blast
  have "ExtractSegments p (p @ ''/'' @ e @ ''/'' @ to_string i @ replicate k CHR ''/'' @ q) = [e, to_string i]"
    using ExtractSegments_path [of "[e, to_string i]" p q k] assms(4,6,11) good_name good_id [OF i(1)] by simp
  with i fetch assms(9,10) show ?thesis by metis
qed



end
