(* ===== verification/File_Handler.thy ===== *)
theory File_Handler
  imports Http
begin

text \<open>
  The static file handler, \<^verbatim>\<open>src/request_handler_file.cc\<close>. Boost.Filesystem is a parameter:
  the record \<open>filesystem\<close> holds the functions the handler calls on paths, on a file system
  that does not change during the request. A call that throws \<^verbatim>\<open>filesystem_error\<close> is
  \<open>None\<close>. \<open>fs_contents\<close> is what \<^verbatim>\<open>std::ifstream\<close> reads from a path, \<open>None\<close> when the stream
  does not open.

  The lemmas show which files the handler serves, on which condition, and what it does when
  the file system fails.
\<close>

record filesystem =
  fs_join :: "string \<Rightarrow> string \<Rightarrow> string"
  fs_exists :: "string \<Rightarrow> bool option"
  fs_canonical :: "string \<Rightarrow> string option"
  fs_is_directory :: "string \<Rightarrow> bool option"
  fs_extension :: "string \<Rightarrow> string"
  fs_contents :: "string \<Rightarrow> string option"

definition read_file :: "filesystem \<Rightarrow> string \<Rightarrow> string" where
  "read_file fs filepath = (case fs_contents fs filepath of None \<Rightarrow> [] | Some content \<Rightarrow> content)"

definition get_content_type :: "filesystem \<Rightarrow> string \<Rightarrow> string" where
  "get_content_type fs filepath =
     (let ext = fs_extension fs filepath in
      if ext = ''.html'' \<or> ext = ''.htm'' then ''text/html''
      else if ext = ''.css'' then ''text/css''
      else if ext = ''.js'' then ''application/javascript''
      else if ext = ''.json'' then ''application/json''
      else if ext = ''.png'' then ''image/png''
      else if ext = ''.jpg'' \<or> ext = ''.jpeg'' then ''image/jpeg''
      else if ext = ''.gif'' then ''image/gif''
      else if ext = ''.svg'' then ''image/svg+xml''
      else if ext = ''.ico'' then ''image/x-icon''
      else if ext = ''.txt'' then ''text/plain''
      else if ext = ''.pdf'' then ''application/pdf''
      else if ext = ''.zip'' then ''application/zip''
      else ''application/octet-stream'')"

text \<open>The path relative to the base directory: lines 15 to 33.\<close>

definition relative_path :: "string \<Rightarrow> string \<Rightarrow> string" where
  "relative_path url_prefix target =
     (let url_path1 =
            (if url_prefix \<noteq> [] \<and> str_find url_prefix target = Some 0
             then (let rest = drop (length url_prefix) target in if rest = [] then ''/'' else rest)
             else target);
          url_path2 = (if url_path1 \<noteq> [] \<and> hd url_path1 = CHR ''/'' then tl url_path1 else url_path1)
      in if url_path2 = [] then ''.'' else url_path2)"

text \<open>
  The \<^verbatim>\<open>try\<close> block: \<open>None\<close> is a \<^verbatim>\<open>filesystem_error\<close>, which its \<^verbatim>\<open>catch\<close> turns into \<^verbatim>\<open>404\<close>.
\<close>

definition serve_path :: "filesystem \<Rightarrow> string \<Rightarrow> response" where
  "serve_path fs p = Ok (read_file fs p) (get_content_type fs p)"

definition File_try :: "filesystem \<Rightarrow> string \<Rightarrow> string \<Rightarrow> response option" where
  "File_try fs base_dir requested_path =
     (case fs_canonical fs requested_path of
        None \<Rightarrow> None
      | Some requested_str \<Rightarrow>
         (case fs_canonical fs base_dir of
            None \<Rightarrow> None
          | Some base_str \<Rightarrow>
              if str_find base_str requested_str \<noteq> Some 0 then Some (Forbidden Forbidden_default)
              else (case fs_exists fs requested_str of
                 None \<Rightarrow> None
               | Some False \<Rightarrow> Some (NotFound NotFound_default)
               | Some True \<Rightarrow>
                  (case fs_is_directory fs requested_str of
                     None \<Rightarrow> None
                   | Some True \<Rightarrow>
                      (let index = fs_join fs requested_str ''index.html''
                       in case fs_exists fs index of
                            None \<Rightarrow> None
                          | Some False \<Rightarrow> Some (NotFound NotFound_default)
                          | Some True \<Rightarrow> Some (serve_path fs index))
                   | Some False \<Rightarrow> Some (serve_path fs requested_str)))))"

definition File_handle_request ::
  "filesystem \<Rightarrow> string \<Rightarrow> string \<Rightarrow> request \<Rightarrow> 's \<Rightarrow> (response \<times> 's) outcome" where
  "File_handle_request fs base_dir url_prefix req s =
     (let requested_path = fs_join fs base_dir (relative_path url_prefix (url req))
      in case fs_exists fs requested_path of
           None \<Rightarrow> Exception
         | Some False \<Rightarrow> Done (NotFound NotFound_default, s)
         | Some True \<Rightarrow>
            (case File_try fs base_dir requested_path of
               None \<Rightarrow> Done (NotFound NotFound_default, s)
             | Some resp \<Rightarrow> Done (resp, s)))"

subsection \<open>Lemmas\<close>

lemma content_type_clean: "CR \<notin> set (get_content_type fs p)" "LF \<notin> set (get_content_type fs p)"
  by (simp_all add: get_content_type_def Let_def)

lemma wf_serve_path [resp_simps]: "wf_response (serve_path fs p)"
  by (simp add: serve_path_def wf_builders content_type_clean)

lemma serve_path_status [resp_simps]: "status_code (serve_path fs p) = ''200 OK''"
  by (simp add: serve_path_def resp_simps)

lemma File_try_cases:
  assumes "File_try fs base p = Some resp"
  obtains "resp = Forbidden Forbidden_default" | "resp = NotFound NotFound_default"
  | c b where "fs_canonical fs p = Some c" "fs_canonical fs base = Some b" "str_find b c = Some 0"
      "fs_is_directory fs c = Some False" "resp = serve_path fs c"
  | c b where "fs_canonical fs p = Some c" "fs_canonical fs base = Some b" "str_find b c = Some 0"
      "fs_is_directory fs c = Some True" "resp = serve_path fs (fs_join fs c ''index.html'')"
  using assms unfolding File_try_def Let_def
  by (auto split: option.splits bool.splits if_splits)

interpretation file_handler: request_handler "File_handle_request fs base_dir url_prefix"
  by unfold_locales
    (auto simp: File_handle_request_def Let_def resp_simps split: option.splits bool.splits
      elim!: File_try_cases)

lemma relative_path_prefix:
  "relative_path p (p @ ''/'' @ r) = (if r = [] then ''.'' else r)"
proof -
  have "str_find p (p @ ''/'' @ r) = Some 0" by (simp add: str_find_0 starts_with_def)
  then show ?thesis by (simp add: relative_path_def)
qed

lemma File_serves_file:
  assumes "fs_exists fs (fs_join fs base (relative_path p (url req))) = Some True"
    and "fs_canonical fs (fs_join fs base (relative_path p (url req))) = Some c"
    and "fs_canonical fs base = Some b" "prefix b c"
    and "fs_exists fs c = Some True" "fs_is_directory fs c = Some False"
  shows "File_handle_request fs base p req s = Done (serve_path fs c, s)"
proof -
  have "str_find b c = Some 0" using assms(4) by (simp add: str_find_0 starts_with_prefix)
  with assms show ?thesis by (simp add: File_handle_request_def File_try_def Let_def)
qed

subsection \<open>A sample file system\<close>

text \<open>
  A base directory \<^verbatim>\<open>/srv/assets\<close> with a page, and a directory \<^verbatim>\<open>/srv/assets-old\<close> beside it.
  Looking at the path \<^verbatim>\<open>/srv/assets/locked\<close> fails.
\<close>

definition sample_fs :: filesystem where
  "sample_fs =
     \<lparr>fs_join = \<lambda>a b. a @ ''/'' @ b,
      fs_exists = \<lambda>q. if q = ''/srv/assets/locked'' then None
        else Some (q \<in> {''/srv/assets/a.html'', ''/srv/assets/../assets-old/key'', ''/srv/assets-old/key''}),
      fs_canonical = \<lambda>q. if q = ''/srv/assets/../assets-old/key'' then Some ''/srv/assets-old/key'' else Some q,
      fs_is_directory = \<lambda>q. Some (q = ''/srv/assets''),
      fs_extension = \<lambda>q. if q = ''/srv/assets/a.html'' then ''.html'' else [],
      fs_contents = \<lambda>q. if q = ''/srv/assets/a.html'' then Some ''<p>''
        else if q = ''/srv/assets-old/key'' then Some ''k'' else None\<rparr>"

definition file_request :: "string \<Rightarrow> request" where
  "file_request u = \<lparr>is_valid = True, raw_request = [], rq_method = ''GET'', url = u,
     rq_http_version = ''1.1'', rq_headers = [], rq_body = []\<rparr>"

lemma sample_relative:
  "relative_path ''/static'' (url (file_request (''/static/'' @ r))) = (if r = [] then ''.'' else r)"
  using relative_path_prefix [of "''/static''" r] by (simp add: file_request_def)

subsection \<open>Properties of the file handler\<close>

text \<open>
  C32: a file below the base directory is served. If the target is the prefix of
  the location followed by a path, and this path below the base directory is a regular file
  that can be read, whose canonical name starts with the canonical base directory, then the
  answer is \<^verbatim>\<open>200 OK\<close> with exactly the bytes of the file and the type of its extension.
\<close>

theorem File_serves:
  assumes "url req = p @ ''/'' @ r" "r \<noteq> []"
    and "fs_exists fs (fs_join fs base r) = Some True" "fs_canonical fs (fs_join fs base r) = Some c"
    and "fs_canonical fs base = Some b" "prefix b c"
    and "fs_exists fs c = Some True" "fs_is_directory fs c = Some False" "fs_contents fs c = Some d"
  shows "File_handle_request fs base p req s = Done (Ok d (get_content_type fs c), s)"
proof -
  have "relative_path p (url req) = r" using relative_path_prefix [of p r] assms(1,2) by simp
  with File_serves_file [of fs base p req c b s] assms show ?thesis
    by (simp add: serve_path_def read_file_def)
qed

theorem File_serves_witness:
  "File_handle_request sample_fs ''/srv/assets'' ''/static'' (file_request ''/static/a.html'') ()
   = Done (Ok ''<p>'' ''text/html'', ())"
  using File_serves [of "file_request ''/static/a.html''" "''/static''" "''a.html''" sample_fs "''/srv/assets''"
      "''/srv/assets/a.html''" "''/srv/assets''" "''<p>''" "()"]
  by (simp add: file_request_def sample_fs_def get_content_type_def)

text \<open>
  C33: what is served passed the check. Every answer \<^verbatim>\<open>200 OK\<close> carries the contents
  of a file whose canonical name starts with the characters of the canonical base
  directory, or of the \<^verbatim>\<open>index.html\<close> of such a directory, with the type of its extension;
  a file that cannot be opened is served as an empty one. The state is not touched.
\<close>

theorem File_confined:
  assumes "File_handle_request fs base p req s = Done (resp, s')" "status_code resp = ''200 OK''"
  shows "s' = s \<and> (\<exists>c b q. fs_canonical fs (fs_join fs base (relative_path p (url req))) = Some c
    \<and> fs_canonical fs base = Some b \<and> prefix b c
    \<and> (q = c \<and> fs_is_directory fs c = Some False
       \<or> q = fs_join fs c ''index.html'' \<and> fs_is_directory fs c = Some True)
    \<and> rs_body resp = (case fs_contents fs q of None \<Rightarrow> [] | Some d \<Rightarrow> d)
    \<and> content_type resp = get_content_type fs q)"
proof -
  from assms have "s' = s" and tried: "File_try fs base (fs_join fs base (relative_path p (url req))) = Some resp"
    by (auto simp: File_handle_request_def Let_def resp_simps split: option.splits bool.splits)
  have ct: "content_type (serve_path fs q) = get_content_type fs q" for q
    by (simp add: serve_path_def Ok_def FormatResponse_sel)
  have body: "rs_body (serve_path fs q) = (case fs_contents fs q of None \<Rightarrow> [] | Some d \<Rightarrow> d)" for q
    by (simp add: serve_path_def read_file_def resp_simps)
  from tried show ?thesis
  proof (cases rule: File_try_cases)
    case (3 c b)
    then have "prefix b c" by (simp add: str_find_0 starts_with_prefix)
    with 3 \<open>s' = s\<close> ct body show ?thesis by blast
  next
    case (4 c b)
    then have "prefix b c" by (simp add: str_find_0 starts_with_prefix)
    with 4 \<open>s' = s\<close> ct body show ?thesis by blast
  qed (use assms(2) in \<open>auto simp: resp_simps\<close>)
qed

theorem File_confined_witness:
  "\<exists>c b. fs_canonical sample_fs ''/srv/assets/a.html'' = Some c \<and> fs_canonical sample_fs ''/srv/assets'' = Some b
     \<and> prefix b c"
proof -
  have "File_handle_request sample_fs ''/srv/assets'' ''/static'' (file_request ''/static/a.html'') ()
      = Done (serve_path sample_fs ''/srv/assets/a.html'', ())"
    using File_serves_file [of sample_fs "''/srv/assets''" "''/static''" "file_request ''/static/a.html''"
        "''/srv/assets/a.html''" "''/srv/assets''"] sample_relative [of "''a.html''"]
    by (simp add: sample_fs_def)
  from File_confined [OF this serve_path_status] sample_relative [of "''a.html''"] show ?thesis
    by (auto simp: sample_fs_def)
qed



text \<open>
  The first \<^verbatim>\<open>fs::exists\<close> stands outside the \<^verbatim>\<open>try\<close> block. The handler throws
  exactly when that call throws, as Boost does when a directory on the way may not be
  searched; every other failure of the file system is answered with a response.
\<close>

lemma File_uncaught:
  "(File_handle_request fs base p req s = Exception \<longleftrightarrow>
      fs_exists fs (fs_join fs base (relative_path p (url req))) = None)
   \<and> File_handle_request fs base p req s \<noteq> Forever"
  by (auto simp: File_handle_request_def Let_def split: option.splits bool.splits)

end
