(* ===== verification/Dispatcher.thy ===== *)
theory Dispatcher
  imports Api_Handler File_Handler
begin

text \<open>
  From a target to a handler: the small handlers (\<^verbatim>\<open>request_handler_echo.cc\<close>,
  \<^verbatim>\<open>request_handler_health.cc\<close>, \<^verbatim>\<open>request_handler_not_found.cc\<close>,
  \<^verbatim>\<open>request_handler_sleep.cc\<close>), the factories (\<^verbatim>\<open>handler_factory.cc\<close>), the registry
  (\<^verbatim>\<open>handler_registry.cc\<close>) and the dispatcher (\<^verbatim>\<open>request_dispatcher.cc\<close>).

  A handler object is a value of \<open>RequestHandler\<close>, a factory one of \<open>HandlerFactory\<close>; the
  virtual calls are case distinctions. The API handler's store is a persistent store, known
  by its data path; \<open>stores\<close> holds the directory tree below each data path. Data paths are
  compared as text.
\<close>

subsection \<open>Handlers\<close>

record LocationConfig =
  path :: string
  handler_name :: string
  args :: "(string \<times> string) list"

datatype RequestHandler =
    EchoRequestHandler
  | FileRequestHandler string string
  | HealthRequestHandler
  | NotFoundRequestHandler
  | SleepHandler
  | ApiRequestHandler_on string string

definition Echo_handle_request :: "request \<Rightarrow> 's \<Rightarrow> (response \<times> 's) outcome" where
  "Echo_handle_request req s = Done (Ok (raw_request req) ''text/plain'', s)"

definition Health_handle_request :: "request \<Rightarrow> 's \<Rightarrow> (response \<times> 's) outcome" where
  "Health_handle_request req s = Done (Ok ''OK'' ''text/plain'', s)"

definition NotFound_handle_request :: "request \<Rightarrow> 's \<Rightarrow> (response \<times> 's) outcome" where
  "NotFound_handle_request req s = Done (NotFound NotFound_default, s)"

text \<open>\<^verbatim>\<open>sleep_for\<close> only delays the answer.\<close>

definition Sleep_handle_request :: "request \<Rightarrow> 's \<Rightarrow> (response \<times> 's) outcome" where
  "Sleep_handle_request req s = Done (Ok ''Slept for 3 seconds.'' ''text/plain'', s)"

definition GetHandlerName :: "RequestHandler \<Rightarrow> string" where
  "GetHandlerName h =
     (case h of
        EchoRequestHandler \<Rightarrow> ''EchoHandler''
      | FileRequestHandler _ _ \<Rightarrow> ''StaticHandler''
      | HealthRequestHandler \<Rightarrow> ''HealthHandler''
      | NotFoundRequestHandler \<Rightarrow> ''NotFoundHandler''
      | SleepHandler \<Rightarrow> ''SleepHandler''
      | ApiRequestHandler_on _ _ \<Rightarrow> ''ApiHandler'')"

text \<open>
  What is outside during one request: the file system the static handler sees, Boost's JSON
  parser, and which calls of the persistent store fail.
\<close>

record outside =
  o_fs :: filesystem
  o_json :: "string \<Rightarrow> bool"
  o_io :: io

type_synonym stores = "string \<Rightarrow> disk"

definition on_store :: "string \<Rightarrow> (disk \<Rightarrow> (response \<times> disk) outcome) \<Rightarrow> stores \<Rightarrow> (response \<times> stores) outcome" where
  "on_store data_path f st =
     (case f (st data_path) of
        Done (resp, disk) \<Rightarrow> Done (resp, st(data_path := disk))
      | Exception \<Rightarrow> Exception
      | Forever \<Rightarrow> Forever)"

text \<open>The virtual call \<^verbatim>\<open>handler->handle_request(request)\<close>.\<close>

definition handle_request :: "outside \<Rightarrow> RequestHandler \<Rightarrow> request \<Rightarrow> stores \<Rightarrow> (response \<times> stores) outcome" where
  "handle_request w h req st =
     (case h of
        EchoRequestHandler \<Rightarrow> Echo_handle_request req st
      | FileRequestHandler base_dir url_prefix \<Rightarrow> File_handle_request (o_fs w) base_dir url_prefix req st
      | HealthRequestHandler \<Rightarrow> Health_handle_request req st
      | NotFoundRequestHandler \<Rightarrow> NotFound_handle_request req st
      | SleepHandler \<Rightarrow> Sleep_handle_request req st
      | ApiRequestHandler_on data_path url_prefix \<Rightarrow>
          on_store data_path
            (Api_handle_request (Some (EntityStorePersistent (o_io w))) url_prefix (o_json w) req) st)"

subsection \<open>Factories\<close>

text \<open>The API factory holds a shared pointer to its store, \<open>None\<close> when it is null.\<close>

datatype HandlerFactory =
    EchoHandlerFactory LocationConfig
  | StaticHandlerFactory LocationConfig
  | NotFoundHandlerFactory LocationConfig
  | HealthHandlerFactory LocationConfig
  | SleepHandlerFactory LocationConfig
  | ApiHandlerFactory LocationConfig "string option"

definition Factory_Create :: "HandlerFactory \<Rightarrow> RequestHandler outcome" where
  "Factory_Create factory =
     (case factory of
        EchoHandlerFactory config \<Rightarrow> Done EchoRequestHandler
      | StaticHandlerFactory config \<Rightarrow>
          (let root = (case map_of (args config) ''root'' of None \<Rightarrow> ''.'' | Some r \<Rightarrow> r)
           in Done (FileRequestHandler root (path config)))
      | NotFoundHandlerFactory config \<Rightarrow> Done NotFoundRequestHandler
      | HealthHandlerFactory config \<Rightarrow> Done HealthRequestHandler
      | SleepHandlerFactory config \<Rightarrow> Done SleepHandler
      | ApiHandlerFactory config store \<Rightarrow>
          (case store of
             None \<Rightarrow> Exception
           | Some data_path \<Rightarrow> Done (ApiRequestHandler_on data_path (path config))))"

subsection \<open>Registry\<close>

type_synonym factories = "string \<rightharpoonup> HandlerFactory"

definition RegisterHandler :: "string \<Rightarrow> HandlerFactory \<Rightarrow> factories \<Rightarrow> factories" where
  "RegisterHandler p factory reg = reg(p \<mapsto> factory)"

definition GetFactory :: "factories \<Rightarrow> string \<Rightarrow> HandlerFactory option" where
  "GetFactory reg p = reg p"

subsection \<open>Dispatcher\<close>

record ServerConfig =
  port :: cshort
  locations :: "LocationConfig list"

text \<open>\<^verbatim>\<open>InitFromServerConfig\<close>: \<^verbatim>\<open>false\<close> is \<open>None\<close>, and the dispatcher is its locations.\<close>

definition InitFromServerConfig :: "ServerConfig \<Rightarrow> LocationConfig list option" where
  "InitFromServerConfig server_config =
     (if locations server_config = [] then None else Some (locations server_config))"

fun FindBestMatch_loop ::
  "string \<Rightarrow> LocationConfig list \<Rightarrow> LocationConfig option \<Rightarrow> nat \<Rightarrow> LocationConfig option" where
  "FindBestMatch_loop url_path [] best_match best_match_length = best_match"
| "FindBestMatch_loop url_path (location # rest) best_match best_match_length =
     (if str_find (path location) url_path = Some 0 \<and> length (path location) > best_match_length
      then FindBestMatch_loop url_path rest (Some location) (length (path location))
      else FindBestMatch_loop url_path rest best_match best_match_length)"

definition FindBestMatch :: "LocationConfig list \<Rightarrow> string \<Rightarrow> LocationConfig option" where
  "FindBestMatch locs url_path = FindBestMatch_loop url_path locs None 0"

definition not_found_config :: LocationConfig where
  "not_found_config = \<lparr>path = [], handler_name = ''NotFoundHandler'', args = []\<rparr>"

definition CreateHandler :: "factories \<Rightarrow> LocationConfig list \<Rightarrow> string \<Rightarrow> RequestHandler outcome" where
  "CreateHandler reg locs url_path =
     (case FindBestMatch locs url_path of
        None \<Rightarrow> Factory_Create (NotFoundHandlerFactory not_found_config)
      | Some matched_location \<Rightarrow>
          (case GetFactory reg (path matched_location) of
             None \<Rightarrow> Factory_Create (NotFoundHandlerFactory not_found_config)
           | Some factory \<Rightarrow> Factory_Create factory))"

subsection \<open>Every handler keeps the handler contract\<close>

interpretation echo_handler: request_handler Echo_handle_request
  by unfold_locales (auto simp: Echo_handle_request_def resp_simps)

interpretation health_handler: request_handler Health_handle_request
  by unfold_locales (auto simp: Health_handle_request_def resp_simps)

interpretation not_found_handler: request_handler NotFound_handle_request
  by unfold_locales (auto simp: NotFound_handle_request_def resp_simps)

interpretation sleep_handler: request_handler Sleep_handle_request
  by unfold_locales (auto simp: Sleep_handle_request_def resp_simps)

lemma on_store_Done:
  "on_store d f st = Done (resp, st') \<longleftrightarrow> (\<exists>disk. f (st d) = Done (resp, disk) \<and> st' = st(d := disk))"
  by (auto simp: on_store_def split: outcome.splits)

interpretation any_handler: request_handler "handle_request w h"
  using echo_handler.response_wf health_handler.response_wf not_found_handler.response_wf
    sleep_handler.response_wf file_handler.response_wf api_handler.response_wf
  by unfold_locales (cases h; auto simp: handle_request_def on_store_Done)

subsection \<open>Longest prefix match\<close>

definition matches :: "string \<Rightarrow> LocationConfig \<Rightarrow> bool" where
  "matches url_path l \<longleftrightarrow> path l \<noteq> [] \<and> prefix (path l) url_path"

lemma FindBestMatch_loop_longest:
  assumes "FindBestMatch_loop u locs best n = r"
  shows "r = best \<and> (\<forall>l\<in>set locs. prefix (path l) u \<longrightarrow> length (path l) \<le> n)
    \<or> (\<exists>l\<in>set locs. r = Some l \<and> prefix (path l) u \<and> n < length (path l)
        \<and> (\<forall>l'\<in>set locs. prefix (path l') u \<longrightarrow> length (path l') \<le> length (path l)))"
  using assms
proof (induction locs arbitrary: best n)
  case (Cons l locs)
  show ?case
  proof (cases "prefix (path l) u \<and> length (path l) > n")
    case True
    with Cons.prems have "FindBestMatch_loop u locs (Some l) (length (path l)) = r"
      by (simp add: str_find_0 starts_with_prefix)
    from Cons.IH [OF this] True show ?thesis by fastforce
  next
    case False
    with Cons.prems have "FindBestMatch_loop u locs best n = r"
      by (auto simp: str_find_0 starts_with_prefix)
    from Cons.IH [OF this] False show ?thesis by fastforce
  qed
qed simp

lemma FindBestMatch_SomeD:
  assumes "FindBestMatch locs u = Some l"
  shows "l \<in> set locs" "matches u l" "l' \<in> set locs \<Longrightarrow> matches u l' \<Longrightarrow> prefix (path l') (path l)"
proof -
  from FindBestMatch_loop_longest [OF assms [unfolded FindBestMatch_def]]
  have l: "l \<in> set locs" "prefix (path l) u" "0 < length (path l)"
    "\<forall>l'\<in>set locs. prefix (path l') u \<longrightarrow> length (path l') \<le> length (path l)" by auto
  then show "l \<in> set locs" "matches u l" by (auto simp: matches_def)
  assume "l' \<in> set locs" "matches u l'"
  with l(2,4) show "prefix (path l') (path l)"
    by (auto simp: matches_def intro: prefix_length_prefix)
qed

lemma FindBestMatch_None: "FindBestMatch locs u = None \<longleftrightarrow> (\<forall>l\<in>set locs. \<not> matches u l)"
proof -
  from FindBestMatch_loop_longest [of u locs None 0] show ?thesis
    unfolding FindBestMatch_def matches_def by (metis length_greater_0_conv not_le option.distinct(1))
qed

text \<open>The match depends on the set of paths only, not on their order.\<close>

lemma FindBestMatch_path:
  assumes "l \<in> set locs" "matches u l" "\<forall>l'\<in>set locs. matches u l' \<longrightarrow> length (path l') \<le> length (path l)"
  shows "map_option path (FindBestMatch locs u) = Some (path l)"
proof (cases "FindBestMatch locs u")
  case None
  with assms FindBestMatch_None show ?thesis by blast
next
  case (Some m)
  note m = FindBestMatch_SomeD [OF Some]
  from m(3) [OF assms(1,2)] m(1,2) assms(3) have "path l = path m"
    by (auto simp: prefix_def)
  with Some show ?thesis by simp
qed

subsection \<open>Properties of the dispatcher\<close>

text \<open>
  Routing is longest-prefix matching. The chosen location is one whose
  path is not empty and starts the target, and the path of every other such location is a
  prefix of its path; no location is chosen exactly when there is none such. The order of
  the locations does not matter for the path.
\<close>

lemma FindBestMatch_longest:
  "case FindBestMatch locs url_path of
     None \<Rightarrow> \<forall>l\<in>set locs. \<not> matches url_path l
   | Some l \<Rightarrow> l \<in> set locs \<and> matches url_path l
       \<and> (\<forall>l'\<in>set locs. matches url_path l' \<longrightarrow> prefix (path l') (path l))"
  using FindBestMatch_SomeD FindBestMatch_None by (auto split: option.split)

definition sample_locations :: "LocationConfig list" where
  "sample_locations = [\<lparr>path = ''/'', handler_name = ''StaticHandler'', args = []\<rparr>,
     \<lparr>path = ''/api'', handler_name = ''ApiHandler'', args = [(''data_path'', ''/data'')]\<rparr>]"

text \<open>
  C37: whatever handler a request is dispatched to, when the handler
  returns, the session sends a message that ends its head at the first empty line and whose
  rest is the body of the response.
\<close>

theorem handle_request_framed:
  assumes "handle_request w h req st = Done (resp, st')"
  shows "wf_response resp \<and> (\<exists>n. str_find CRLFCRLF (SerializeResponse (Some resp)) = Some n
    \<and> drop (n + 4) (SerializeResponse (Some resp)) = rs_body resp)"
  using any_handler.response_wf [OF assms] any_handler.response_framed [OF assms] by blast

definition sample_outside :: outside where
  "sample_outside = \<lparr>o_fs = sample_fs, o_json = \<lambda>_. True, o_io = io_fine\<rparr>"

theorem handle_request_framed_witness:
  "wf_response (Ok ''OK'' ''text/plain'')"
  using handle_request_framed [of sample_outside HealthRequestHandler sample_get "\<lambda>_. []"]
  by (simp add: handle_request_def Health_handle_request_def)

end
