(* ===== verification/Session.thy ===== *)
theory Session
  imports Dispatcher
begin

text \<open>
  One connection: \<^verbatim>\<open>src/session.cc\<close>. A handler of the class runs when an asynchronous operation
  of Boost.Asio completes; it ends by starting the next operation on the connection or by
  deleting the session. \<open>session_step\<close> is which of the two. The log is the list of the lines
  tagged \<^verbatim>\<open>[ResponseMetrics]\<close>; the other log records are in \<open>Logging\<close>.

  \<open>site\<close> is what the dispatcher has after start-up: its locations and the registry.
\<close>

record session =
  request_buffer :: string
  response_bytes :: string
  ip :: string
  client_port :: int

record site =
  site_locations :: "LocationConfig list"
  site_factories :: factories

definition new_session :: session where
  "new_session = \<lparr>request_buffer = [], response_bytes = [], ip = [], client_port = -1\<rparr>"

text \<open>\<open>AsyncRead\<close> waits for up to \<^verbatim>\<open>max_length\<close> bytes, \<open>AsyncWrite\<close> sends the whole buffer.\<close>

datatype async_op = AsyncRead | AsyncWrite string

definition max_length :: nat where
  "max_length = 1024"

datatype session_step = Waits session async_op | Deleted

definition StartAsyncRead :: "session \<Rightarrow> session_step" where
  "StartAsyncRead s = Waits s AsyncRead"

definition SendResponse :: "session \<Rightarrow> session_step" where
  "SendResponse s = Waits s (AsyncWrite (response_bytes s))"

definition HandleError :: "session \<Rightarrow> session_step" where
  "HandleError s = Deleted"

text \<open>\<^verbatim>\<open>start\<close>: asking a socket for its remote end throws when the client is gone already.\<close>

definition session_start :: "(string \<times> int) option \<Rightarrow> session \<Rightarrow> session_step outcome" where
  "session_start endpoint s =
     (case endpoint of
        None \<Rightarrow> Exception
      | Some (address, port_number) \<Rightarrow>
          Done (StartAsyncRead (s\<lparr>ip := address, client_port := port_number\<rparr>)))"

definition LogResponseMetrics :: "session \<Rightarrow> response \<Rightarrow> string \<Rightarrow> string \<Rightarrow> string" where
  "LogResponseMetrics s resp request_path hname =
     (let response_code =
        (case str_find '' '' (status_code resp) of
           None \<Rightarrow> status_code resp
         | Some space_pos \<Rightarrow> take space_pos (status_code resp))
      in ''[ResponseMetrics] response_code=\"'' @ response_code
         @ ''\" request_path=\"'' @ request_path @ ''\" request_ip=\"'' @ ip s
         @ ''\" handler_name=\"'' @ hname @ ''\"'')"

text \<open>What a completed request is answered with, and the log line.\<close>

definition answer ::
  "outside \<Rightarrow> site \<Rightarrow> session \<Rightarrow> request \<Rightarrow> stores \<Rightarrow> (response \<times> string \<times> stores) outcome" where
  "answer w site s req st =
     (if \<not> is_valid req then
        (let resp = BadRequest BadRequest_default;
             request_path = (if url req = [] then ''<unknown>'' else url req)
         in Done (resp, LogResponseMetrics s resp request_path ''BadRequest'', st))
      else
        (case CreateHandler (site_factories site) (site_locations site) (url req) of
           Exception \<Rightarrow> Exception
         | Forever \<Rightarrow> Forever
         | Done h \<Rightarrow>
             (case handle_request w h req st of
                Exception \<Rightarrow> Exception
              | Forever \<Rightarrow> Forever
              | Done (resp, st') \<Rightarrow>
                  Done (resp, LogResponseMetrics s resp (url req) (GetHandlerName h), st'))))"

definition respond ::
  "outside \<Rightarrow> site \<Rightarrow> session \<Rightarrow> request \<Rightarrow> stores \<Rightarrow> (session_step \<times> string list \<times> stores) outcome" where
  "respond w site s req st =
     (case answer w site s req st of
        Exception \<Rightarrow> Exception
      | Forever \<Rightarrow> Forever
      | Done (resp, line, st') \<Rightarrow>
          Done (SendResponse (s\<lparr>response_bytes := SerializeResponse (Some resp)\<rparr>), [line], st'))"

text \<open>
  \<^verbatim>\<open>handle_read\<close>: \<open>data\<close> is the first \<^verbatim>\<open>bytes_transferred\<close> bytes of \<^verbatim>\<open>data_\<close>, \<open>garbage\<close> the value
  of \<^verbatim>\<open>is_valid\<close> in the uninitialised local \<^verbatim>\<open>request\<close>. Nothing empties \<^verbatim>\<open>request_buffer_\<close>.
\<close>

definition handle_read ::
  "outside \<Rightarrow> site \<Rightarrow> bool \<Rightarrow> bool \<Rightarrow> string \<Rightarrow> session \<Rightarrow> stores
   \<Rightarrow> (session_step \<times> string list \<times> stores) outcome" where
  "handle_read w site garbage error data s st =
     (if error then Done (HandleError s, [], st)
      else
        (let s1 = s\<lparr>request_buffer := request_buffer s @ data\<rparr> in
         case RequestParser_Parse (request_buffer s1) (fresh_request garbage) of
           (False, _) \<Rightarrow> Done (StartAsyncRead s1, [], st)
         | (True, req) \<Rightarrow> respond w site s1 req st))"

definition handle_write :: "bool \<Rightarrow> session \<Rightarrow> session_step" where
  "handle_write error s = (if \<not> error then StartAsyncRead s else HandleError s)"

subsection \<open>Lemmas\<close>

lemma answer_wf: "answer w site s req st = Done (resp, line, st') \<Longrightarrow> wf_response resp"
  using any_handler.response_wf
  by (auto simp: answer_def Let_def resp_simps split: if_splits outcome.splits prod.splits)

lemma handle_read_incomplete:
  "\<not> fst (RequestParser_Parse (request_buffer s @ data) (fresh_request g)) \<Longrightarrow>
   handle_read w site g False data s st =
     Done (Waits (s\<lparr>request_buffer := request_buffer s @ data\<rparr>) AsyncRead, [], st)"
  by (auto simp: handle_read_def StartAsyncRead_def Let_def split: prod.split bool.split)

lemma handle_read_complete:
  "RequestParser_Parse (request_buffer s @ data) (fresh_request g) = (True, req) \<Longrightarrow>
   handle_read w site g False data s st =
     respond w site (s\<lparr>request_buffer := request_buffer s @ data\<rparr>) req st"
  by (simp add: handle_read_def Let_def)

text \<open>A valid request is answered by the handler its target is dispatched to.\<close>

lemma respond_valid:
  assumes "is_valid req" "CreateHandler (site_factories site) (site_locations site) (url req) = Done h"
    and "handle_request w h req st = Done (resp, st')"
  shows "\<exists>line s2. respond w site s req st = Done (Waits s2 (AsyncWrite (serialize resp)), [line], st')
    \<and> request_buffer s2 = request_buffer s"
  using assms by (simp add: respond_def answer_def SendResponse_def SerializeResponse_def)

lemma incomplete_prefix:
  "\<not> fst (RequestParser_Parse (a @ b) req) \<Longrightarrow> \<not> fst (RequestParser_Parse a req')"
proof -
  have *: "\<not> fst (RequestParser_Parse x r) \<longleftrightarrow> str_find CRLFCRLF x = None" for x r
    by (auto simp: RequestParser_Parse_eq split: option.split)
  show "\<not> fst (RequestParser_Parse (a @ b) req) \<Longrightarrow> ?thesis"
    unfolding * by (rule str_find_None_prefix)
qed

text \<open>Reads one after the other, until something else than another read is started.\<close>

fun read_chunks ::
  "outside \<Rightarrow> site \<Rightarrow> bool \<Rightarrow> string list \<Rightarrow> session \<Rightarrow> stores \<Rightarrow> (session_step \<times> string list \<times> stores) outcome" where
  "read_chunks w site g [] s st = Done (StartAsyncRead s, [], st)"
| "read_chunks w site g (c # cs) s st =
     (case handle_read w site g False c s st of
        Done (Waits s' AsyncRead, lines, st') \<Rightarrow> read_chunks w site g cs s' st'
      | r \<Rightarrow> r)"

lemma respond_not_read: "respond w site s req st \<noteq> Done (Waits s' AsyncRead, lines, st')"
  by (auto simp: respond_def SendResponse_def split: outcome.splits prod.splits)

lemma read_chunks_last:
  "\<not> fst (RequestParser_Parse (request_buffer s @ concat cs) (fresh_request g)) \<Longrightarrow>
   read_chunks w site g (cs @ [c]) s st = read_chunks w site g [concat cs @ c] s st"
proof (induction cs arbitrary: s)
  case (Cons d cs)
  then have "\<not> fst (RequestParser_Parse (request_buffer s @ d) (fresh_request g))"
    using incomplete_prefix [of "request_buffer s @ d" "concat cs"] by simp
  then have "read_chunks w site g ((d # cs) @ [c]) s st
      = read_chunks w site g (cs @ [c]) (s\<lparr>request_buffer := request_buffer s @ d\<rparr>) st"
    by (simp add: handle_read_incomplete)
  also have "\<dots> = read_chunks w site g [concat cs @ c] (s\<lparr>request_buffer := request_buffer s @ d\<rparr>) st"
    using Cons by simp
  also have "\<dots> = read_chunks w site g [concat (d # cs) @ c] s st"
    by (simp add: handle_read_def Let_def)
  finally show ?case .
qed simp

lemma read_chunks_one: "read_chunks w site g [c] s st = handle_read w site g False c s st"
proof (cases "RequestParser_Parse (request_buffer s @ c) (fresh_request g)")
  case (Pair b req)
  show ?thesis
  proof (cases b)
    case True
    with Pair respond_not_read show ?thesis
      by (auto simp: handle_read_complete split: outcome.split prod.split session_step.split async_op.split)
  next
    case False
    with Pair show ?thesis by (simp add: handle_read_incomplete StartAsyncRead_def)
  qed
qed

definition sample_site :: site where
  "sample_site =
     (let echo = \<lparr>path = ''/echo'', handler_name = ''EchoHandler'', args = []\<rparr>;
          health = \<lparr>path = ''/health'', handler_name = ''HealthHandler'', args = []\<rparr>
      in \<lparr>site_locations = [echo, health],
          site_factories = [''/echo'' \<mapsto> EchoHandlerFactory echo, ''/health'' \<mapsto> HealthHandlerFactory health]\<rparr>)"

lemma sample_site_handlers:
  "CreateHandler (site_factories sample_site) (site_locations sample_site) ''/echo'' = Done EchoRequestHandler"
  "CreateHandler (site_factories sample_site) (site_locations sample_site) ''/health'' = Done HealthRequestHandler"
  by (simp_all add: sample_site_def CreateHandler_def FindBestMatch_def GetFactory_def Factory_Create_def Let_def)

lemma sample_targets:
  "wf_target ''/echo''" "wf_target ''/health''" "''GET'' \<in> set kAllowedMethods"
  by (simp_all add: wf_target_def isspace_def code_def kAllowedMethods_def)

subsection \<open>Properties of the session\<close>

text \<open>
  A request that arrives on a new connection is answered by its handler.
  For a request in the usual form, received in one piece, the session calls the handler the
  dispatcher gives for the target, with the method, the target, the headers and the body
  that were sent, and starts to write exactly the serialised response; it logs one line.
\<close>

lemma Session_answers:
  assumes "m \<in> set kAllowedMethods" "wf_target u" "list_all wf_header hs" "request_buffer s = []"
    and "CreateHandler (site_factories site) (site_locations site) u = Done h"
    and "handle_request w h \<lparr>is_valid = True, raw_request = render_request m u hs body, rq_method = m, url = u,
      rq_http_version = ''1.1'', rq_headers = map (\<lambda>(n, v). n @ '': '' @ trim_blanks v) hs, rq_body = body\<rparr> st
      = Done (resp, st')"
  shows "\<exists>s2 line. handle_read w site g False (render_request m u hs body) s st
    = Done (Waits s2 (AsyncWrite (SerializeResponse (Some resp))), [line], st')"
proof -
  let ?r = "\<lparr>is_valid = True, raw_request = render_request m u hs body, rq_method = m, url = u,
      rq_http_version = ''1.1'', rq_headers = map (\<lambda>(n, v). n @ '': '' @ trim_blanks v) hs, rq_body = body\<rparr>"
  have p: "RequestParser_Parse (request_buffer s @ render_request m u hs body) (fresh_request g) = (True, ?r)"
    using render_parsed [OF assms(1-3), of body g] assms(4) by simp
  have "is_valid ?r" "CreateHandler (site_factories site) (site_locations site) (url ?r) = Done h"
    using assms(5) by simp_all
  from respond_valid [OF this assms(6)] handle_read_complete [OF p, of w site st] show ?thesis
    unfolding SerializeResponse_def option.case by metis
qed

text \<open>
  How the bytes of a request are cut into reads does not matter. As long as the
  head is not complete before the last piece, the pieces one after the other have the effect
  of one read of all the bytes: the same answer, the same session, the same stored objects.
\<close>

lemma Session_chunks:
  assumes "\<not> fst (RequestParser_Parse (request_buffer s @ concat cs) (fresh_request g))"
  shows "read_chunks w site g (cs @ [c]) s st = handle_read w site g False (concat (cs @ [c])) s st"
  using read_chunks_last [OF assms] by (simp add: read_chunks_one del: read_chunks.simps)

text \<open>
  C28: the buffer is not emptied after an answer. When a session whose
  buffer holds a complete valid request reads more bytes, whatever they are, it answers that
  first request again: same method, same target, same headers, with the new bytes at the end
  of the body. A second request on the connection is never seen.
\<close>

theorem Session_second_request:
  assumes "RequestParser_Parse (request_buffer s) (fresh_request g) = (True, r)" "is_valid r"
  shows "handle_read w site g' False data s st =
    respond w site (s\<lparr>request_buffer := request_buffer s @ data\<rparr>)
      (r\<lparr>raw_request := request_buffer s @ data, rq_body := rq_body r @ data\<rparr>) st"
proof (rule handle_read_complete)
  from parse_extended [OF assms(1)] assms(2)
  show "RequestParser_Parse (request_buffer s @ data) (fresh_request g')
      = (True, r\<lparr>raw_request := request_buffer s @ data, rq_body := rq_body r @ data\<rparr>)" by simp
qed

definition echo_text :: string where
  "echo_text = render_request ''GET'' ''/echo'' [] []"

lemma echo_text_parsed:
  "RequestParser_Parse echo_text (fresh_request g) =
    (True, \<lparr>is_valid = True, raw_request = echo_text, rq_method = ''GET'', url = ''/echo'',
            rq_http_version = ''1.1'', rq_headers = [], rq_body = []\<rparr>)"
  unfolding echo_text_def using render_parsed [OF sample_targets(3,1), of "[]" "[]" g] by simp

text \<open>After \<^verbatim>\<open>GET /echo\<close> has been answered, \<^verbatim>\<open>GET /health\<close> on the same connection is echoed.\<close>

theorem Session_second_request_witness:
  "\<exists>s2 line. handle_read sample_outside sample_site True False (render_request ''GET'' ''/health'' [] [])
      (new_session\<lparr>request_buffer := echo_text\<rparr>) (\<lambda>_. [])
    = Done (Waits s2 (AsyncWrite (serialize (Ok (echo_text @ render_request ''GET'' ''/health'' [] []) ''text/plain''))),
        [line], \<lambda>_. [])"
proof -
  let ?s = "new_session\<lparr>request_buffer := echo_text\<rparr>" and ?d = "render_request ''GET'' ''/health'' [] []"
  let ?r = "\<lparr>is_valid = True, raw_request = echo_text @ ?d, rq_method = ''GET'', url = ''/echo'',
            rq_http_version = ''1.1'', rq_headers = [], rq_body = ?d\<rparr>"
  have "RequestParser_Parse (request_buffer ?s) (fresh_request True) =
    (True, \<lparr>is_valid = True, raw_request = echo_text, rq_method = ''GET'', url = ''/echo'',
            rq_http_version = ''1.1'', rq_headers = [], rq_body = []\<rparr>)"
    by (simp add: echo_text_parsed)
  from Session_second_request [OF this]
  have "handle_read sample_outside sample_site True False ?d ?s (\<lambda>_. [])
      = respond sample_outside sample_site (?s\<lparr>request_buffer := echo_text @ ?d\<rparr>) ?r (\<lambda>_. [])" by simp
  with respond_valid [of ?r sample_site EchoRequestHandler] sample_site_handlers(1) show ?thesis
    by (simp add: handle_request_def Echo_handle_request_def) blast
qed

text \<open>
  The declared length of a body is not looked at. When the head of a
  request and the first part \<open>b1\<close> of its body arrive in one read, the handler is called at
  once with \<open>b1\<close> as the whole body, also if the headers announce more bytes; the rest of the
  body, when it arrives, makes the session handle the request a second time.
\<close>

lemma Session_ignores_length:
  assumes "m \<in> set kAllowedMethods" "wf_target u" "list_all wf_header hs" "request_buffer s = []"
    and "(''Content-Length'', dec_nat (length b1 + length b2)) \<in> set hs" "b2 \<noteq> []"
    and "r = \<lparr>is_valid = True, raw_request = render_request m u hs b1, rq_method = m, url = u,
      rq_http_version = ''1.1'', rq_headers = map (\<lambda>(n, v). n @ '': '' @ trim_blanks v) hs, rq_body = b1\<rparr>"
  shows "handle_read w site g False (render_request m u hs b1) s st =
      respond w site (s\<lparr>request_buffer := render_request m u hs b1\<rparr>) r st
    \<and> handle_read w site g False b2 (s\<lparr>request_buffer := render_request m u hs b1\<rparr>) st' =
      respond w site (s\<lparr>request_buffer := render_request m u hs b1 @ b2\<rparr>)
        (r\<lparr>raw_request := render_request m u hs b1 @ b2, rq_body := b1 @ b2\<rparr>) st'"
proof -
  have p: "RequestParser_Parse (render_request m u hs b1) (fresh_request g) = (True, r)"
    using render_parsed [OF assms(1-3), of b1 g] assms(7) by simp
  then have "RequestParser_Parse (request_buffer s @ render_request m u hs b1) (fresh_request g) = (True, r)"
    using assms(4) by simp
  note first = handle_read_complete [OF this, of w site st]
  have "RequestParser_Parse (render_request m u hs b1 @ b2) (fresh_request g)
      = (True, r\<lparr>raw_request := render_request m u hs b1 @ b2, rq_body := b1 @ b2\<rparr>)"
    using parse_extended [OF p, of b2 g] assms(7) by simp
  then have "RequestParser_Parse (request_buffer (s\<lparr>request_buffer := render_request m u hs b1\<rparr>) @ b2) (fresh_request g)
      = (True, r\<lparr>raw_request := render_request m u hs b1 @ b2, rq_body := b1 @ b2\<rparr>)" by simp
  note second = handle_read_complete [OF this, of w site st']
  from first second assms(4) show ?thesis by simp
qed

end
