(* ===== verification/Server.thy ===== *)
theory Server
  imports Session
begin

text \<open>
  The accept loop of \<^verbatim>\<open>src/server.cc\<close> and the life of its sessions, as a step relation. A step
  is the completion of one asynchronous operation and the run of its handler; which pending
  operation completes next, and with what result, is open. Handlers of different sessions
  run on a pool of threads (\<^verbatim>\<open>src/server_main.cc\<close>); here each handler runs as a whole. What that
  leaves out is in \<open>Thread_Pool\<close> and \<open>Store_Interleaving\<close>.

  Sessions are objects on the heap, addressed by pointers (natural numbers) that the
  operations in flight hold. Touching a deleted one is \<open>Use_after_free\<close>. An exception that
  leaves a handler leaves \<^verbatim>\<open>io_service.run()\<close> and its thread, which ends the program:
  \<open>Terminated\<close>. \<open>stuck\<close> holds the sessions whose handler never returns.
\<close>

datatype server_op = OpAccept | OpReadSome | OpWriteAll

record server =
  heap :: "nat \<rightharpoonup> session"
  pending :: "(nat \<times> server_op) list"
  stuck :: "nat set"
  server_stores :: stores
  metrics :: "string list"

datatype server_state = Running server | Terminated | Use_after_free

definition start_accept :: "nat \<Rightarrow> server \<Rightarrow> server" where
  "start_accept q sv =
     sv\<lparr>heap := (heap sv)(q \<mapsto> new_session), pending := pending sv @ [(q, OpAccept)]\<rparr>"

text \<open>The constructor, on a heap that holds no session.\<close>

definition server_new :: "nat \<Rightarrow> stores \<Rightarrow> server" where
  "server_new q st =
     start_accept q \<lparr>heap = Map.empty, pending = [], stuck = {}, server_stores = st, metrics = []\<rparr>"

text \<open>What a handler of the session does to the server: it starts an operation or deletes itself.\<close>

definition proceed :: "nat \<Rightarrow> session_step \<Rightarrow> server \<Rightarrow> server" where
  "proceed p stp sv =
     (case stp of
        Deleted \<Rightarrow> sv\<lparr>heap := (heap sv)(p := None)\<rparr>
      | Waits s AsyncRead \<Rightarrow>
          sv\<lparr>heap := (heap sv)(p \<mapsto> s), pending := pending sv @ [(p, OpReadSome)]\<rparr>
      | Waits s (AsyncWrite _) \<Rightarrow>
          sv\<lparr>heap := (heap sv)(p \<mapsto> s), pending := pending sv @ [(p, OpWriteAll)]\<rparr>)"

text \<open>
  Completions: an accept with the remote end of its socket and the address of the next
  session object, a read with the bytes received, and a write.
\<close>

datatype completion =
    AcceptDone nat bool "(string \<times> int) option" nat
  | ReadDone nat outside bool bool string
  | WriteDone nat bool

definition handle_accept :: "nat \<Rightarrow> bool \<Rightarrow> (string \<times> int) option \<Rightarrow> nat \<Rightarrow> server \<Rightarrow> server_state" where
  "handle_accept p error endpoint q sv =
     (case heap sv p of
        None \<Rightarrow> Use_after_free
      | Some s \<Rightarrow>
          if error then Running (start_accept q (proceed p Deleted sv))
          else (case session_start endpoint s of
                  Done stp \<Rightarrow> Running (start_accept q (proceed p stp sv))
                | _ \<Rightarrow> Terminated))"

definition take_op :: "nat \<Rightarrow> server_op \<Rightarrow> server \<Rightarrow> server" where
  "take_op p x sv = sv\<lparr>pending := remove1 (p, x) (pending sv)\<rparr>"

definition complete :: "site \<Rightarrow> completion \<Rightarrow> server \<Rightarrow> server_state" where
  "complete site c sv =
     (case c of
        AcceptDone p error endpoint q \<Rightarrow> handle_accept p error endpoint q (take_op p OpAccept sv)
      | ReadDone p w garbage error data \<Rightarrow>
          (case heap sv p of
             None \<Rightarrow> Use_after_free
           | Some s \<Rightarrow>
              (case handle_read w site garbage error data s (server_stores sv) of
                 Exception \<Rightarrow> Terminated
               | Forever \<Rightarrow> Running ((take_op p OpReadSome sv)\<lparr>stuck := insert p (stuck sv)\<rparr>)
               | Done (stp, lines, st) \<Rightarrow>
                   Running (proceed p stp ((take_op p OpReadSome sv)
                     \<lparr>server_stores := st, metrics := metrics sv @ lines\<rparr>))))
      | WriteDone p error \<Rightarrow>
          (case heap sv p of
             None \<Rightarrow> Use_after_free
           | Some s \<Rightarrow> Running (proceed p (handle_write error s) (take_op p OpWriteAll sv))))"

text \<open>
  What can complete: an operation in flight. A read without an error brings between one and
  \<^verbatim>\<open>max_length\<close> bytes, and \<^verbatim>\<open>new\<close> returns an address where no session lives.
\<close>

definition enabled :: "completion \<Rightarrow> server \<Rightarrow> bool" where
  "enabled c sv \<longleftrightarrow>
     (case c of
        AcceptDone p error endpoint q \<Rightarrow>
          (p, OpAccept) \<in> set (pending sv) \<and> (heap sv q = None \<or> error \<and> q = p)
      | ReadDone p w garbage error data \<Rightarrow>
          (p, OpReadSome) \<in> set (pending sv) \<and> (\<not> error \<longrightarrow> 0 < length data \<and> length data \<le> max_length)
      | WriteDone p error \<Rightarrow> (p, OpWriteAll) \<in> set (pending sv))"

text \<open>The operation that a completion completes, and the results it can have.\<close>

definition op_of :: "completion \<Rightarrow> nat \<times> server_op" where
  "op_of c = (case c of AcceptDone p _ _ _ \<Rightarrow> (p, OpAccept) | ReadDone p _ _ _ _ \<Rightarrow> (p, OpReadSome)
     | WriteDone p _ \<Rightarrow> (p, OpWriteAll))"

definition result_ok :: "completion \<Rightarrow> server \<Rightarrow> bool" where
  "result_ok c sv \<longleftrightarrow>
     (case c of AcceptDone p error _ q \<Rightarrow> heap sv q = None \<or> error \<and> q = p
      | ReadDone _ _ _ error data \<Rightarrow> \<not> error \<longrightarrow> 0 < length data \<and> length data \<le> max_length
      | WriteDone _ _ \<Rightarrow> True)"

lemma enabled_eq: "enabled c sv \<longleftrightarrow> op_of c \<in> set (pending sv) \<and> result_ok c sv"
  by (auto simp: enabled_def op_of_def result_ok_def split: completion.split)

inductive server_step :: "site \<Rightarrow> server_state \<Rightarrow> server_state \<Rightarrow> bool" for site where
  complete: "enabled c sv \<Longrightarrow> server_step site (Running sv) (complete site c sv)"

inductive_cases server_step_RunningE: "server_step site (Running sv) x"
inductive_simps server_step_Terminated: "server_step site Terminated x"
inductive_simps server_step_freed: "server_step site Use_after_free x"

inductive reachable :: "site \<Rightarrow> stores \<Rightarrow> server_state \<Rightarrow> bool" for site st where
  start: "reachable site st (Running (server_new q st))"
| step: "reachable site st x \<Longrightarrow> server_step site x y \<Longrightarrow> reachable site st y"

subsection \<open>The invariant\<close>

text \<open>
  Every session in memory waits for exactly one operation or is stuck in a handler, every
  operation in flight belongs to a session in memory, and exactly one accept is in flight.
\<close>

definition accepts :: "(nat \<times> server_op) list \<Rightarrow> nat" where
  "accepts xs = length (filter (\<lambda>x. snd x = OpAccept) xs)"

definition server_inv :: "server \<Rightarrow> bool" where
  "server_inv sv \<longleftrightarrow> distinct (map fst (pending sv)) \<and>
     dom (heap sv) = fst ` set (pending sv) \<union> stuck sv \<and>
     fst ` set (pending sv) \<inter> stuck sv = {} \<and> accepts (pending sv) = 1"

lemma server_inv_new: "server_inv (server_new q st)"
  by (simp add: server_inv_def server_new_def start_accept_def accepts_def)

lemma server_inv_heap: "server_inv sv \<Longrightarrow> (p, x) \<in> set (pending sv) \<Longrightarrow> \<exists>s. heap sv p = Some s"
  by (force simp: server_inv_def)

text \<open>The state while the handler of \<open>p\<close> runs: its operation is no longer in flight.\<close>

definition running_inv :: "nat \<Rightarrow> nat \<Rightarrow> server \<Rightarrow> bool" where
  "running_inv p n sv \<longleftrightarrow> distinct (map fst (pending sv)) \<and> p \<notin> fst ` set (pending sv) \<and> p \<notin> stuck sv \<and>
     dom (heap sv) = insert p (fst ` set (pending sv) \<union> stuck sv) \<and>
     fst ` set (pending sv) \<inter> stuck sv = {} \<and> accepts (pending sv) = n"

lemma take_op_inv:
  assumes "server_inv sv" "(p, x) \<in> set (pending sv)"
  shows "running_inv p (if x = OpAccept then 0 else 1) (take_op p x sv)"
proof -
  from assms(2) obtain as bs where split: "pending sv = as @ (p, x) # bs" "(p, x) \<notin> set as"
    by (meson split_list_first)
  then have "remove1 (p, x) (pending sv) = as @ bs" by (simp add: remove1_append)
  with assms(1) split show ?thesis
    by (auto simp: server_inv_def running_inv_def take_op_def accepts_def)
qed

lemma proceed_inv:
  assumes "running_inv p n sv"
  shows "distinct (map fst (pending (proceed p stp sv))) \<and>
     dom (heap (proceed p stp sv)) = fst ` set (pending (proceed p stp sv)) \<union> stuck (proceed p stp sv) \<and>
     fst ` set (pending (proceed p stp sv)) \<inter> stuck (proceed p stp sv) = {} \<and>
     accepts (pending (proceed p stp sv)) = n"
  using assms
  by (cases stp; cases "case stp of Waits s x \<Rightarrow> x | Deleted \<Rightarrow> AsyncRead")
    (auto simp: running_inv_def proceed_def accepts_def)

lemma start_accept_inv:
  assumes "distinct (map fst (pending sv))" "dom (heap sv) = fst ` set (pending sv) \<union> stuck sv"
    and "fst ` set (pending sv) \<inter> stuck sv = {}" "accepts (pending sv) = 0" "heap sv q = None"
  shows "server_inv (start_accept q sv)"
proof -
  have "q \<notin> fst ` set (pending sv) \<union> stuck sv" using assms(2,5) by blast
  with assms show ?thesis by (auto simp: server_inv_def start_accept_def accepts_def)
qed

lemma session_start_Waits:
  "session_start ep s = Done stp \<Longrightarrow> \<exists>s'. stp = Waits s' AsyncRead"
  by (auto simp: session_start_def StartAsyncRead_def split: option.splits)

lemma handle_accept_inv:
  assumes "server_inv sv" "(p, OpAccept) \<in> set (pending sv)" "heap sv q = None \<or> error \<and> q = p"
  shows "case handle_accept p error ep q (take_op p OpAccept sv) of
    Running sv' \<Rightarrow> server_inv sv' | Terminated \<Rightarrow> True | Use_after_free \<Rightarrow> False"
proof -
  from server_inv_heap [OF assms(1,2)] obtain s where s: "heap sv p = Some s" by blast
  note run = take_op_inv [OF assms(1,2), simplified]
  have fresh: "heap (proceed p stp (take_op p OpAccept sv)) q = None"
    if "error \<Longrightarrow> stp = Deleted" for stp
    using assms(3) s that
    by (cases stp; cases "case stp of Waits s x \<Rightarrow> x | Deleted \<Rightarrow> AsyncRead")
      (auto simp: proceed_def take_op_def)
  have "server_inv (start_accept q (proceed p stp (take_op p OpAccept sv)))" if "error \<Longrightarrow> stp = Deleted" for stp
    using proceed_inv [OF run, of stp] fresh [OF that] by (intro start_accept_inv) auto
  then show ?thesis
    using s by (auto simp: handle_accept_def take_op_def split: outcome.split)
qed

lemma complete_inv:
  assumes "server_inv sv" "enabled c sv"
  shows "case complete site c sv of Running sv' \<Rightarrow> server_inv sv' | Terminated \<Rightarrow> True | Use_after_free \<Rightarrow> False"
proof (cases c)
  case (AcceptDone p error ep q)
  with assms handle_accept_inv [OF assms(1), of p q error ep] show ?thesis
    by (auto simp: enabled_def complete_def)
next
  case (ReadDone p w g error data)
  with assms(2) have op: "(p, OpReadSome) \<in> set (pending sv)" by (simp add: enabled_def)
  from server_inv_heap [OF assms(1) this] obtain s where s: "heap sv p = Some s" by blast
  note run = take_op_inv [OF assms(1) op, simplified]
  show ?thesis
  proof (cases "handle_read w site g error data s (server_stores sv)")
    case (Done x)
    obtain stp lines st where x: "x = (stp, lines, st)" by (cases x)
    have "running_inv p 1 ((take_op p OpReadSome sv)\<lparr>server_stores := st, metrics := metrics sv @ lines\<rparr>)"
      using run by (simp add: running_inv_def)
    from proceed_inv [OF this, of stp] show ?thesis
      using ReadDone s Done x by (simp add: complete_def server_inv_def)
  next
    case Exception
    with ReadDone s show ?thesis by (simp add: complete_def)
  next
    case Forever
    have "server_inv ((take_op p OpReadSome sv)\<lparr>stuck := insert p (stuck sv)\<rparr>)"
      using run by (auto simp: running_inv_def server_inv_def take_op_def)
    with ReadDone s Forever show ?thesis by (simp add: complete_def)
  qed
next
  case (WriteDone p error)
  with assms(2) have op: "(p, OpWriteAll) \<in> set (pending sv)" by (simp add: enabled_def)
  from server_inv_heap [OF assms(1) this] obtain s where s: "heap sv p = Some s" by blast
  note run = take_op_inv [OF assms(1) op, simplified]
  from proceed_inv [OF run, of "handle_write error s"] show ?thesis
    using WriteDone s by (simp add: complete_def server_inv_def)
qed

lemma reachable_inv:
  "reachable site st x \<Longrightarrow> (case x of Running sv \<Rightarrow> server_inv sv | Terminated \<Rightarrow> True | Use_after_free \<Rightarrow> False)"
proof (induction rule: reachable.induct)
  case (start q)
  show ?case by (simp add: server_inv_new)
next
  case (step x y)
  show ?case
  proof (cases x)
    case (Running sv)
    with step obtain c where "enabled c sv" "y = complete site c sv"
      by (auto elim: server_step_RunningE)
    with step.IH Running complete_inv show ?thesis by fastforce
  qed (use step in \<open>auto simp: server_step_Terminated server_step_freed\<close>)
qed

subsection \<open>The stored objects\<close>

lemma Persistent_inv:
  assumes "disk_inv disk" "IsValidEntityName e"
  shows "disk_inv (snd (Persistent_Read w e i disk))" "disk_inv (snd (Persistent_Update w e i d disk))"
    "disk_inv (snd (Persistent_Delete w e i disk))" "disk_inv (snd (Persistent_List w e disk))"
    "Persistent_Create w e d disk = Some (j, disk') \<Longrightarrow> disk_inv disk'"
proof -
  show "disk_inv (snd (Persistent_Read w e i disk))"
    using assms by (auto simp: persistent_defs split: option.split node.split prod.split)
  show "disk_inv (snd (Persistent_Update w e i d disk))"
  proof (cases "sint i < 0")
    case True
    with assms show ?thesis by (simp add: Persistent_Update_def)
  next
    case False
    then show ?thesis
      using persistent.update_inv [OF assms, of i w d] assms
      by (cases "Persistent_Update w e i d disk") (simp add: store_simps)
  qed
  show "disk_inv (snd (Persistent_Delete w e i disk))"
  proof (cases "sint i < 0")
    case True
    with assms show ?thesis by (simp add: Persistent_Delete_def)
  next
    case False
    then show ?thesis
      using persistent.delete_inv [OF assms, of i w] assms
      by (cases "Persistent_Delete w e i disk") (simp add: store_simps)
  qed
  show "disk_inv (snd (Persistent_List w e disk))"
    using persistent.list_state [OF assms, of w] by (cases "Persistent_List w e disk") (simp add: store_simps)
  show "Persistent_Create w e d disk = Some (j, disk') \<Longrightarrow> disk_inv disk'"
    using persistent.create_inv [OF assms, of w d j disk'] by (simp add: store_simps)
qed

lemma snd_inv: "f = (a, b) \<Longrightarrow> disk_inv (snd f) \<Longrightarrow> disk_inv b"
  by simp

lemma Api_disk_inv:
  assumes "disk_inv disk"
    and "Api_handle_request (Some (EntityStorePersistent w)) p json req disk = Done (resp, disk')"
  shows "disk_inv disk'"
proof (cases "api_accepts json (ExtractSegments p (url req)) req")
  case False
  from Api_rejects [OF this, of "EntityStorePersistent w" disk] assms show ?thesis by auto
next
  case True
  then show ?thesis
  proof (cases rule: Api_accepted [where 's = disk])
    case (1 e)
    with assms Persistent_inv(5) [OF assms(1) 1(1)] show ?thesis
      by (auto simp: HandlePost_def store_simps split: if_splits option.splits)
  next
    case (2 e)
    with assms snd_inv [OF _ Persistent_inv(4) [OF assms(1) 2(1)]] show ?thesis
      by (auto simp: HandleGet_def store_simps split: prod.splits)
  next
    case (3 e seg rest i)
    with assms snd_inv [OF _ Persistent_inv(1) [OF assms(1) 3(1)]] show ?thesis
      by (auto simp: HandleGet_def store_simps split: prod.splits option.splits)
  next
    case (4 e seg i)
    with assms snd_inv [OF _ Persistent_inv(2) [OF assms(1) 4(1)]] show ?thesis
      by (auto simp: HandlePut_def store_simps split: prod.splits bool.splits if_splits)
  next
    case (5 e seg i)
    with assms snd_inv [OF _ Persistent_inv(3) [OF assms(1) 5(1)]] show ?thesis
      by (auto simp: HandleDelete_def store_simps split: prod.splits bool.splits)
  qed
qed

definition stores_inv :: "stores \<Rightarrow> bool" where
  "stores_inv st \<longleftrightarrow> (\<forall>d. disk_inv (st d))"

lemma handle_request_stores:
  assumes "stores_inv st" "handle_request w h req st = Done (resp, st')"
  shows "stores_inv st'"
proof (cases h)
  case (ApiRequestHandler_on data_path p)
  with assms(2) obtain disk where
    api: "Api_handle_request (Some (EntityStorePersistent (o_io w))) p (o_json w) req (st data_path) = Done (resp, disk)"
    and st': "st' = st(data_path := disk)"
    by (auto simp: handle_request_def on_store_Done)
  have "disk_inv disk" using Api_disk_inv [OF _ api] assms(1) by (simp add: stores_inv_def)
  with st' assms(1) show ?thesis by (simp add: stores_inv_def)
qed (use assms in \<open>auto simp: handle_request_def Echo_handle_request_def Health_handle_request_def
      NotFound_handle_request_def Sleep_handle_request_def File_handle_request_def Let_def
      split: option.splits bool.splits\<close>)

lemma handle_read_stores:
  "stores_inv st \<Longrightarrow> handle_read w site g error data s st = Done (stp, lines, st') \<Longrightarrow> stores_inv st'"
  by (auto simp: handle_read_def respond_def answer_def Let_def handle_request_stores
      split: if_splits prod.splits bool.splits outcome.splits)

lemma complete_stores:
  assumes "stores_inv (server_stores sv)" "complete site c sv = Running sv'"
  shows "stores_inv (server_stores sv')"
proof -
  have keep: "server_stores (proceed p stp sv) = server_stores sv"
    "server_stores (start_accept q sv) = server_stores sv"
    "server_stores (take_op p x sv) = server_stores sv" for p stp q x sv
    by (auto simp: proceed_def start_accept_def take_op_def split: session_step.split async_op.split)
  show ?thesis
  proof (cases c)
    case (ReadDone p w g error data)
    with assms keep handle_read_stores show ?thesis
      by (auto simp: complete_def split: option.splits outcome.splits prod.splits)
  qed (use assms keep in \<open>auto simp: complete_def handle_accept_def split: option.splits outcome.splits if_splits\<close>)
qed

subsection \<open>Properties of the server\<close>

text \<open>
  C7: no reachable state of the server uses a deleted session, and in every
  reachable state in which it runs, each session in memory has exactly one operation in
  flight or is stuck in a handler, each operation in flight belongs to a session in memory,
  and exactly one accept is in flight. So no two handlers of a session ever run at the same
  time, no session is leaked while it waits, and the server never stops accepting.
\<close>

theorem Server_invariant:
  assumes "reachable site st x"
  shows "x \<noteq> Use_after_free \<and> (\<forall>sv. x = Running sv \<longrightarrow>
    distinct (map fst (pending sv)) \<and> dom (heap sv) = fst ` set (pending sv) \<union> stuck sv
    \<and> fst ` set (pending sv) \<inter> stuck sv = {} \<and> length (filter (\<lambda>y. snd y = OpAccept) (pending sv)) = 1)"
  using reachable_inv [OF assms] by (cases x) (simp_all add: server_inv_def accepts_def)

definition sample_run :: server where
  "sample_run = start_accept 1 (proceed 0 (Waits (new_session\<lparr>ip := ''10.0.0.1'', client_port := 5000\<rparr>) AsyncRead)
     (take_op 0 OpAccept (server_new 0 (\<lambda>_. []))))"

lemma sample_run_reachable: "reachable sample_site (\<lambda>_. []) (Running sample_run)"
proof -
  let ?c = "AcceptDone 0 False (Some (''10.0.0.1'', 5000)) 1"
  have "enabled ?c (server_new 0 (\<lambda>_. []))"
    by (simp add: enabled_def server_new_def start_accept_def)
  from server_step.complete [OF this] have
    "server_step sample_site (Running (server_new 0 (\<lambda>_. []))) (complete sample_site ?c (server_new 0 (\<lambda>_. [])))" .
  moreover have "complete sample_site ?c (server_new 0 (\<lambda>_. [])) = Running sample_run"
    by (simp add: complete_def handle_accept_def session_start_def StartAsyncRead_def sample_run_def
        take_op_def server_new_def start_accept_def)
  ultimately show ?thesis using reachable.start reachable.step by metis
qed

theorem Server_invariant_witness:
  "dom (heap sample_run) = fst ` set (pending sample_run) \<union> stuck sample_run"
  using Server_invariant [OF sample_run_reachable] by blast

text \<open>
  C35: the server never spoils its data directories. From directories in which
  every numeric file name is an object of the store, every run, with any file operations
  failing and any bytes from the clients, leaves directories of the same kind.
\<close>

theorem Server_stores_inv:
  assumes "reachable site st x" "\<forall>d. disk_inv (st d)"
  shows "\<forall>sv d. x = Running sv \<longrightarrow> disk_inv (server_stores sv d)"
  using assms(1)
proof (induction rule: reachable.induct)
  case (start q)
  with assms(2) show ?case by (simp add: server_new_def start_accept_def)
next
  case (step x y)
  show ?case
  proof (cases x)
    case (Running sv)
    with step.IH have "stores_inv (server_stores sv)" by (simp add: stores_inv_def)
    moreover obtain c where "y = complete site c sv"
      using step.hyps Running by (auto elim: server_step_RunningE)
    ultimately show ?thesis using complete_stores [of sv site c] by (auto simp: stores_inv_def)
  qed (use step in \<open>auto simp: server_step_Terminated server_step_freed\<close>)
qed

lemma empty_disk_inv: "disk_inv []"
  by (simp add: disk_inv_def dir_entries_def)

theorem Server_stores_inv_witness:
  "disk_inv (server_stores sample_run ''/data'')"
  using Server_stores_inv [OF sample_run_reachable] empty_disk_inv by blast

lemma Api_no_exception: "Api_handle_request (Some es) p json req s \<noteq> Exception"
  by (auto simp: Api_handle_request_def HandlePost_def split: list.split option.split)

lemma handle_request_exception:
  "handle_request w h req st = Exception \<longleftrightarrow>
   (\<exists>base pre. h = FileRequestHandler base pre
      \<and> fs_exists (o_fs w) (fs_join (o_fs w) base (relative_path pre (url req))) = None)"
proof (cases h)
  case (ApiRequestHandler_on d p)
  then show ?thesis
    using Api_no_exception [of "EntityStorePersistent (o_io w)" p "o_json w" req "st d"]
    by (auto simp: handle_request_def on_store_def split: outcome.splits)
next
  case (FileRequestHandler base pre)
  then show ?thesis
    by (auto simp: handle_request_def File_handle_request_def Let_def split: option.split bool.split)
qed (auto simp: handle_request_def Echo_handle_request_def Health_handle_request_def
      NotFound_handle_request_def Sleep_handle_request_def)

lemma respond_exception:
  "respond w site s req st = Exception \<longleftrightarrow> is_valid req \<and>
     (CreateHandler (site_factories site) (site_locations site) (url req) = Exception \<or>
      (\<exists>h. CreateHandler (site_factories site) (site_locations site) (url req) = Done h
         \<and> handle_request w h req st = Exception))"
  by (auto simp: respond_def answer_def Let_def split: outcome.splits)

lemma handle_read_exception:
  "handle_read w site g error data s st = Exception \<longleftrightarrow> \<not> error \<and>
     (\<exists>req. RequestParser_Parse (request_buffer s @ data) (fresh_request g) = (True, req)
        \<and> respond w site (s\<lparr>request_buffer := request_buffer s @ data\<rparr>) req st = Exception)"
  by (auto simp: handle_read_def Let_def split: prod.split bool.split)


text \<open>
  Such a run exists from the start of the server: one client that
  connects and disconnects again before its connection is started brings the server down.
\<close>

lemma Server_crash_by_client:
  "reachable site st Terminated"
proof -
  let ?c = "AcceptDone 0 False None 1"
  have "enabled ?c (server_new 0 st)"
    by (simp add: enabled_def server_new_def start_accept_def)
  from server_step.complete [OF this, of site] have
    "server_step site (Running (server_new 0 st)) (complete site ?c (server_new 0 st))" .
  moreover have "complete site ?c (server_new 0 st) = Terminated"
    by (simp add: complete_def handle_accept_def take_op_def session_start_def server_new_def start_accept_def)
  ultimately show ?thesis using reachable.start reachable.step by metis
qed

end
