(* ===== verification/Server_Traces.thy ===== *)
theory Server_Traces
  imports Server
begin

text \<open>
  Runs of the server as sequences of completions, and what they mean for one session: the
  bytes it has collected are those of its own reads, whatever happens to other sessions in
  between, and a request that is complete is answered.
\<close>

inductive server_run :: "site \<Rightarrow> server \<Rightarrow> completion list \<Rightarrow> server \<Rightarrow> bool" for site where
  stays: "server_run site sv [] sv"
| completes: "server_run site sv cs sv1 \<Longrightarrow> enabled c sv1 \<Longrightarrow> complete site c sv1 = Running sv2
     \<Longrightarrow> server_run site sv (cs @ [c]) sv2"

inductive_cases server_run_NilE: "server_run site sv [] sv'"

text \<open>The completions of one session, and the bytes its reads brought.\<close>

definition own :: "nat \<Rightarrow> completion \<Rightarrow> bool" where
  "own p c \<longleftrightarrow> fst (op_of c) = p"

definition bytes :: "completion \<Rightarrow> string" where
  "bytes c = (case c of ReadDone p w garbage error data \<Rightarrow> (if error then [] else data) | _ \<Rightarrow> [])"

definition received :: "nat \<Rightarrow> completion list \<Rightarrow> string" where
  "received p cs = concat (map bytes (filter (own p) cs))"

definition good_read :: "completion \<Rightarrow> bool" where
  "good_read c \<longleftrightarrow> (case c of ReadDone p w garbage error data \<Rightarrow> \<not> error | _ \<Rightarrow> False)"

subsection \<open>Lemmas\<close>

lemma server_run_inv: "server_run site sv cs sv' \<Longrightarrow> server_inv sv \<Longrightarrow> server_inv sv'"
proof (induction rule: server_run.induct)
  case (completes sv cs sv1 c sv2)
  then show ?case using complete_inv [of sv1 c site] by simp
qed

lemma proceed_other:
  "p' \<noteq> p \<Longrightarrow> heap (proceed p' stp sv) p = heap sv p
     \<and> ((p, x) \<in> set (pending (proceed p' stp sv)) \<longleftrightarrow> (p, x) \<in> set (pending sv))"
  by (auto simp: proceed_def split: session_step.split async_op.split)

lemma take_op_other:
  "p' \<noteq> p \<Longrightarrow> heap (take_op p' y sv) = heap sv
     \<and> ((p, x) \<in> set (pending (take_op p' y sv)) \<longleftrightarrow> (p, x) \<in> set (pending sv))"
  by (auto simp: take_op_def)

lemma start_accept_other:
  "q \<noteq> p \<Longrightarrow> heap (start_accept q sv) p = heap sv p
     \<and> ((p, x) \<in> set (pending (start_accept q sv)) \<longleftrightarrow> (p, x) \<in> set (pending sv))"
  by (auto simp: start_accept_def)

lemma complete_other:
  assumes "enabled c sv" "complete site c sv = Running sv'" "\<not> own p c" "heap sv p = Some s"
  shows "heap sv' p = Some s \<and> ((p, x) \<in> set (pending sv') \<longleftrightarrow> (p, x) \<in> set (pending sv))"
proof (cases c)
  case (AcceptDone p' error ep q)
  with assms(1,3,4) have "p' \<noteq> p" "q \<noteq> p" by (auto simp: enabled_def own_def op_of_def)
  with assms(2,4) AcceptDone show ?thesis
    by (auto simp: complete_def handle_accept_def proceed_other take_op_other start_accept_other
        split: option.splits outcome.splits if_splits)
next
  case (ReadDone p' w g error data)
  with assms(3) have "p' \<noteq> p" by (auto simp: own_def op_of_def)
  with assms(2,4) ReadDone show ?thesis
    by (auto simp: complete_def proceed_other take_op_other split: option.splits outcome.splits prod.splits)
next
  case (WriteDone p' error)
  with assms(3) have "p' \<noteq> p" by (auto simp: own_def op_of_def)
  with assms(2,4) WriteDone show ?thesis
    by (auto simp: complete_def proceed_other take_op_other split: option.splits)
qed

text \<open>A session collects its own bytes while its request is not complete.\<close>

lemma collects:
  assumes "server_run site sv cs sv'" "heap sv p = Some s" "(p, OpReadSome) \<in> set (pending sv)"
    and "\<forall>c\<in>set cs. own p c \<longrightarrow> good_read c"
    and "\<not> fst (RequestParser_Parse (request_buffer s @ received p cs) (fresh_request g))"
  shows "heap sv' p = Some (s\<lparr>request_buffer := request_buffer s @ received p cs\<rparr>) \<and> (p, OpReadSome) \<in> set (pending sv')"
  using assms
proof (induction rule: server_run.induct)
  case (stays sv)
  then show ?case by (simp add: received_def)
next
  case (completes sv cs sv1 c sv2)
  let ?s = "s\<lparr>request_buffer := request_buffer s @ received p cs\<rparr>"
  have rec: "received p (cs @ [c]) = received p cs @ (if own p c then bytes c else [])" by (simp add: received_def)
  have "\<not> fst (RequestParser_Parse (request_buffer s @ received p cs) (fresh_request g))"
    using completes.prems(4) incomplete_prefix [of "request_buffer s @ received p cs"] by (auto simp: rec split: if_splits)
  with completes have IH: "heap sv1 p = Some ?s" "(p, OpReadSome) \<in> set (pending sv1)" by auto
  show ?case
  proof (cases "own p c")
    case False
    with complete_other [OF completes.hyps(2,3) False IH(1)] IH(2) show ?thesis by (simp add: rec)
  next
    case True
    with completes.prems(3) obtain w g' data where c: "c = ReadDone p w g' False data"
      by (auto simp: good_read_def own_def op_of_def split: completion.splits)
    have grown: "received p (cs @ [c]) = received p cs @ data" using rec True by (simp add: c bytes_def)
    have "\<not> fst (RequestParser_Parse (request_buffer ?s @ data) (fresh_request g'))"
      using completes.prems(4) grown incomplete_prefix [of "request_buffer ?s @ data" "[]"] by simp
    from handle_read_incomplete [OF this] completes.hyps(3) IH(1) c True show ?thesis
      by (auto simp: complete_def grown [unfolded c] proceed_def own_def op_of_def)
  qed
qed

lemma next_unused_small: "length es < 2 ^ 32 \<Longrightarrow> next_unused (\<lambda>i. i \<in> set (entry_ids es)) 0 \<noteq> None"
proof -
  assume "length es < 2 ^ 32"
  with card_length [of "entry_ids es"] length_entry_ids [of es]
  have "card {i. i \<in> set (entry_ids es)} < 2 ^ 32" by simp
  from next_unused_ex [OF this, of 0] show ?thesis by auto
qed

definition small_directories :: "disk \<Rightarrow> bool" where
  "small_directories disk \<longleftrightarrow> (\<forall>e es. dir_entries disk e = Some es \<longrightarrow> length es < 2 ^ 32)"

lemma Create_returns:
  assumes "small_directories disk"
  shows "Persistent_Create w e d disk \<noteq> None"
proof (cases "EnsureEntityDirectory w e disk")
  case (Pair b disk1)
  then have "small_directories disk1"
    using assms
    by (auto simp: small_directories_def EnsureEntityDirectory_def dir_entries_set split: option.splits entry.splits if_splits)
  then have "iterate_ids w e disk1 = Some ids \<Longrightarrow> next_unused (\<lambda>i. i \<in> set ids) 0 \<noteq> None" for ids
    using next_unused_small by (auto simp: iterate_ids_def small_directories_def split: option.splits if_splits)
  with Pair show ?thesis
    by (auto simp: Persistent_Create_def Create_choose_def split: bool.splits option.splits)
qed

lemma Api_returns:
  "small_directories disk \<Longrightarrow> Api_handle_request (Some (EntityStorePersistent w)) p json req disk \<noteq> Forever"
  using Create_returns [of disk w]
  by (auto simp: Api_handle_request_def HandlePost_def HandleGet_def HandlePut_def HandleDelete_def store_simps
      split: list.split option.split prod.split if_splits bool.split) (metis option.distinct(1))+

lemma handle_request_returns:
  assumes "\<forall>d. small_directories (st d)"
  shows "handle_request w h req st \<noteq> Forever"
proof (cases h)
  case (ApiRequestHandler_on d p)
  then show ?thesis
    using Api_returns [of "st d" "o_io w" p "o_json w" req] assms
    by (auto simp: handle_request_def on_store_def split: outcome.splits)
qed (auto simp: handle_request_def Echo_handle_request_def Health_handle_request_def
      NotFound_handle_request_def Sleep_handle_request_def File_handle_request_def Let_def
      split: option.split bool.split)

section \<open>Properties of runs\<close>

text \<open>
  C9: requests are answered, and sessions do not disturb each other. While the
  reads of a session bring a request in any number of pieces, any completions of other
  sessions may come in between; when the last piece has come, the response to the request
  made of exactly its own bytes is being written, computed from the stores as they were at
  that moment, unless its handler never returns.
\<close>

theorem Server_answers:
  assumes "heap sv p = Some s" "(p, OpReadSome) \<in> set (pending sv)"
    and "server_run site sv (cs @ [ReadDone p w g False d]) sv'" "\<forall>c\<in>set cs. own p c \<longrightarrow> good_read c"
    and "\<not> fst (RequestParser_Parse (request_buffer s @ received p cs) (fresh_request g))"
    and "RequestParser_Parse (request_buffer s @ received p cs @ d) (fresh_request g) = (True, req)"
  shows "p \<in> stuck sv' \<or> (\<exists>mid s1 resp line s'. server_run site sv cs mid
    \<and> s1 = s\<lparr>request_buffer := request_buffer s @ received p cs @ d\<rparr>
    \<and> answer w site s1 req (server_stores mid) = Done (resp, line, server_stores sv')
    \<and> heap sv' p = Some s' \<and> response_bytes s' = SerializeResponse (Some resp)
    \<and> metrics sv' = metrics mid @ [line] \<and> (p, OpWriteAll) \<in> set (pending sv'))"
proof -
  let ?c = "ReadDone p w g False d"
  from assms(3) obtain mid where mid: "server_run site sv cs mid" "enabled ?c mid" "complete site ?c mid = Running sv'"
    by (cases rule: server_run.cases) auto
  let ?s = "s\<lparr>request_buffer := request_buffer s @ received p cs\<rparr>"
  let ?s1 = "s\<lparr>request_buffer := request_buffer s @ received p cs @ d\<rparr>"
  from collects [OF mid(1) assms(1,2,4,5)] have heap_p: "heap mid p = Some ?s" by simp
  have read: "handle_read w site g False d ?s (server_stores mid) = respond w site ?s1 req (server_stores mid)"
    using handle_read_complete [of ?s d g req w site] assms(6) by simp
  show ?thesis
  proof (cases "answer w site ?s1 req (server_stores mid)")
    case (Done x)
    obtain resp line st' where x: "x = (resp, line, st')" by (cases x)
    with Done read have "handle_read w site g False d ?s (server_stores mid)
        = Done (SendResponse (?s1\<lparr>response_bytes := SerializeResponse (Some resp)\<rparr>), [line], st')"
      by (simp add: respond_def)
    with mid(3) heap_p have sv': "sv' = proceed p (SendResponse (?s1\<lparr>response_bytes := SerializeResponse (Some resp)\<rparr>))
        ((take_op p OpReadSome mid)\<lparr>server_stores := st', metrics := metrics mid @ [line]\<rparr>)"
      by (simp add: complete_def)
    show ?thesis
      using mid(1) Done x by (intro disjI2 exI conjI) (auto simp: sv' proceed_def SendResponse_def)
  next
    case Exception
    with read mid(3) heap_p show ?thesis by (simp add: complete_def respond_def)
  next
    case Forever
    with read mid(3) heap_p show ?thesis by (auto simp: complete_def respond_def)
  qed
qed

text \<open>
  C19: no handler of a session hangs. Whatever the client sends and whatever
  calls into the file system fail, \<open>handle_read\<close> comes to an end as long as no directory of
  a data path has \<open>2 ^ 32\<close> entries; the one loop that could run forever is the search for an
  unused ID.
\<close>

theorem handle_read_returns:
  assumes "\<forall>data_path e es. dir_entries (st data_path) e = Some es \<longrightarrow> length es < 2 ^ 32"
  shows "handle_read w site g error data s st \<noteq> Forever"
proof -
  have "handle_request w h req st \<noteq> Forever" for h req
    using handle_request_returns assms by (simp add: small_directories_def)
  moreover have "CreateHandler reg locs u \<noteq> Forever" for reg locs u
    by (auto simp: CreateHandler_def Factory_Create_def Let_def split: option.split HandlerFactory.split)
  ultimately show ?thesis
    by (auto simp: handle_read_def respond_def answer_def Let_def split: prod.split bool.split outcome.split)
qed

theorem handle_read_returns_witness:
  "handle_read sample_outside sample_site True False ''GET'' new_session (\<lambda>_. sample_disk) \<noteq> Forever"
proof (rule handle_read_returns)
  show "\<forall>data_path e es. dir_entries sample_disk e = Some es \<longrightarrow> length es < 2 ^ 32"
    by (simp add: sample_disk_entries)
qed

theorem Server_answers_witness:
  "\<exists>sv'. server_run sample_site sample_run [ReadDone 0 sample_outside True False echo_text] sv'
     \<and> 0 \<notin> stuck sv' \<and> (0, OpWriteAll) \<in> set (pending sv')"
proof -
  let ?c = "ReadDone 0 sample_outside True False echo_text"
  let ?s = "new_session\<lparr>ip := ''10.0.0.1'', client_port := 5000\<rparr>"
  let ?r = "\<lparr>is_valid = True, raw_request = echo_text, rq_method = ''GET'', url = ''/echo'',
            rq_http_version = ''1.1'', rq_headers = [], rq_body = []\<rparr>"
  have s: "heap sample_run 0 = Some ?s" "(0, OpReadSome) \<in> set (pending sample_run)" "stuck sample_run = {}"
    by (simp_all add: sample_run_def proceed_def take_op_def start_accept_def server_new_def)
  have parsed: "RequestParser_Parse (request_buffer ?s @ received 0 [] @ echo_text) (fresh_request True) = (True, ?r)"
    using echo_text_parsed by (simp add: new_session_def received_def)
  have "RequestParser_Parse (request_buffer ?s @ echo_text) (fresh_request True) = (True, ?r)"
    using parsed by (simp add: received_def)
  from handle_read_complete [OF this, of sample_outside sample_site "server_stores sample_run"]
    respond_valid [of ?r sample_site EchoRequestHandler] sample_site_handlers(1)
  obtain s2 resp line where
    "handle_read sample_outside sample_site True False echo_text ?s (server_stores sample_run)
      = Done (Waits s2 (AsyncWrite resp), [line], server_stores sample_run)"
    by (simp add: handle_request_def Echo_handle_request_def) blast
  then obtain sv' where sv': "complete sample_site ?c sample_run = Running sv'" "stuck sv' = {}"
    using s by (auto simp: complete_def proceed_def take_op_def)
  have "0 < length echo_text \<and> length echo_text \<le> max_length"
    by (simp add: echo_text_def render_request_def max_length_def)
  then have "enabled ?c sample_run" using s(2) by (simp add: enabled_def)
  from server_run.completes [OF server_run.stays this sv'(1)]
  have run: "server_run sample_site sample_run ([] @ [?c]) sv'" by simp
  have "\<not> fst (RequestParser_Parse (request_buffer ?s @ received 0 []) (fresh_request True))"
    by (simp add: new_session_def received_def RequestParser_Parse_eq split: option.split)
  from Server_answers [OF s(1,2) run _ this parsed] sv'(2) have "(0, OpWriteAll) \<in> set (pending sv')" by auto
  with run sv'(2) show ?thesis by auto
qed

text \<open>A completion lets the buffer of a session grow, or deletes the session.\<close>

lemma complete_buffer:
  assumes "complete site c sv = Running sv'" "heap sv p = Some s" "\<nexists>q e ep. c = AcceptDone q e ep p"
  shows "heap sv' p = None \<or> (\<exists>s' more_bytes. heap sv' p = Some s' \<and> request_buffer s' = request_buffer s @ more_bytes)"
proof (cases c)
  case (AcceptDone p' error ep q)
  with assms show ?thesis
    by (auto simp: complete_def handle_accept_def proceed_def take_op_def start_accept_def session_start_def
        StartAsyncRead_def split: option.splits if_splits prod.splits)
next
  case (ReadDone p' w g error data)
  with assms show ?thesis
    by (auto simp: complete_def proceed_def take_op_def handle_read_def respond_def Let_def HandleError_def
        StartAsyncRead_def SendResponse_def
        split: option.splits outcome.splits prod.splits if_splits bool.splits session_step.splits async_op.splits)
next
  case (WriteDone p' error)
  with assms show ?thesis
    by (auto simp: complete_def proceed_def take_op_def handle_write_def HandleError_def StartAsyncRead_def
        split: option.splits if_splits)
qed

lemma complete_freed:
  assumes "complete site c sv = Running sv'" "heap sv p = None" "\<nexists>q e ep. c = AcceptDone q e ep p"
  shows "heap sv' p = None"
  using assms
  by (auto simp: complete_def handle_accept_def proceed_def take_op_def start_accept_def
      split: completion.splits option.splits outcome.splits prod.splits if_splits session_step.splits async_op.splits)

lemma run_buffer:
  assumes "server_run site sv cs sv'" "heap sv p = Some s" "\<forall>q e ep. AcceptDone q e ep p \<notin> set cs"
  shows "heap sv' p = None \<or> (\<exists>s' more_bytes. heap sv' p = Some s' \<and> request_buffer s' = request_buffer s @ more_bytes)"
  using assms
proof (induction rule: server_run.induct)
  case (completes sv cs sv1 c sv2)
  have c: "\<nexists>q e ep. c = AcceptDone q e ep p" using completes.prems(2) by auto
  show ?case
  proof (cases "heap sv1 p")
    case None
    with complete_freed [OF completes.hyps(3) None c] show ?thesis by simp
  next
    case (Some s1)
    with completes complete_buffer [OF completes.hyps(3) Some c] show ?thesis by fastforce
  qed
qed simp

text \<open>A client that sends \<^verbatim>\<open>x\<close> without end: its request is never complete.\<close>

lemma no_head: "\<not> fst (RequestParser_Parse (replicate n (CHR ''x'')) req)"
proof -
  have "str_find CRLFCRLF (replicate n (CHR ''x'')) = None"
  proof (rule ccontr)
    assume "str_find CRLFCRLF (replicate n (CHR ''x'')) \<noteq> None"
    then obtain k where "str_find CRLFCRLF (replicate n (CHR ''x'')) = Some k" by blast
    from str_find_SomeE(1) [OF this] obtain a b where "replicate n (CHR ''x'') = a @ CRLFCRLF @ b" by blast
    moreover have "CR \<in> set (a @ CRLFCRLF @ b)" by simp
    ultimately have "CR \<in> set (replicate n (CHR ''x''))" by metis
    then show False by simp
  qed
  then show ?thesis by (simp add: RequestParser_Parse_eq split: option.split)
qed

lemma feed:
  assumes "reachable site st (Running sv)" "heap sv p = Some s" "(p, OpReadSome) \<in> set (pending sv)"
    and "request_buffer s = replicate m (CHR ''x'')"
  shows "\<exists>sv' s'. reachable site st (Running sv') \<and> heap sv' p = Some s' \<and> (p, OpReadSome) \<in> set (pending sv')
    \<and> request_buffer s' = replicate (m + max_length) (CHR ''x'')"
proof -
  let ?d = "replicate max_length (CHR ''x'')"
  let ?c = "ReadDone p sample_outside True False ?d"
  have buf: "request_buffer s @ ?d = replicate (m + max_length) (CHR ''x'')"
    by (simp add: assms(4) replicate_add)
  have "\<not> fst (RequestParser_Parse (request_buffer s @ ?d) (fresh_request True))" unfolding buf by (rule no_head)
  from handle_read_incomplete [OF this] assms(2) buf
  obtain sv' where sv': "complete site ?c sv = Running sv'"
    "heap sv' p = Some (s\<lparr>request_buffer := replicate (m + max_length) (CHR ''x'')\<rparr>)" "(p, OpReadSome) \<in> set (pending sv')"
    by (auto simp: complete_def proceed_def)
  have "enabled ?c sv" using assms(3) by (simp add: enabled_def max_length_def)
  from reachable.step [OF assms(1) server_step.complete [OF this]] sv' show ?thesis by auto
qed

text \<open>The run that starts with one accepted connection.\<close>

lemma one_connection:
  "\<exists>sv s. reachable site st (Running sv) \<and> heap sv 0 = Some s \<and> (0, OpReadSome) \<in> set (pending sv)
    \<and> request_buffer s = []"
proof -
  let ?c = "AcceptDone 0 False (Some (''10.0.0.1'', 5000)) 1"
  have "enabled ?c (server_new 0 st)" by (simp add: enabled_def server_new_def start_accept_def)
  then have "reachable site st (complete site ?c (server_new 0 st))"
    by (intro reachable.step [OF reachable.start server_step.complete])
  then show ?thesis
    by (intro exI conjI) (auto simp: complete_def handle_accept_def session_start_def StartAsyncRead_def
        new_session_def proceed_def take_op_def server_new_def start_accept_def)
qed

text \<open>
  C30: nothing bounds the memory of a session. As long as a session
  lives, its buffer only grows, through answers and further requests; and from the start of
  the server a single client can make one as large as it likes, by sending bytes that never
  complete the head of a request.
\<close>

theorem Session_buffer_unbounded:
  "(server_run site sv cs sv' \<and> (\<forall>q e ep. AcceptDone q e ep p \<notin> set cs) \<and> heap sv p = Some s \<and> heap sv' p = Some s'
      \<longrightarrow> (\<exists>more_bytes. request_buffer s' = request_buffer s @ more_bytes))
   \<and> (\<exists>sv1 s1. reachable site st (Running sv1) \<and> heap sv1 0 = Some s1 \<and> N \<le> length (request_buffer s1))"
proof
  show "server_run site sv cs sv' \<and> (\<forall>q e ep. AcceptDone q e ep p \<notin> set cs) \<and> heap sv p = Some s \<and> heap sv' p = Some s'
      \<longrightarrow> (\<exists>more_bytes. request_buffer s' = request_buffer s @ more_bytes)"
    using run_buffer [of site sv cs sv' p s] by auto
  have "\<exists>sv1 s1. reachable site st (Running sv1) \<and> heap sv1 0 = Some s1 \<and> (0, OpReadSome) \<in> set (pending sv1)
    \<and> request_buffer s1 = replicate (max_length * N) (CHR ''x'')"
  proof (induction N)
    case 0
    then show ?case using one_connection by simp
  next
    case (Suc N)
    with feed [of site st _ 0 _ "max_length * N"] show ?case by (fastforce simp: add.commute)
  qed
  then show "\<exists>sv1 s1. reachable site st (Running sv1) \<and> heap sv1 0 = Some s1 \<and> N \<le> length (request_buffer s1)"
    by (fastforce simp: max_length_def)
qed

theorem Session_buffer_unbounded_witness:
  "\<exists>sv1 s1. reachable sample_site (\<lambda>_. []) (Running sv1) \<and> heap sv1 0 = Some s1 \<and> 1000000 \<le> length (request_buffer s1)
    \<and> (\<exists>more_bytes. request_buffer new_session = request_buffer new_session @ more_bytes)"
proof -
  have "server_run sample_site sample_run [] sample_run" by (rule server_run.stays)
  have s: "heap sample_run 1 = Some new_session"
    by (simp add: sample_run_def proceed_def take_op_def start_accept_def server_new_def)
  have "server_run sample_site sample_run [] sample_run \<and> (\<forall>q e ep. AcceptDone q e ep 1 \<notin> set [])
      \<and> heap sample_run 1 = Some new_session \<and> heap sample_run 1 = Some new_session"
    using server_run.stays s by simp
  with Session_buffer_unbounded [of sample_site sample_run "[]" sample_run 1 new_session new_session "\<lambda>_. []" 1000000]
  show ?thesis by blast
qed

end
