(* ===== verification/Store_Interleaving.thy ===== *)
theory Store_Interleaving
  imports Store_Persistent
begin

text \<open>
  The operations of the persistent store as several threads run them. \<^verbatim>\<open>EntityStorePersistent\<close>
  (\<^verbatim>\<open>src/entity_store_persistent.cc\<close>) holds no lock, and the handlers of different sessions
  run in parallel, so that the unit of interleaving is one call into the file system. Each
  operation is cut into stages at these calls; \<open>store_step\<close> is the code up to and including
  the next call.

  A stream writes at its own position: bytes written to a file that was opened, and so
  emptied, come to stand at its beginning, over what another stream has written there since.
  A file is known by its name: one that was removed after it was opened is written to in vain,
  and read as it was when it was opened.
\<close>

section \<open>Interleaving in general\<close>

text \<open>
  Threads, each with what the outside world does to it and its stage, take steps on common
  data in the order of a schedule of their numbers.
\<close>

fun interleave ::
  "('w \<Rightarrow> 's \<Rightarrow> 'd \<Rightarrow> 's \<times> 'd) \<Rightarrow> nat list \<Rightarrow> ('w \<times> 's) list \<Rightarrow> 'd \<Rightarrow> ('w \<times> 's) list \<times> 'd" where
  "interleave f [] ts d = (ts, d)"
| "interleave f (k # ks) ts d =
     (if k < length ts
      then (case f (fst (ts ! k)) (snd (ts ! k)) d of
              (s', d') \<Rightarrow> interleave f ks (ts[k := (fst (ts ! k), s')]) d')
      else interleave f ks ts d)"

definition turn :: "('w \<Rightarrow> 's \<Rightarrow> 'd \<Rightarrow> 's \<times> 'd) \<Rightarrow> 'w \<Rightarrow> 's \<times> 'd \<Rightarrow> 's \<times> 'd" where
  "turn f w x = f w (fst x) (snd x)"

lemma turns_Suc: "(turn f w ^^ Suc n) (s, d) = (turn f w ^^ n) (f w s d)"
  by (simp add: funpow_Suc_right turn_def del: funpow.simps)

text \<open>
  The contract of steps that keep to their region of the data: a step on \<open>good\<close> stages and
  \<open>ok\<close> data changes nothing the other regions can see, and depends on nothing outside its own.
\<close>

locale isolated_steps =
  fixes step :: "'w \<Rightarrow> 's \<Rightarrow> 'd \<Rightarrow> 's \<times> 'd"
    and region :: "'s \<Rightarrow> 'k" and view :: "'d \<Rightarrow> 'k \<Rightarrow> 'v"
    and good :: "'s \<Rightarrow> bool" and ok :: "'d \<Rightarrow> bool"
  assumes step_good: "good s \<Longrightarrow> good (fst (step w s d)) \<and> region (fst (step w s d)) = region s"
    and step_ok: "good s \<Longrightarrow> ok d \<Longrightarrow> ok (snd (step w s d))"
    and step_outside: "good s \<Longrightarrow> ok d \<Longrightarrow> k \<noteq> region s \<Longrightarrow> view (snd (step w s d)) k = view d k"
    and step_inside: "good s \<Longrightarrow> ok d \<Longrightarrow> ok d' \<Longrightarrow> view d (region s) = view d' (region s) \<Longrightarrow>
      fst (step w s d) = fst (step w s d') \<and> view (snd (step w s d)) (region s) = view (snd (step w s d')) (region s)"
begin

lemma turns_inside:
  assumes "good s" "ok d" "ok d'" "view d (region s) = view d' (region s)"
  shows "fst ((turn step w ^^ n) (s, d)) = fst ((turn step w ^^ n) (s, d'))
    \<and> view (snd ((turn step w ^^ n) (s, d))) (region s) = view (snd ((turn step w ^^ n) (s, d'))) (region s)"
  using assms
proof (induction n arbitrary: s d d')
  case (Suc n)
  obtain s1 d1 where 1: "step w s d = (s1, d1)" by fastforce
  obtain s2 d2 where 2: "step w s d' = (s2, d2)" by fastforce
  from step_inside [OF Suc.prems, of w] 1 2
  have eq: "s2 = s1" "view d1 (region s) = view d2 (region s)" by auto
  have "good s1" "region s1 = region s" using step_good [OF Suc.prems(1), of w d] 1 by auto
  moreover have "ok d1" "ok d2" using step_ok [OF Suc.prems(1)] Suc.prems(2,3) 1 2 by (metis snd_conv)+
  ultimately show ?case using Suc.IH [of s1 d1 d2] eq unfolding turns_Suc 1 2 by simp
qed simp

definition regions :: "('w \<times> 's) list \<Rightarrow> 'k list" where
  "regions ts = map (region \<circ> snd) ts"

text \<open>What one step of thread \<open>j\<close> keeps.\<close>

lemma thread_step:
  assumes "j < length ts" "ts ! j = (w, s)" "\<forall>t\<in>set ts. good (snd t)" "ok d" "step w s d = (s', d')"
  shows "regions (ts[j := (w, s')]) = regions ts" "\<forall>t\<in>set (ts[j := (w, s')]). good (snd t)" "ok d'" "good s"
proof -
  show s: "good s" using nth_mem [OF assms(1)] assms(2,3) by force
  from step_good [OF s, of w d] assms(5) have s': "good s'" "region s' = region s" by auto
  show "ok d'" using step_ok [OF s assms(4), of w] assms(5) by simp
  show "regions (ts[j := (w, s')]) = regions ts"
    using assms(1,2) s'(2) by (simp add: regions_def map_update list_update_same_conv)
  show "\<forall>t\<in>set (ts[j := (w, s')]). good (snd t)"
    using assms(3) s'(1) set_update_subset_insert [of ts j "(w, s')"] by auto
qed

text \<open>In any schedule every thread makes its own steps, as if it were alone.\<close>

lemma interleave_thread:
  assumes "distinct (regions ts)" "\<forall>t\<in>set ts. good (snd t)" "ok d" "k < length ts"
  shows "fst (interleave step ks ts d) ! k
      = (fst (ts ! k), fst ((turn step (fst (ts ! k)) ^^ count_list ks k) (snd (ts ! k), d)))
    \<and> view (snd (interleave step ks ts d)) (region (snd (ts ! k)))
      = view (snd ((turn step (fst (ts ! k)) ^^ count_list ks k) (snd (ts ! k), d))) (region (snd (ts ! k)))"
  using assms
proof (induction ks arbitrary: ts d)
  case (Cons j ks)
  show ?case
  proof (cases "j < length ts")
    case False
    with Cons show ?thesis by auto
  next
    case True
    obtain w s where j: "ts ! j = (w, s)" by fastforce
    obtain s' d' where s': "step w s d = (s', d')" by fastforce
    note keeps = thread_step [OF True j Cons.prems(2,3) s']
    let ?ts = "ts[j := (w, s')]"
    have "k < length ?ts" using Cons.prems(4) by simp
    note IH = Cons.IH [of ?ts d', unfolded keeps(1), OF Cons.prems(1) keeps(2,3) this]
    have next_state: "interleave step (j # ks) ts d = interleave step ks ?ts d'" using True j s' by simp
    show ?thesis
    proof (cases "j = k")
      case True
      have "count_list (k # ks) k = Suc (count_list ks k)" by simp
      with IH j s' Cons.prems(4) step_good [OF keeps(4), of w d] True show ?thesis
        unfolding next_state \<open>j = k\<close> by (simp add: turns_Suc del: funpow.simps)
    next
      case False
      obtain v r where k: "ts ! k = (v, r)" by fastforce
      have "region s \<noteq> region r"
        using nth_eq_iff_index_eq [OF Cons.prems(1), of j k] Cons.prems(4) True False j k by (simp add: regions_def)
      then have "view d' (region r) = view d (region r)"
        using step_outside [OF keeps(4) Cons.prems(3), of "region r" w] s' by simp
      moreover have "good r" using nth_mem [OF Cons.prems(4)] Cons.prems(2) k by force
      ultimately show ?thesis
        using turns_inside [where s = r and w = v and n = "count_list ks k", OF _ keeps(3) Cons.prems(3)] IH Cons.prems(4) False k
        unfolding next_state by simp
    qed
  qed
qed simp

lemma interleave_other:
  assumes "k \<notin> set (regions ts)" "\<forall>t\<in>set ts. good (snd t)" "ok d"
  shows "view (snd (interleave step ks ts d)) k = view d k"
  using assms
proof (induction ks arbitrary: ts d)
  case (Cons j ks)
  show ?case
  proof (cases "j < length ts")
    case False
    with Cons show ?thesis by auto
  next
    case True
    obtain w s where j: "ts ! j = (w, s)" by fastforce
    obtain s' d' where s': "step w s d = (s', d')" by fastforce
    note keeps = thread_step [OF True j Cons.prems(2,3) s']
    have "k \<noteq> region s" using Cons.prems(1) nth_mem [OF True] j by (force simp: regions_def)
    with Cons.IH [of "ts[j := (w, s')]" d'] Cons.prems keeps True j s' step_outside [OF keeps(4), of d k w]
    show ?thesis by simp
  qed
qed simp

lemma interleave_result:
  assumes "distinct (regions ts)" "\<forall>t\<in>set ts. good (snd t)" "ok d" "interleave step ks ts d = (ts', d')"
    and "k < length ts" "ts ! k = (w, s)" "(turn step w ^^ count_list ks k) (s, d) = (s1, d1)"
  shows "ts' ! k = (w, s1) \<and> view d' (region s) = view d1 (region s)"
  using interleave_thread [OF assms(1-3,5), of ks] assms(4,6,7) by simp

end

section \<open>The operations in stages\<close>

datatype call =
    CallCreate string string | CallRead string cint | CallUpdate string cint string
  | CallDelete string cint | CallList string

datatype reply =
    Created cint | CreateHangs | ReadReply "string option" | Updated bool | Removed bool | Listed "cint list"

datatype stage =
    Begin call
  | CreateScan string string
  | CreateOpen string cint string
  | CreateWrite string cint string
  | UpdateOpen string cint string
  | UpdateWrite string cint string
  | ReadBytes string cint string
  | ListScan string
  | Replied call reply

fun call_entity :: "call \<Rightarrow> string" where
  "call_entity (CallCreate e d) = e"
| "call_entity (CallRead e i) = e"
| "call_entity (CallUpdate e i d) = e"
| "call_entity (CallDelete e i) = e"
| "call_entity (CallList e) = e"

text \<open>The operation a stage belongs to.\<close>

fun stage_call :: "stage \<Rightarrow> call" where
  "stage_call (Begin c) = c"
| "stage_call (CreateScan e d) = CallCreate e d"
| "stage_call (CreateOpen e i d) = CallCreate e d"
| "stage_call (CreateWrite e i d) = CallCreate e d"
| "stage_call (UpdateOpen e i d) = CallUpdate e i d"
| "stage_call (UpdateWrite e i d) = CallUpdate e i d"
| "stage_call (ReadBytes e i d) = CallRead e i"
| "stage_call (ListScan e) = CallList e"
| "stage_call (Replied c r) = c"

text \<open>Opening with \<^verbatim>\<open>trunc\<close>, then \<^verbatim>\<open>output << data\<close> and \<^verbatim>\<open>close\<close>: the two halves of \<open>write_file\<close>.\<close>

definition open_trunc :: "io \<Rightarrow> string \<times> string \<Rightarrow> disk \<Rightarrow> bool \<times> disk" where
  "open_trunc w path disk =
     (case path of (e, name) \<Rightarrow>
        (case dir_entries disk e of
           None \<Rightarrow> (False, disk)
         | Some es \<Rightarrow>
             if \<not> io_open_write w e name \<or> map_of es name = Some OtherFile then (False, disk)
             else (True, set_entries e (AList.update name (RegularFile []) es) disk)))"

definition overwrite :: "string \<Rightarrow> string \<Rightarrow> string" where
  "overwrite data old = data @ drop (length data) old"

definition write_close :: "io \<Rightarrow> string \<times> string \<Rightarrow> string \<Rightarrow> disk \<Rightarrow> bool \<times> disk" where
  "write_close w path data disk =
     (case path of (e, name) \<Rightarrow>
        let (ok, bytes) = (case io_write w e name of None \<Rightarrow> (True, data) | Some n \<Rightarrow> (False, take n data))
        in (ok, (case dir_entries disk e of
                   None \<Rightarrow> disk
                 | Some es \<Rightarrow>
                     (case map_of es name of
                        Some (RegularFile old) \<Rightarrow>
                          set_entries e (AList.update name (RegularFile (overwrite bytes old)) es) disk
                      | _ \<Rightarrow> disk))))"

fun store_step :: "io \<Rightarrow> stage \<Rightarrow> disk \<Rightarrow> stage \<times> disk" where
  "store_step w (Begin (CallCreate e d)) disk =
     (if \<not> IsValidEntityName e then (Replied (CallCreate e d) (Created (-1)), disk)
      else (case EnsureEntityDirectory w e disk of
              (False, disk1) \<Rightarrow> (Replied (CallCreate e d) (Created (-1)), disk1)
            | (True, disk1) \<Rightarrow> (CreateScan e d, disk1)))"
| "store_step w (CreateScan e d) disk =
     (case iterate_ids w e disk of
        None \<Rightarrow> (Replied (CallCreate e d) (Created (-1)), disk)
      | Some ids \<Rightarrow>
          (case next_unused (\<lambda>i. i \<in> set ids) 0 of
             None \<Rightarrow> (Replied (CallCreate e d) CreateHangs, disk)
           | Some i \<Rightarrow> (CreateOpen e i d, disk)))"
| "store_step w (CreateOpen e i d) disk =
     (case open_trunc w (EntityFilePath e i) disk of
        (False, disk1) \<Rightarrow> (Replied (CallCreate e d) (Created (-1)), disk1)
      | (True, disk1) \<Rightarrow> (CreateWrite e i d, disk1))"
| "store_step w (CreateWrite e i d) disk =
     (case write_close w (EntityFilePath e i) d disk of
        (ok, disk1) \<Rightarrow> (Replied (CallCreate e d) (Created (if ok then i else -1)), disk1))"
| "store_step w (Begin (CallUpdate e i d)) disk =
     (if sint i < 0 \<or> \<not> IsValidEntityName e then (Replied (CallUpdate e i d) (Updated False), disk)
      else (case EnsureEntityDirectory w e disk of
              (False, disk1) \<Rightarrow> (Replied (CallUpdate e i d) (Updated False), disk1)
            | (True, disk1) \<Rightarrow> (UpdateOpen e i d, disk1)))"
| "store_step w (UpdateOpen e i d) disk =
     (case open_trunc w (EntityFilePath e i) disk of
        (False, disk1) \<Rightarrow> (Replied (CallUpdate e i d) (Updated False), disk1)
      | (True, disk1) \<Rightarrow> (UpdateWrite e i d, disk1))"
| "store_step w (UpdateWrite e i d) disk =
     (case write_close w (EntityFilePath e i) d disk of
        (ok, disk1) \<Rightarrow> (Replied (CallUpdate e i d) (Updated ok), disk1))"
| "store_step w (Begin (CallRead e i)) disk =
     (case Persistent_Read w e i disk of
        (None, disk1) \<Rightarrow> (Replied (CallRead e i) (ReadReply None), disk1)
      | (Some d, disk1) \<Rightarrow> (ReadBytes e i d, disk1))"
| "store_step w (ReadBytes e i d) disk =
     (case disk_abs disk e i of
        None \<Rightarrow> (Replied (CallRead e i) (ReadReply (Some d)), disk)
      | Some d' \<Rightarrow> (Replied (CallRead e i) (ReadReply (Some d')), disk))"
| "store_step w (Begin (CallDelete e i)) disk =
     (case Persistent_Delete w e i disk of (b, disk1) \<Rightarrow> (Replied (CallDelete e i) (Removed b), disk1))"
| "store_step w (Begin (CallList e)) disk =
     (if \<not> IsValidEntityName e then (Replied (CallList e) (Listed []), disk)
      else if map_of disk e = None \<or> \<not> io_status w e then (Replied (CallList e) (Listed []), disk)
      else (ListScan e, disk))"
| "store_step w (ListScan e) disk =
     (case iterate_ids w e disk of
        None \<Rightarrow> (Replied (CallList e) (Listed []), disk)
      | Some ids \<Rightarrow> (Replied (CallList e) (Listed (sort_key sint ids)), disk))"
| "store_step w (Replied c r) disk = (Replied c r, disk)"

text \<open>The operation as a whole, as \<open>Store_Persistent\<close> has it.\<close>

fun atomic :: "io \<Rightarrow> call \<Rightarrow> disk \<Rightarrow> reply \<times> disk" where
  "atomic w (CallCreate e d) disk =
     (case Persistent_Create w e d disk of
        None \<Rightarrow> (CreateHangs, snd (Create_choose w e disk))
      | Some (i, disk1) \<Rightarrow> (Created i, disk1))"
| "atomic w (CallRead e i) disk = (case Persistent_Read w e i disk of (r, disk1) \<Rightarrow> (ReadReply r, disk1))"
| "atomic w (CallUpdate e i d) disk = (case Persistent_Update w e i d disk of (b, disk1) \<Rightarrow> (Updated b, disk1))"
| "atomic w (CallDelete e i) disk = (case Persistent_Delete w e i disk of (b, disk1) \<Rightarrow> (Removed b, disk1))"
| "atomic w (CallList e) disk = (case Persistent_List w e disk of (ids, disk1) \<Rightarrow> (Listed ids, disk1))"

subsection \<open>One operation alone\<close>

lemma turn_Replied: "(turn store_step w ^^ n) (Replied c r, disk) = (Replied c r, disk)"
  by (induction n) (simp_all add: turn_def)

lemma update_twice [simp]: "AList.update k v (AList.update k v' al) = AList.update k v al"
  by (induction al) auto

lemma overwrite_Nil [simp]: "overwrite d [] = d"
  by (simp add: overwrite_def)

lemma set_entries_twice [simp]: "set_entries e es (set_entries e es' disk) = set_entries e es disk"
  by (simp add: set_entries_def)

lemma open_then_write:
  "write_file w path d disk =
     (case open_trunc w path disk of (False, disk1) \<Rightarrow> (False, disk1) | (True, disk1) \<Rightarrow> write_close w path d disk1)"
  by (auto simp: write_file_def open_trunc_def write_close_def dir_entries_set update_conv' Let_def
      split: prod.split option.split)

lemma four_turns: "(turn f w ^^ 4) x = turn f w (turn f w (turn f w (turn f w x)))"
  by (simp add: eval_nat_numeral)

lemma alone: "(turn store_step w ^^ 4) (Begin c, disk) = (Replied c (fst (atomic w c disk)), snd (atomic w c disk))"
proof (cases c)
  case (CallCreate e d)
  have choose: "Persistent_Create w e d disk = (case Create_choose w e disk of
      (Refused, disk1) \<Rightarrow> Some (-1, disk1) | (Endless, disk1) \<Rightarrow> None | (Chosen i, disk1) \<Rightarrow> Some (Create_store w e i d disk1))"
    by (rule Persistent_Create_def)
  show ?thesis
  proof (cases "IsValidEntityName e \<and> fst (EnsureEntityDirectory w e disk)")
    case False
    with CallCreate show ?thesis
      unfolding four_turns by (auto simp: turn_def choose Create_choose_def split: prod.split bool.split)
  next
    case True
    then obtain disk1 where d1: "EnsureEntityDirectory w e disk = (True, disk1)" by (metis prod.collapse)
    show ?thesis
    proof (cases "iterate_ids w e disk1")
      case None
      with True d1 CallCreate show ?thesis
        unfolding four_turns by (simp add: turn_def choose Create_choose_def)
    next
      case (Some ids)
      with True d1 CallCreate show ?thesis
        unfolding four_turns
        by (auto simp: turn_def choose Create_choose_def Create_store_def open_then_write split: option.split prod.split bool.split)
    qed
  qed
next
  case (CallRead e i)
  have read: "Persistent_Read w e i disk = (r, disk1) \<Longrightarrow> disk1 = disk \<and> (\<forall>d. r = Some d \<longrightarrow> disk_abs disk e i = Some d)" for r disk1
    by (auto simp: Persistent_Read_def disk_abs_def EntityFilePath_def split: if_splits option.splits node.splits)
  show ?thesis
  proof (cases "Persistent_Read w e i disk")
    case (Pair r disk1)
    with read [OF Pair] CallRead show ?thesis
      unfolding four_turns by (cases r) (simp_all add: turn_def)
  qed
next
  case (CallUpdate e i d)
  then show ?thesis
    unfolding four_turns
    by (auto simp: turn_def Persistent_Update_def open_then_write split: prod.split bool.split)
next
  case (CallDelete e i)
  then show ?thesis unfolding four_turns by (simp add: turn_def split: prod.split)
next
  case (CallList e)
  then show ?thesis
    unfolding four_turns by (auto simp: turn_def Persistent_List_def split: option.split)
qed

subsection \<open>Each operation keeps to its entity\<close>

lemma dir_entries_cong: "map_of disk e = map_of disk' e \<Longrightarrow> dir_entries disk e = dir_entries disk' e"
  by (simp add: dir_entries_def)

lemma map_of_set_entries: "map_of (set_entries e es disk) = (map_of disk)(e \<mapsto> Directory es)"
  by (simp add: set_entries_def update_conv')

lemmas step_defs = EnsureEntityDirectory_def open_trunc_def write_close_def Persistent_Read_def
  Persistent_Delete_def iterate_ids_def EntityFilePath_def disk_abs_def Let_def

lemmas step_splits = prod.splits bool.splits option.splits node.splits entry.splits if_splits

lemma step_call: "stage_call (fst (store_step w s disk)) = stage_call s"
  by (induction w s disk rule: store_step.induct) (auto split: prod.split bool.split option.split)

lemma step_entity_outside:
  "e \<noteq> call_entity (stage_call s) \<Longrightarrow> map_of (snd (store_step w s disk)) e = map_of disk e"
  by (induction w s disk rule: store_step.induct) (auto simp: step_defs map_of_set_entries split: step_splits)

lemma step_entity_inside:
  assumes "map_of disk (call_entity (stage_call s)) = map_of disk' (call_entity (stage_call s))"
  shows "fst (store_step w s disk) = fst (store_step w s disk')
    \<and> map_of (snd (store_step w s disk)) (call_entity (stage_call s))
      = map_of (snd (store_step w s disk')) (call_entity (stage_call s))"
  using assms dir_entries_cong [OF assms]
  by (induction w s disk rule: store_step.induct) (auto simp: step_defs map_of_set_entries split: step_splits)

interpretation by_entity: isolated_steps store_step "\<lambda>s. call_entity (stage_call s)" map_of "\<lambda>_. True" "\<lambda>_. True"
proof
  fix w s k and d d' :: disk
  show "True \<and> call_entity (stage_call (fst (store_step w s d))) = call_entity (stage_call s)"
    by (simp add: step_call)
  show "k \<noteq> call_entity (stage_call s) \<Longrightarrow> map_of (snd (store_step w s d)) k = map_of d k"
    by (rule step_entity_outside)
  show "map_of d (call_entity (stage_call s)) = map_of d' (call_entity (stage_call s)) \<Longrightarrow>
      fst (store_step w s d) = fst (store_step w s d')
      \<and> map_of (snd (store_step w s d)) (call_entity (stage_call s))
        = map_of (snd (store_step w s d')) (call_entity (stage_call s))"
    by (rule step_entity_inside)
qed simp

subsection \<open>Reads, updates and deletes keep to their object\<close>

text \<open>
  In directories that exist already, these three see and change one file only. The region
  is the name of the entity and the ID, and the view is the file of that name.
\<close>

fun call_object :: "call \<Rightarrow> string \<times> cint" where
  "call_object (CallCreate e d) = (e, 0)"
| "call_object (CallRead e i) = (e, i)"
| "call_object (CallUpdate e i d) = (e, i)"
| "call_object (CallDelete e i) = (e, i)"
| "call_object (CallList e) = (e, 0)"

fun on_object :: "string set \<Rightarrow> call \<Rightarrow> bool" where
  "on_object es (CallRead e i) \<longleftrightarrow> e \<in> es"
| "on_object es (CallUpdate e i d) \<longleftrightarrow> e \<in> es"
| "on_object es (CallDelete e i) \<longleftrightarrow> e \<in> es"
| "on_object es _ \<longleftrightarrow> False"

definition file_of :: "disk \<Rightarrow> string \<times> cint \<Rightarrow> node option" where
  "file_of disk k = (case dir_entries disk (fst k) of None \<Rightarrow> None | Some es \<Rightarrow> map_of es (to_string (snd k)))"

definition has_dirs :: "string set \<Rightarrow> disk \<Rightarrow> bool" where
  "has_dirs es disk \<longleftrightarrow> (\<forall>e\<in>es. dir_entries disk e \<noteq> None)"

lemma has_dirs_ensure:
  "has_dirs es disk \<Longrightarrow> e \<in> es \<Longrightarrow> EnsureEntityDirectory w e disk = (True, disk)"
  by (auto simp: has_dirs_def dir_entries_def EnsureEntityDirectory_def split: option.splits entry.splits)

lemma has_dirs_set: "has_dirs es disk \<Longrightarrow> has_dirs es (set_entries e xs disk)"
  by (simp add: has_dirs_def dir_entries_set)

lemma file_of_set:
  "file_of (set_entries e xs disk) (e', i) = (if e' = e then map_of xs (to_string i) else file_of disk (e', i))"
  by (simp add: file_of_def dir_entries_set)

text \<open>The calls into the file system on the file of an object, by its view.\<close>

lemma open_trunc_file:
  assumes "has_dirs es disk" "e \<in> es"
  shows "fst (open_trunc w (e, to_string i) disk)
      \<longleftrightarrow> io_open_write w e (to_string i) \<and> file_of disk (e, i) \<noteq> Some OtherFile"
    and "file_of (snd (open_trunc w (e, to_string i) disk)) =
      (if fst (open_trunc w (e, to_string i) disk) then (file_of disk)((e, i) \<mapsto> RegularFile []) else file_of disk)"
    and "has_dirs es (snd (open_trunc w (e, to_string i) disk))"
  using assms
  by (auto simp: has_dirs_def open_trunc_def file_of_def fun_eq_iff dir_entries_set update_conv' to_string_inject
      split: option.splits)

lemma write_close_file:
  assumes "has_dirs es disk" "e \<in> es"
  shows "fst (write_close w (e, to_string i) d disk) \<longleftrightarrow> io_write w e (to_string i) = None"
    and "file_of (snd (write_close w (e, to_string i) d disk)) =
      (case file_of disk (e, i) of
         Some (RegularFile old) \<Rightarrow> (file_of disk)((e, i) \<mapsto> RegularFile (overwrite
           (case io_write w e (to_string i) of None \<Rightarrow> d | Some n \<Rightarrow> take n d) old))
       | _ \<Rightarrow> file_of disk)"
    and "has_dirs es (snd (write_close w (e, to_string i) d disk))"
proof -
  obtain xs where xs: "dir_entries disk e = Some xs" using assms by (auto simp: has_dirs_def)
  let ?new = "case io_write w e (to_string i) of None \<Rightarrow> d | Some n \<Rightarrow> take n d"
  have eq: "write_close w (e, to_string i) d disk = (io_write w e (to_string i) = None,
      case map_of xs (to_string i) of
        Some (RegularFile old) \<Rightarrow> set_entries e (AList.update (to_string i) (RegularFile (overwrite ?new old)) xs) disk
      | _ \<Rightarrow> disk)"
    by (cases "io_write w e (to_string i)") (simp_all add: write_close_def xs Let_def split: option.split node.split)
  show "fst (write_close w (e, to_string i) d disk) \<longleftrightarrow> io_write w e (to_string i) = None" by (simp add: eq)
  have here: "file_of disk (e, i) = map_of xs (to_string i)" by (simp add: file_of_def xs)
  have set: "file_of (set_entries e (AList.update (to_string i) x xs) disk) = (file_of disk)((e, i) \<mapsto> x)" for x
    by (auto simp: fun_eq_iff file_of_set update_conv' to_string_inject) (simp_all add: file_of_def xs)
  show "file_of (snd (write_close w (e, to_string i) d disk)) =
      (case file_of disk (e, i) of
         Some (RegularFile old) \<Rightarrow> (file_of disk)((e, i) \<mapsto> RegularFile (overwrite ?new old))
       | _ \<Rightarrow> file_of disk)"
    unfolding eq snd_conv here by (simp add: set split: option.split node.split)
  show "has_dirs es (snd (write_close w (e, to_string i) d disk))"
    unfolding eq snd_conv using has_dirs_set assms(1) by (simp split: option.split node.split)
qed

lemma Read_file:
  assumes "has_dirs es disk" "e \<in> es"
  shows "Persistent_Read w e i disk =
    ((case file_of disk (e, i) of
        Some (RegularFile d) \<Rightarrow> if 0 \<le> sint i \<and> IsValidEntityName e \<and> io_open_read w e (to_string i) then Some d else None
      | _ \<Rightarrow> None), disk)"
  using assms
  by (auto simp: has_dirs_def Persistent_Read_def file_of_def EntityFilePath_def split: option.splits node.splits)

lemma Delete_file:
  assumes "has_dirs es disk" "e \<in> es"
  shows "fst (Persistent_Delete w e i disk) \<longleftrightarrow>
      0 \<le> sint i \<and> IsValidEntityName e \<and> io_remove w e (to_string i) \<and> file_of disk (e, i) \<noteq> None"
    and "file_of (snd (Persistent_Delete w e i disk)) =
      (if fst (Persistent_Delete w e i disk) then (file_of disk)((e, i) := None) else file_of disk)"
    and "has_dirs es (snd (Persistent_Delete w e i disk))"
  using assms
  by (auto simp: has_dirs_def Persistent_Delete_def file_of_def EntityFilePath_def fun_eq_iff dir_entries_set
      delete_conv' to_string_inject split: option.splits)

lemma disk_abs_file:
  "disk_abs disk e i = (if sint i < 0 then None else case file_of disk (e, i) of Some (RegularFile d) \<Rightarrow> Some d | _ \<Rightarrow> None)"
  by (auto simp: disk_abs_def file_of_def split: option.splits)

lemma step_object:
  assumes "on_object es (stage_call s)" "has_dirs es disk"
  shows "has_dirs es (snd (store_step w s disk))
    \<and> (k \<noteq> call_object (stage_call s) \<longrightarrow> file_of (snd (store_step w s disk)) k = file_of disk k)"
proof (cases s)
  case (Begin c)
  show ?thesis
  proof (cases c)
    case (CallRead e i)
    with assms Begin Read_file [OF assms(2), of e w i] show ?thesis by (auto split: option.split)
  next
    case (CallUpdate e i d)
    with assms Begin has_dirs_ensure [OF assms(2), of e w] show ?thesis by auto
  next
    case (CallDelete e i)
    with assms Begin Delete_file [OF assms(2), of e w i] show ?thesis by (simp add: case_prod_beta)
  qed (use assms Begin in auto)
next
  case (UpdateOpen e i d)
  with assms show ?thesis
    using open_trunc_file [OF assms(2), of e w i]
    by (cases "open_trunc w (e, to_string i) disk") (auto simp: EntityFilePath_def split: bool.split if_splits)
next
  case (UpdateWrite e i d)
  with assms show ?thesis
    using write_close_file [OF assms(2), of e w i d]
    by (cases "write_close w (e, to_string i) d disk") (auto simp: EntityFilePath_def split: option.splits node.splits)
qed (use assms in \<open>auto split: option.split\<close>)

lemma step_object_inside:
  assumes "on_object es (stage_call s)" "has_dirs es disk" "has_dirs es disk'"
    and "file_of disk (call_object (stage_call s)) = file_of disk' (call_object (stage_call s))"
  shows "fst (store_step w s disk) = fst (store_step w s disk')
    \<and> file_of (snd (store_step w s disk)) (call_object (stage_call s))
      = file_of (snd (store_step w s disk')) (call_object (stage_call s))"
proof (cases s)
  case (Begin c)
  show ?thesis
  proof (cases c)
    case (CallRead e i)
    with assms Begin Read_file [OF assms(2), of e w i] Read_file [OF assms(3), of e w i] show ?thesis
      by (auto split: option.split)
  next
    case (CallUpdate e i d)
    with assms Begin has_dirs_ensure [OF assms(2), of e w] has_dirs_ensure [OF assms(3), of e w] show ?thesis by auto
  next
    case (CallDelete e i)
    then have e: "e \<in> es" using assms(1) Begin by simp
    note d = Delete_file [OF assms(2) e, of w i] Delete_file [OF assms(3) e, of w i]
    have eq: "fst (Persistent_Delete w e i disk) = fst (Persistent_Delete w e i disk')"
      unfolding d(1) d(4) using assms(4) CallDelete Begin by simp
    show ?thesis
      using d(2,5) eq assms(4) CallDelete Begin
      by (simp add: case_prod_beta split: if_splits)
  qed (use assms Begin in auto)
next
  case (UpdateOpen e i d)
  then have e: "e \<in> es" using assms(1) by simp
  note o = open_trunc_file [OF assms(2) e, of w i] open_trunc_file [OF assms(3) e, of w i]
  have eq: "fst (open_trunc w (e, to_string i) disk) = fst (open_trunc w (e, to_string i) disk')"
    unfolding o(1) o(4) using assms(4) UpdateOpen by simp
  show ?thesis
    using o(2,5) eq assms(4) UpdateOpen
    by (cases "open_trunc w (e, to_string i) disk"; cases "open_trunc w (e, to_string i) disk'")
      (auto simp: EntityFilePath_def split: if_splits bool.split)
next
  case (UpdateWrite e i d)
  then have e: "e \<in> es" using assms(1) by simp
  note o = write_close_file [OF assms(2) e, of w i d] write_close_file [OF assms(3) e, of w i d]
  show ?thesis
    using o assms(4) UpdateWrite
    by (cases "write_close w (e, to_string i) d disk"; cases "write_close w (e, to_string i) d disk'")
      (auto simp: EntityFilePath_def split: option.splits node.splits)
next
  case (ReadBytes e i d)
  with assms(4) show ?thesis by (auto simp: disk_abs_file split: option.split node.split)
qed (use assms in auto)

interpretation by_object: isolated_steps store_step "\<lambda>s. call_object (stage_call s)" file_of
  "\<lambda>s. on_object es (stage_call s)" "has_dirs es" for es
proof
  fix w s k and d d' :: disk
  assume s: "on_object es (stage_call s)"
  show "on_object es (stage_call (fst (store_step w s d)))
      \<and> call_object (stage_call (fst (store_step w s d))) = call_object (stage_call s)"
    using s by (simp add: step_call)
  assume d: "has_dirs es d"
  show "has_dirs es (snd (store_step w s d))"
    "k \<noteq> call_object (stage_call s) \<Longrightarrow> file_of (snd (store_step w s d)) k = file_of d k"
    using step_object [OF s d] by auto
  show "has_dirs es d' \<Longrightarrow> file_of d (call_object (stage_call s)) = file_of d' (call_object (stage_call s)) \<Longrightarrow>
      fst (store_step w s d) = fst (store_step w s d')
      \<and> file_of (snd (store_step w s d)) (call_object (stage_call s))
        = file_of (snd (store_step w s d')) (call_object (stage_call s))"
    by (rule step_object_inside [OF s d])
qed


lemma enough_turns:
  assumes "4 \<le> n"
  shows "(turn store_step w ^^ n) (Begin c, disk) = (Replied c (fst (atomic w c disk)), snd (atomic w c disk))"
proof -
  have "(turn store_step w ^^ n) (Begin c, disk)
      = (turn store_step w ^^ (n - 4)) ((turn store_step w ^^ 4) (Begin c, disk))"
    using assms by (simp flip: comp_apply [of "turn store_step w ^^ (n - 4)"] funpow_add)
  then show ?thesis unfolding alone turn_Replied .
qed

section \<open>Properties of operations in parallel\<close>

text \<open>
  Operations on different entities do not interfere. However the calls
  into the file system of any number of operations are interleaved, if no two are on the
  same entity and each gets the turns it needs, each returns what it would return if it ran
  as a whole and alone, each leaves in its entity the objects it would leave then, and all
  other entities are as before. For such requests a handler may be taken as one step, as
  \<open>Server\<close> does.
\<close>

lemma Store_isolation:
  assumes "distinct (map (call_entity \<circ> snd) ops)" "\<forall>k<length ops. 4 \<le> count_list ks k"
    and "interleave store_step ks (map (\<lambda>(w, c). (w, Begin c)) ops) disk = (ts, disk')"
  shows "(\<forall>k<length ops. let (w, c) = ops ! k in
      ts ! k = (w, Replied c (fst (atomic w c disk)))
      \<and> disk_abs disk' (call_entity c) = disk_abs (snd (atomic w c disk)) (call_entity c))
    \<and> (\<forall>e. e \<notin> call_entity ` snd ` set ops \<longrightarrow> disk_abs disk' e = disk_abs disk e)"
proof -
  let ?ts = "map (\<lambda>(w, c). (w, Begin c)) ops"
  have ents: "by_entity.regions ?ts = map (call_entity \<circ> snd) ops" by (auto simp: by_entity.regions_def)
  then have dist: "distinct (by_entity.regions ?ts)" using assms(1) by simp
  have abs: "disk_abs x e = disk_abs y e" if "map_of x e = map_of y e" for x y e
    using dir_entries_cong [OF that] by (simp add: disk_abs_eq)
  have "ts ! k = (w, Replied c (fst (atomic w c disk)))
      \<and> disk_abs disk' (call_entity c) = disk_abs (snd (atomic w c disk)) (call_entity c)"
    if k: "k < length ops" "ops ! k = (w, c)" for k w c
  proof -
    have th: "k < length ?ts" "?ts ! k = (w, Begin c)" using k by simp_all
    have "4 \<le> count_list ks k" using assms(2) k(1) by blast
    from by_entity.interleave_result [OF dist _ _ assms(3) th enough_turns [OF this]]
    have res: "ts ! k = (w, Replied c (fst (atomic w c disk)))
        \<and> map_of disk' (call_entity c) = map_of (snd (atomic w c disk)) (call_entity c)" by simp
    from conjI [OF conjunct1 [OF res] abs [OF conjunct2 [OF res]]] show ?thesis .
  qed
  moreover have "disk_abs disk' e = disk_abs disk e" if "e \<notin> call_entity ` snd ` set ops" for e
  proof (rule abs)
    have "e \<notin> set (by_entity.regions ?ts)" using that by (simp add: ents image_comp)
    from by_entity.interleave_other [OF this, where d = disk and ks = ks] assms(3) show "map_of disk' e = map_of disk e" by simp
  qed
  ultimately show ?thesis by (simp add: Let_def split: prod.split)
qed

text \<open>
  Reads, updates and deletes of different objects do not interfere
  either, also within one entity, once the directories of the entities exist. In any
  interleaving each returns what it would return alone, and leaves its object as it would
  leave it then; every other object stays as it was.
\<close>

lemma Store_object_isolation:
  assumes "distinct (map (call_object \<circ> snd) ops)" "\<forall>k<length ops. 4 \<le> count_list ks k"
    and "\<forall>(w, c)\<in>set ops. on_object es c" "\<forall>e\<in>es. dir_entries disk e \<noteq> None"
    and "interleave store_step ks (map (\<lambda>(w, c). (w, Begin c)) ops) disk = (ts, disk')"
  shows "(\<forall>k<length ops. let (w, c) = ops ! k; (e, i) = call_object c in
      ts ! k = (w, Replied c (fst (atomic w c disk)))
      \<and> disk_abs disk' e i = disk_abs (snd (atomic w c disk)) e i)
    \<and> (\<forall>e i. (e, i) \<notin> call_object ` snd ` set ops \<longrightarrow> disk_abs disk' e i = disk_abs disk e i)"
proof -
  let ?ts = "map (\<lambda>(w, c). (w, Begin c)) ops"
  have objs: "by_object.regions ?ts = map (call_object \<circ> snd) ops" by (auto simp: by_object.regions_def)
  then have dist: "distinct (by_object.regions ?ts)" using assms(1) by simp
  have good: "\<forall>t\<in>set ?ts. on_object es (stage_call (snd t))" using assms(3) by auto
  have dirs: "has_dirs es disk" using assms(4) by (simp add: has_dirs_def)
  have abs: "disk_abs x e i = disk_abs y e i" if "file_of x (e, i) = file_of y (e, i)" for x y e i
    using that by (simp add: disk_abs_file)
  have "ts ! k = (w, Replied c (fst (atomic w c disk))) \<and> disk_abs disk' e i = disk_abs (snd (atomic w c disk)) e i"
    if k: "k < length ops" "ops ! k = (w, c)" "call_object c = (e, i)" for k w c e i
  proof -
    have th: "k < length ?ts" "?ts ! k = (w, Begin c)" using k by simp_all
    have "4 \<le> count_list ks k" using assms(2) k(1) by blast
    from by_object.interleave_result [OF dist good dirs assms(5) th enough_turns [OF this]]
    have res: "ts ! k = (w, Replied c (fst (atomic w c disk)))
        \<and> file_of disk' (e, i) = file_of (snd (atomic w c disk)) (e, i)" by (simp add: k(3))
    from conjI [OF conjunct1 [OF res] abs [OF conjunct2 [OF res]]] show ?thesis .
  qed
  moreover have "disk_abs disk' e i = disk_abs disk e i" if "(e, i) \<notin> call_object ` snd ` set ops" for e i
  proof (rule abs)
    have "(e, i) \<notin> set (by_object.regions ?ts)" using that by (simp add: objs image_comp)
    from by_object.interleave_other [OF this good dirs, where ks = ks] assms(5)
    show "file_of disk' (e, i) = file_of disk (e, i)" by simp
  qed
  ultimately show ?thesis by (simp add: Let_def split: prod.split)
qed

lemma ensure_existing: "dir_entries disk e = Some es \<Longrightarrow> EnsureEntityDirectory w e disk = (True, disk)"
  by (auto simp: dir_entries_def EnsureEntityDirectory_def split: option.splits entry.splits)

lemma open_trunc_ok:
  "io_ok w \<Longrightarrow> dir_entries disk e = Some es \<Longrightarrow> map_of es name \<noteq> Some OtherFile \<Longrightarrow>
   open_trunc w (e, name) disk = (True, set_entries e (AList.update name (RegularFile []) es) disk)"
  by (simp add: open_trunc_def io_ok_def)

lemma write_close_ok:
  "io_ok w \<Longrightarrow> dir_entries disk e = Some es \<Longrightarrow> map_of es name = Some (RegularFile old) \<Longrightarrow>
   write_close w (e, name) d disk = (True, set_entries e (AList.update name (RegularFile (overwrite d old)) es) disk)"
  by (simp add: write_close_def io_ok_def)

text \<open>
  C23: operations on the same object do interfere, with no call failing.
  Two updates at the same time can both return success and leave an object that is neither
  of the two: the shorter one, followed by the rest of the longer one. And a read at the
  same time as an update can return the empty string, which the object never was: the
  client gets \<^verbatim>\<open>200 OK\<close> with an empty body.
\<close>

theorem Update_interference:
  assumes "io_ok w" "disk_inv disk" "IsValidEntityName e" "disk_abs disk e i = Some old"
  shows "(\<exists>ks disk'. interleave store_step ks [(w, Begin (CallUpdate e i d1)), (w, Begin (CallUpdate e i d2))] disk
        = ([(w, Replied (CallUpdate e i d1) (Updated True)), (w, Replied (CallUpdate e i d2) (Updated True))], disk')
      \<and> disk_abs disk' e i = Some (d1 @ drop (length d1) d2))
    \<and> (\<exists>ks disk'. interleave store_step ks [(w, Begin (CallUpdate e i d1)), (w, Begin (CallRead e i))] disk
        = ([(w, Replied (CallUpdate e i d1) (Updated True)), (w, Replied (CallRead e i) (ReadReply (Some [])))], disk')
      \<and> disk_abs disk' e i = Some d1)"
proof -
  obtain es where es: "dir_entries disk e = Some es" "map_of es (to_string i) = Some (RegularFile old)" and i: "0 \<le> sint i"
    using assms(4) by (auto simp: disk_abs_def split: if_splits option.splits node.splits)
  let ?file = "\<lambda>d. set_entries e (AList.update (to_string i) (RegularFile d) es) disk"
  have content: "dir_entries (?file d) e = Some (AList.update (to_string i) (RegularFile d) es)" for d
    by (simp add: dir_entries_set)
  note start = ensure_existing [OF es(1), of w] ensure_existing [OF content, of w]
  have opens: "open_trunc w (EntityFilePath e i) disk = (True, ?file [])"
    "open_trunc w (EntityFilePath e i) (?file d) = (True, ?file [])" for d
    using open_trunc_ok [OF assms(1) es(1)] open_trunc_ok [OF assms(1) content] es(2)
    by (simp_all add: EntityFilePath_def update_conv')
  have writes: "write_close w (EntityFilePath e i) d (?file d') = (True, ?file (overwrite d d'))" for d d'
    using write_close_ok [OF assms(1) content] by (simp add: EntityFilePath_def update_conv')
  have abs: "disk_abs (?file d) e i = Some d" for d
    using i by (simp add: disk_abs_set dir_object_update)
  have read: "Persistent_Read w e i (?file d) = (Some d, ?file d)" for d
    using i assms(1,3) content [of d] by (simp add: Persistent_Read_def EntityFilePath_def update_conv' io_ok_def)
  have a: "interleave store_step [0, 0, 1, 1, 1, 0] [(w, Begin (CallUpdate e i d1)), (w, Begin (CallUpdate e i d2))] disk
      = ([(w, Replied (CallUpdate e i d1) (Updated True)), (w, Replied (CallUpdate e i d2) (Updated True))], ?file (overwrite d1 d2))"
    using i assms(3) by (simp add: start opens writes)
  have b: "interleave store_step [0, 0, 1, 1, 0] [(w, Begin (CallUpdate e i d1)), (w, Begin (CallRead e i))] disk
      = ([(w, Replied (CallUpdate e i d1) (Updated True)), (w, Replied (CallRead e i) (ReadReply (Some [])))], ?file d1)"
    using i assms(3) by (simp add: start opens writes read abs)
  show ?thesis using a b abs [of "overwrite d1 d2"] abs [of d1] unfolding overwrite_def by blast
qed

theorem Update_interference_witness:
  "\<exists>ks disk'. interleave store_step ks [(io_fine, Begin (CallUpdate ''Shoes'' 0 ''[]'')), (io_fine, Begin (CallUpdate ''Shoes'' 0 ''[1]''))]
      sample_disk = ([(io_fine, Replied (CallUpdate ''Shoes'' 0 ''[]'') (Updated True)), (io_fine, Replied (CallUpdate ''Shoes'' 0 ''[1]'') (Updated True))], disk')
    \<and> disk_abs disk' ''Shoes'' 0 = Some ''[]]''"
proof -
  have "disk_abs sample_disk ''Shoes'' 0 = Some ''zero''"
    by (simp add: disk_abs_def sample_disk_entries to_string_nonneg dec_nat.simps digit_chars)
  from Update_interference [OF io_ok_fine sample_disk_inv Shoes_valid this, of "''[]''" "''[1]''"]
  show ?thesis by simp
qed

end
