(* ===== verification/Store_Linearizable.thy ===== *)
theory Store_Linearizable
  imports Store_Interleaving
begin

text \<open>
  The persistent store in a running server: threads begin operations at any time, take turns
  at the file system and return. The history lists the operations in the order in which they
  return, which is an order that no client can tell from the real one: an operation that has
  returned before another begins stands before it. The operations are linearizable when
  doing them one after the other in that order, each as a whole, gives every one the reply
  it had. That holds when operations that overlap keep to different regions, by entity or by
  object, or only read.
\<close>

section \<open>Concurrent runs in general\<close>

type_synonym ('w, 's) threads = "nat \<Rightarrow> ('w \<times> 's) option"
type_synonym ('w, 'c, 'r) history = "('w \<times> 'c \<times> 'r) list"

text \<open>
  A run from the data \<open>d0\<close> with the threads in it, the data now, and the history. A call
  begins only when no other is in progress on the same region, unless both only read.
\<close>

inductive concurrent ::
  "('w \<Rightarrow> 's \<Rightarrow> 'd \<Rightarrow> 's \<times> 'd) \<Rightarrow> ('s \<Rightarrow> 'k) \<Rightarrow> ('s \<Rightarrow> bool) \<Rightarrow> ('c \<Rightarrow> bool) \<Rightarrow> ('c \<Rightarrow> 's) \<Rightarrow> ('c \<Rightarrow> 'r \<Rightarrow> 's)
   \<Rightarrow> 'd \<Rightarrow> ('w, 's) threads \<Rightarrow> 'd \<Rightarrow> ('w, 'c, 'r) history \<Rightarrow> bool"
  for f key reader allowed start finished d0
where
  run_init: "concurrent f key reader allowed start finished d0 (\<lambda>_. None) d0 []"
| run_begin: "concurrent f key reader allowed start finished d0 ts d h \<Longrightarrow> ts k = None \<Longrightarrow> allowed c
    \<Longrightarrow> (\<forall>j w' s. ts j = Some (w', s) \<longrightarrow> key s \<noteq> key (start c) \<or> reader s \<and> reader (start c))
    \<Longrightarrow> concurrent f key reader allowed start finished d0 (ts(k \<mapsto> (w, start c))) d h"
| run_turn: "concurrent f key reader allowed start finished d0 ts d h \<Longrightarrow> ts k = Some (w, s) \<Longrightarrow> f w s d = (s', d')
    \<Longrightarrow> concurrent f key reader allowed start finished d0 (ts(k \<mapsto> (w, s'))) d' h"
| run_return: "concurrent f key reader allowed start finished d0 ts d h \<Longrightarrow> ts k = Some (w, finished c r)
    \<Longrightarrow> concurrent f key reader allowed start finished d0 (ts(k := None)) d (h @ [(w, c, r)])"

text \<open>A history as it is when its operations are done one after the other, each as a whole.\<close>

fun sequential :: "('w \<Rightarrow> 'c \<Rightarrow> 'd \<Rightarrow> 'r \<times> 'd) \<Rightarrow> ('w, 'c, 'r) history \<Rightarrow> 'd \<Rightarrow> bool" where
  "sequential f [] d \<longleftrightarrow> True"
| "sequential f ((w, c, r) # h) d \<longleftrightarrow> fst (f w c d) = r \<and> sequential f h (snd (f w c d))"

fun replay :: "('w \<Rightarrow> 'c \<Rightarrow> 'd \<Rightarrow> 'r \<times> 'd) \<Rightarrow> ('w, 'c, 'r) history \<Rightarrow> 'd \<Rightarrow> 'd" where
  "replay f [] d = d"
| "replay f ((w, c, r) # h) d = replay f h (snd (f w c d))"

lemma replay_append [simp]: "replay f (h @ h') d = replay f h' (replay f h d)"
  by (induction f h d rule: replay.induct) auto

lemma sequential_append [simp]:
  "sequential f (h @ h') d \<longleftrightarrow> sequential f h d \<and> sequential f h' (replay f h d)"
  by (induction f h d rule: replay.induct) auto

text \<open>
  The contract of operations made of isolated steps: one that has enough turns comes to an
  end, and has then done what it does as a whole; a finished one does nothing more; one that
  only reads changes no region.
\<close>

locale isolated_operations = isolated_steps step region view good ok
  for step :: "'w \<Rightarrow> 's \<Rightarrow> 'd \<Rightarrow> 's \<times> 'd" and region :: "'s \<Rightarrow> 'k" and view :: "'d \<Rightarrow> 'k \<Rightarrow> 'v"
    and good :: "'s \<Rightarrow> bool" and ok :: "'d \<Rightarrow> bool" +
  fixes reader :: "'s \<Rightarrow> bool" and allowed :: "'c \<Rightarrow> bool" and start :: "'c \<Rightarrow> 's" and finished :: "'c \<Rightarrow> 'r \<Rightarrow> 's"
    and whole :: "'w \<Rightarrow> 'c \<Rightarrow> 'd \<Rightarrow> 'r \<times> 'd"
  assumes start_good: "allowed c \<Longrightarrow> good (start c)"
    and ends: "\<exists>n. (turn step w ^^ n) (start c, d) = (finished c (fst (whole w c d)), snd (whole w c d))"
    and step_reader: "reader (fst (step w s d)) = reader s"
    and reader_keeps: "good s \<Longrightarrow> ok d \<Longrightarrow> reader s \<Longrightarrow> view (snd (step w s d)) k = view d k"
    and finished_stays: "step w (finished c r) d = (finished c r, d)"
    and finished_inject: "finished c r = finished c' r' \<Longrightarrow> c = c' \<and> r = r'"
begin

lemma turns_finished: "(turn step w ^^ n) (finished c r, d) = (finished c r, d)"
  by (induction n) (simp_all add: turn_def finished_stays)

lemma turns_good:
  "good s \<Longrightarrow> ok d \<Longrightarrow> good (fst ((turn step w ^^ n) (s, d))) \<and> ok (snd ((turn step w ^^ n) (s, d)))
    \<and> region (fst ((turn step w ^^ n) (s, d))) = region s
    \<and> (\<forall>k. k \<noteq> region s \<longrightarrow> view (snd ((turn step w ^^ n) (s, d))) k = view d k)"
proof (induction n)
  case (Suc n)
  then show ?case using step_good step_ok step_outside by (auto simp: turn_def)
qed simp

lemma turns_reader:
  "good s \<Longrightarrow> ok d \<Longrightarrow> reader (fst ((turn step w ^^ n) (s, d))) = reader s
    \<and> (reader s \<longrightarrow> view (snd ((turn step w ^^ n) (s, d))) k = view d k)"
proof (induction n)
  case (Suc n)
  obtain s1 d1 where 1: "(turn step w ^^ n) (s, d) = (s1, d1)" by fastforce
  have 2: "(turn step w ^^ Suc n) (s, d) = step w s1 d1" using 1 by (simp add: turn_def [of step w "(s1, d1)"])
  have "good s1" "ok d1" using turns_good [OF Suc.prems, where w = w and n = n] 1 by auto
  with Suc step_reader [of w s1 d1] reader_keeps [of s1 d1 w k] show ?case unfolding 2 by (simp add: 1)
qed simp

text \<open>The stage at which an operation is finished is the end it comes to as a whole.\<close>

lemma finished_whole:
  assumes "(turn step w ^^ n) (start c', d) = (finished c r, d')"
  shows "c = c' \<and> (r, d') = whole w c d"
proof -
  obtain m where m: "(turn step w ^^ m) (start c', d) = (finished c' (fst (whole w c' d)), snd (whole w c' d))"
    using ends by blast
  have "(turn step w ^^ (m + n)) (start c', d) = (finished c r, d')"
    using assms turns_finished by (simp add: funpow_add)
  moreover have "(turn step w ^^ (n + m)) (start c', d) = (finished c' (fst (whole w c' d)), snd (whole w c' d))"
    using m turns_finished by (simp add: funpow_add)
  ultimately have "finished c r = finished c' (fst (whole w c' d))" "d' = snd (whole w c' d)"
    by (simp_all add: add.commute)
  with finished_inject show ?thesis by (metis prod.collapse)
qed

lemma whole_outside:
  assumes "good (start c)" "ok d"
  shows "ok (snd (whole w c d))"
    "k \<noteq> region (start c) \<or> reader (start c) \<Longrightarrow> view (snd (whole w c d)) k = view d k"
proof -
  obtain m where "(turn step w ^^ m) (start c, d) = (finished c (fst (whole w c d)), snd (whole w c d))"
    using ends by blast
  with turns_good [OF assms, where w = w and n = m] turns_reader [OF assms, where w = w and n = m and k = k]
  show "ok (snd (whole w c d))"
    "k \<noteq> region (start c) \<or> reader (start c) \<Longrightarrow> view (snd (whole w c d)) k = view d k" by auto
qed

text \<open>
  A thread is on track when it is where it would be if it had started, alone, on the data
  that the history leads to.
\<close>

definition on_track :: "'d \<Rightarrow> 'd \<Rightarrow> 'w \<Rightarrow> 's \<Rightarrow> bool" where
  "on_track d dr w s \<longleftrightarrow> (\<exists>c n. allowed c \<and> s = fst ((turn step w ^^ n) (start c, dr))
     \<and> view d (region s) = view (snd ((turn step w ^^ n) (start c, dr))) (region s))"

lemma on_track_good: "on_track d dr w s \<Longrightarrow> ok dr \<Longrightarrow> good s"
  using turns_good start_good by (auto simp: on_track_def)

lemma on_track_start: "allowed c \<Longrightarrow> view d (region (start c)) = view dr (region (start c)) \<Longrightarrow> on_track d dr w (start c)"
  unfolding on_track_def by (intro exI [of _ c] exI [of _ 0]) simp

lemma on_track_step:
  assumes "on_track d dr w s" "ok d" "ok dr" "step w s d = (s', d')"
  shows "on_track d' dr w s'"
proof -
  obtain c n where c: "allowed c" "s = fst ((turn step w ^^ n) (start c, dr))"
    "view d (region s) = view (snd ((turn step w ^^ n) (start c, dr))) (region s)"
    using assms(1) by (auto simp: on_track_def)
  let ?d = "snd ((turn step w ^^ n) (start c, dr))"
  have s: "good s" "ok ?d" using turns_good [OF start_good [OF c(1)] assms(3), where w = w and n = n] c(2) by auto
  have "(turn step w ^^ Suc n) (start c, dr) = step w s ?d" by (simp add: turn_def c(2))
  with step_inside [OF s(1) assms(2) s(2) c(3), of w] step_good [OF s(1), of w d] assms(4) c(1) show ?thesis
    unfolding on_track_def by (intro exI [of _ c] exI [of _ "Suc n"]) (simp del: funpow.simps)
qed

lemma on_track_data: "on_track d dr w s \<Longrightarrow> view d' (region s) = view d (region s) \<Longrightarrow> on_track d' dr w s"
  by (simp add: on_track_def)

lemma on_track_history:
  assumes "on_track d dr w s" "ok dr" "ok dr'" "view dr (region s) = view dr' (region s)"
  shows "on_track d dr' w s"
proof -
  obtain c n where c: "allowed c" "s = fst ((turn step w ^^ n) (start c, dr))"
    "view d (region s) = view (snd ((turn step w ^^ n) (start c, dr))) (region s)"
    using assms(1) by (auto simp: on_track_def)
  note g = start_good [OF c(1)]
  have "region s = region (start c)" using turns_good [OF g assms(2)] c(2) by simp
  with turns_inside [OF g assms(2,3), where w = w and n = n] assms(4) c show ?thesis
    unfolding on_track_def by (intro exI [of _ c] exI [of _ n]) simp
qed

lemma on_track_finished:
  assumes "on_track d dr w (finished c r)" "ok dr"
  shows "allowed c" "fst (whole w c dr) = r" "region (finished c r) = region (start c)"
    "reader (finished c r) = reader (start c)"
    "view d (region (start c)) = view (snd (whole w c dr)) (region (start c))"
proof -
  obtain c' n where c: "allowed c'" "finished c r = fst ((turn step w ^^ n) (start c', dr))"
    "view d (region (finished c r)) = view (snd ((turn step w ^^ n) (start c', dr))) (region (finished c r))"
    using assms(1) by (auto simp: on_track_def)
  obtain d1 where d1: "(turn step w ^^ n) (start c', dr) = (finished c r, d1)" using c(2) by (metis prod.collapse)
  from finished_whole [OF d1] have eq: "c = c'" "whole w c dr = (r, d1)" by auto
  with c(1) show "allowed c" "fst (whole w c dr) = r" by auto
  show reg: "region (finished c r) = region (start c)"
    using turns_good [OF start_good [OF c(1)] assms(2), where w = w and n = n] d1 eq(1) by simp
  show "reader (finished c r) = reader (start c)"
    using turns_reader [OF start_good [OF c(1)] assms(2), where w = w and n = n] d1 eq(1) by simp
  show "view d (region (start c)) = view (snd (whole w c dr)) (region (start c))"
    using c(3) d1 eq(2) reg by simp
qed

text \<open>
  What holds throughout a run: the history is sequential, every thread is on track, two on one
  region only read, and where no thread writes, the data are what the history leads to.
\<close>

definition run_inv :: "'d \<Rightarrow> ('w, 's) threads \<Rightarrow> 'd \<Rightarrow> ('w, 'c, 'r) history \<Rightarrow> bool" where
  "run_inv d0 ts d h \<longleftrightarrow> ok d \<and> ok (replay whole h d0) \<and> sequential whole h d0
     \<and> (\<forall>k w s. ts k = Some (w, s) \<longrightarrow> on_track d (replay whole h d0) w s)
     \<and> (\<forall>j k w s w' s'. ts j = Some (w, s) \<longrightarrow> ts k = Some (w', s') \<longrightarrow> region s = region s'
          \<longrightarrow> j = k \<or> reader s \<and> reader s')
     \<and> (\<forall>x. (\<forall>k w s. ts k = Some (w, s) \<longrightarrow> region s = x \<longrightarrow> reader s) \<longrightarrow> view d x = view (replay whole h d0) x)"

lemma run_invD:
  assumes "run_inv d0 ts d h"
  shows "ok d" "ok (replay whole h d0)" "sequential whole h d0"
    "ts k = Some (w, s) \<Longrightarrow> on_track d (replay whole h d0) w s"
    "ts j = Some (w, s) \<Longrightarrow> ts k = Some (w', s') \<Longrightarrow> region s = region s' \<Longrightarrow> j \<noteq> k \<Longrightarrow> reader s \<and> reader s'"
    "(\<And>k w s. ts k = Some (w, s) \<Longrightarrow> region s = x \<Longrightarrow> reader s) \<Longrightarrow> view d x = view (replay whole h d0) x"
  using assms unfolding run_inv_def by blast+

lemma run_invI:
  assumes "ok d" "ok (replay whole h d0)" "sequential whole h d0"
    and "\<And>k w s. ts k = Some (w, s) \<Longrightarrow> on_track d (replay whole h d0) w s"
    and "\<And>j k w s w' s'. ts j = Some (w, s) \<Longrightarrow> ts k = Some (w', s') \<Longrightarrow> region s = region s' \<Longrightarrow> j \<noteq> k
      \<Longrightarrow> reader s \<and> reader s'"
    and "\<And>x. (\<And>k w s. ts k = Some (w, s) \<Longrightarrow> region s = x \<Longrightarrow> reader s) \<Longrightarrow> view d x = view (replay whole h d0) x"
  shows "run_inv d0 ts d h"
  using assms unfolding run_inv_def by blast

lemma begin_inv:
  assumes inv: "run_inv d0 ts d h" and k: "ts k = None" and c: "allowed c"
    and free: "\<forall>j w' s. ts j = Some (w', s) \<longrightarrow> region s \<noteq> region (start c) \<or> reader s \<and> reader (start c)"
  shows "run_inv d0 (ts(k \<mapsto> (w, start c))) d h"
proof (rule run_invI)
  note I = run_invD [OF inv]
  show "ok d" "ok (replay whole h d0)" "sequential whole h d0" by (fact I)+
  have "view d (region (start c)) = view (replay whole h d0) (region (start c))" by (rule I(6)) (use free in blast)
  then have "on_track d (replay whole h d0) w (start c)" by (rule on_track_start [OF c])
  then show "on_track d (replay whole h d0) w' s" if "(ts(k \<mapsto> (w, start c))) j = Some (w', s)" for j w' s
    using that I(4) by (auto split: if_splits)
  show "reader s \<and> reader s'" if "(ts(k \<mapsto> (w, start c))) i = Some (v, s)" "(ts(k \<mapsto> (w, start c))) j = Some (v', s')"
    "region s = region s'" "i \<noteq> j" for i j v s v' s'
    using that I(5) [of i v s j v' s'] free by (auto split: if_splits)
  show "view d x = view (replay whole h d0) x"
    if "\<And>j v s. (ts(k \<mapsto> (w, start c))) j = Some (v, s) \<Longrightarrow> region s = x \<Longrightarrow> reader s" for x
  proof (rule I(6))
    show "reader s" if "ts j = Some (v, s)" "region s = x" for j v s
      using \<open>\<And>j v s. (ts(k \<mapsto> (w, start c))) j = Some (v, s) \<Longrightarrow> region s = x \<Longrightarrow> reader s\<close> [of j v s] that k
      by (cases "j = k") auto
  qed
qed

lemma turn_inv:
  assumes inv: "run_inv d0 ts d h" and k: "ts k = Some (w, s)" and step: "step w s d = (s', d')"
  shows "run_inv d0 (ts(k \<mapsto> (w, s'))) d' h"
proof (rule run_invI)
  note I = run_invD [OF inv]
  have g: "good s" by (rule on_track_good [OF I(4) [OF k] I(2)])
  have same: "region s' = region s" "reader s' = reader s" using step_good [OF g, of w d] step_reader [of w s d] step by auto
  have out: "view d' x = view d x" if "x \<noteq> region s \<or> reader s" for x
    using that step_outside [OF g I(1), of x w] reader_keeps [OF g I(1), of w x] step by auto
  show "ok d'" using step_ok [OF g I(1), of w] step by simp
  show "ok (replay whole h d0)" "sequential whole h d0" by (fact I)+
  show "on_track d' (replay whole h d0) v r" if "(ts(k \<mapsto> (w, s'))) j = Some (v, r)" for j v r
  proof (cases "j = k")
    case True
    with that on_track_step [OF I(4) [OF k] I(1,2) step] show ?thesis by simp
  next
    case False
    with that have j: "ts j = Some (v, r)" by simp
    from I(5) [OF j k] False have "view d' (region r) = view d (region r)" by (intro out) auto
    then show ?thesis by (rule on_track_data [OF I(4) [OF j]])
  qed
  show "reader r \<and> reader r'" if "(ts(k \<mapsto> (w, s'))) i = Some (v, r)" "(ts(k \<mapsto> (w, s'))) j = Some (v', r')"
    "region r = region r'" "i \<noteq> j" for i j v r v' r'
    using that I(5) [of i v r j v' r'] I(5) [of i v r k w s] I(5) [of k w s j v' r'] k same by (auto split: if_splits)
  show "view d' x = view (replay whole h d0) x"
    if readers: "\<And>j v r. (ts(k \<mapsto> (w, s'))) j = Some (v, r) \<Longrightarrow> region r = x \<Longrightarrow> reader r" for x
  proof -
    have "reader r" if "ts j = Some (v, r)" "region r = x" for j v r
      using readers [of j v r] readers [of k w s'] that k same by (cases "j = k") auto
    moreover from this have "x \<noteq> region s \<or> reader s" using k by blast
    ultimately show ?thesis using I(6) [of x] out by simp
  qed
qed

lemma return_inv:
  assumes inv: "run_inv d0 ts d h" and k: "ts k = Some (w, finished c r)"
  shows "run_inv d0 (ts(k := None)) d (h @ [(w, c, r)])"
proof (rule run_invI)
  note I = run_invD [OF inv]
  let ?dr = "replay whole h d0" and ?dr' = "snd (whole w c (replay whole h d0))"
  note fin = on_track_finished [OF I(4) [OF k] I(2)]
  note out = whole_outside [OF start_good [OF fin(1)] I(2), where w = w]
  have dr': "replay whole (h @ [(w, c, r)]) d0 = ?dr'" by simp
  show "ok d" by (fact I)
  show "ok (replay whole (h @ [(w, c, r)]) d0)" unfolding dr' by (rule out(1))
  show "sequential whole (h @ [(w, c, r)]) d0" using I(3) fin(2) by simp
  show "on_track d (replay whole (h @ [(w, c, r)]) d0) v s" if "(ts(k := None)) j = Some (v, s)" for j v s
    unfolding dr'
  proof (rule on_track_history [OF _ I(2) out(1)])
    have j: "ts j = Some (v, s)" "j \<noteq> k" using that by (auto split: if_splits)
    then show "on_track d ?dr v s" by (intro I(4))
    from I(5) [OF j(1) k] j(2) fin(3,4) show "view ?dr (region s) = view ?dr' (region s)"
      by (intro out(2) [symmetric]) auto
  qed
  show "reader s \<and> reader s'" if "(ts(k := None)) i = Some (v, s)" "(ts(k := None)) j = Some (v', s')"
    "region s = region s'" "i \<noteq> j" for i j v s v' s'
    using that I(5) [of i v s j v' s'] by (auto split: if_splits)
  show "view d x = view (replay whole (h @ [(w, c, r)]) d0) x"
    if readers: "\<And>j v s. (ts(k := None)) j = Some (v, s) \<Longrightarrow> region s = x \<Longrightarrow> reader s" for x
    unfolding dr'
  proof (cases "x = region (start c)")
    case True
    then show "view d x = view ?dr' x" using fin(5) by simp
  next
    case False
    have "reader s" if "ts j = Some (v, s)" "region s = x" for j v s
      using readers [of j v s] that k fin(3) False by (cases "j = k") auto
    then have "view d x = view ?dr x" by (rule I(6))
    with out(2) False show "view d x = view ?dr' x" by simp
  qed
qed

lemma concurrent_inv:
  assumes "concurrent step region reader allowed start finished d0 ts d h" "ok d0"
  shows "run_inv d0 ts d h"
  using assms(1)
proof (induction rule: concurrent.induct)
  case run_init
  then show ?case using assms(2) by (simp add: run_inv_def)
next
  case (run_begin ts d h k c w)
  from run_begin.IH run_begin.hyps(2-4) show ?case by (rule begin_inv)
next
  case (run_turn ts d h k w s s' d')
  from run_turn.IH run_turn.hyps(2,3) show ?case by (rule turn_inv)
next
  case (run_return ts d h k w c r)
  from run_return.IH run_return.hyps(2) show ?case by (rule return_inv)
qed

lemma linearizable:
  assumes "concurrent step region reader allowed start finished d0 ts d h" "ok d0"
  shows "sequential whole h d0"
    and "(\<And>k w s. ts k = Some (w, s) \<Longrightarrow> region s = x \<Longrightarrow> reader s) \<Longrightarrow> view d x = view (replay whole h d0) x"
  using run_invD [OF concurrent_inv [OF assms]] by blast+

text \<open>The calls in the history are allowed ones.\<close>

lemma history_allowed:
  assumes "concurrent step region reader allowed start finished d0 ts d h" "ok d0"
  shows "\<forall>(w, c, r)\<in>set h. allowed c"
  using assms
proof (induction rule: concurrent.induct)
  case (run_return ts d h k w c r)
  have "on_track d (replay whole h d0) w (finished c r)" "ok (replay whole h d0)"
    using concurrent_inv [OF run_return(1) assms(2)] run_return(2) by (auto simp: run_inv_def)
  from on_track_finished(1) [OF this] run_return show ?case by auto
qed auto

end

section \<open>The operations of the persistent store\<close>

text \<open>Reads and lists change nothing, at any of their stages.\<close>

fun only_reads :: "call \<Rightarrow> bool" where
  "only_reads (CallRead e i) \<longleftrightarrow> True"
| "only_reads (CallList e) \<longleftrightarrow> True"
| "only_reads _ \<longleftrightarrow> False"

lemma Persistent_Read_keeps: "snd (Persistent_Read w e i disk) = disk"
  by (simp add: Persistent_Read_def EntityFilePath_def split: option.split node.split)

lemma read_step: "only_reads (stage_call s) \<Longrightarrow> snd (store_step w s disk) = disk"
  using Persistent_Read_keeps
  by (induction w s disk rule: store_step.induct) (auto split: prod.split option.split simp: prod_eq_iff)

text \<open>By entity any operation is allowed; by object reads, updates and deletes, in directories that exist.\<close>

interpretation entity_ops: isolated_operations store_step "\<lambda>s. call_entity (stage_call s)" map_of
  "\<lambda>_. True" "\<lambda>_. True" "\<lambda>s. only_reads (stage_call s)" "\<lambda>_. True" Begin Replied atomic
proof
  fix w c d
  show "\<exists>n. (turn store_step w ^^ n) (Begin c, d) = (Replied c (fst (atomic w c d)), snd (atomic w c d))"
    using alone by blast
qed (auto simp: step_call read_step)

interpretation object_ops: isolated_operations store_step "\<lambda>s. call_object (stage_call s)" file_of
  "\<lambda>s. on_object es (stage_call s)" "has_dirs es" "\<lambda>s. only_reads (stage_call s)" "on_object es" Begin Replied atomic for es
proof
  fix w c d
  show "\<exists>n. (turn store_step w ^^ n) (Begin c, d) = (Replied c (fst (atomic w c d)), snd (atomic w c d))"
    using alone by blast
qed (auto simp: step_call read_step)

subsection \<open>The map the operations work on\<close>

text \<open>
  What an operation may reply on contents \<open>m\<close> when nothing fails outside, and the contents it leaves.
\<close>

fun map_spec :: "contents \<Rightarrow> call \<Rightarrow> reply \<Rightarrow> contents \<Rightarrow> bool" where
  "map_spec m (CallCreate e d) r m' \<longleftrightarrow>
     (if IsValidEntityName e
      then \<exists>i. r = Created i \<and> 0 \<le> sint i \<and> m e i = None
             \<and> (\<forall>j. 0 \<le> sint j \<and> sint j < sint i \<longrightarrow> m e j \<noteq> None) \<and> m' = put m e i d
      else r = Created (-1) \<and> m' = m)"
| "map_spec m (CallRead e i) r m' \<longleftrightarrow>
     r = ReadReply (if 0 \<le> sint i \<and> IsValidEntityName e then m e i else None) \<and> m' = m"
| "map_spec m (CallUpdate e i d) r m' \<longleftrightarrow>
     (if 0 \<le> sint i \<and> IsValidEntityName e then r = Updated True \<and> m' = put m e i d
      else r = Updated False \<and> m' = m)"
| "map_spec m (CallDelete e i) r m' \<longleftrightarrow>
     (if 0 \<le> sint i \<and> IsValidEntityName e then r = Removed (m e i \<noteq> None) \<and> m' = drop_object m e i
      else r = Removed False \<and> m' = m)"
| "map_spec m (CallList e) r m' \<longleftrightarrow>
     (\<exists>ids. r = Listed ids \<and> sorted (map sint ids) \<and> distinct ids
        \<and> set ids = (if IsValidEntityName e then {i. m e i \<noteq> None} else {})) \<and> m' = m"

fun map_history :: "contents \<Rightarrow> (io, call, reply) history \<Rightarrow> contents \<Rightarrow> bool" where
  "map_history m [] m' \<longleftrightarrow> m' = m"
| "map_history m ((w, c, r) # h) m' \<longleftrightarrow> (\<exists>m1. map_spec m c r m1 \<and> map_history m1 h m')"

text \<open>No plain file is in the place of a directory, and each has IDs left for \<open>n\<close> more objects.\<close>

definition room_for :: "nat \<Rightarrow> disk \<Rightarrow> bool" where
  "room_for n disk \<longleftrightarrow> (\<forall>e. disk_usable disk e \<and> length (entries_of disk e) + n < 2 ^ 31)"

lemma room_for_disk_room: "room_for n disk \<Longrightarrow> disk_room disk e"
  by (auto simp: room_for_def disk_room_def entries_of_def split: option.split dest: spec [of _ e])

lemma room_for_Suc: "room_for (Suc n) disk \<Longrightarrow> room_for n disk"
  by (auto simp: room_for_def intro: Suc_lessD)

lemma length_AList_update: "length (AList.update k v al) \<le> Suc (length al)"
  by (induction al) auto

lemma room_for_set:
  assumes "room_for (Suc n) disk" "length es \<le> Suc (length (entries_of disk e))"
  shows "room_for n (set_entries e es disk)"
proof -
  have "length es + n < 2 ^ 31" using spec [OF assms(1) [unfolded room_for_def], of e] assms(2) by simp
  with room_for_Suc [OF assms(1)] show ?thesis
    by (simp add: room_for_def disk_usable_def map_of_set_entries entries_of_def dir_entries_set)
qed

lemma ensure_room:
  assumes "EnsureEntityDirectory w e disk = (b, disk1)" "room_for n disk"
  shows "room_for n disk1"
proof -
  have "disk1 = disk \<or> disk1 = set_entries e [] disk"
    using assms(1) by (auto simp: EnsureEntityDirectory_def split: option.splits entry.splits if_splits)
  then have "disk_usable disk1 x" if "disk_usable disk x" for x
    using that by (auto simp: disk_usable_def map_of_set_entries split: if_splits)
  then show ?thesis using assms(2) by (simp add: room_for_def ensure_directory(3) [OF assms(1)])
qed

lemma Create_choose_room: "Create_choose w e disk = (c, disk1) \<Longrightarrow> room_for n disk \<Longrightarrow> room_for n disk1"
  by (auto simp: Create_choose_def split: if_splits prod.splits bool.splits option.splits dest: ensure_room)

lemma write_file_room:
  assumes "write_file w (EntityFilePath e i) d disk = (b, disk1)" "room_for (Suc n) disk"
  shows "room_for n disk1"
  using assms(1)
proof (cases rule: write_file_cases)
  case 1
  then show ?thesis using room_for_Suc [OF assms(2)] by simp
next
  case (2 es)
  then show ?thesis using assms(2) length_AList_update by (auto simp: entries_of_def intro!: room_for_set)
next
  case (3 es m)
  then show ?thesis using assms(2) length_AList_update by (auto simp: entries_of_def intro!: room_for_set)
qed

lemma atomic_room: "room_for (Suc n) disk \<Longrightarrow> room_for n (snd (atomic w c disk))"
proof (cases c)
  case (CallCreate e d)
  assume room: "room_for (Suc n) disk"
  show ?thesis
  proof (cases "Persistent_Create w e d disk")
    case None
    with room CallCreate show ?thesis
      by (cases "Create_choose w e disk") (auto dest: Create_choose_room room_for_Suc)
  next
    case (Some p)
    obtain i disk' where p: "p = (i, disk')" by fastforce
    from Some have "Persistent_Create w e d disk = Some (i, disk')" by (simp add: p)
    then have "room_for n disk'"
      by (cases rule: Create_cases) (use room in \<open>auto dest: Create_choose_room write_file_room room_for_Suc\<close>)
    with Some CallCreate show ?thesis by (simp add: p)
  qed
next
  case (CallUpdate e i d)
  assume room: "room_for (Suc n) disk"
  obtain b disk1 where en: "EnsureEntityDirectory w e disk = (b, disk1)" by fastforce
  obtain b' disk2 where wr: "write_file w (EntityFilePath e i) d disk1 = (b', disk2)" by fastforce
  note room1 = ensure_room [OF en room]
  show ?thesis
    using room_for_Suc [OF room] room_for_Suc [OF room1] write_file_room [OF wr room1] en wr CallUpdate
    by (cases b) (simp_all add: Persistent_Update_def)
next
  case (CallDelete e i)
  assume room: "room_for (Suc n) disk"
  have "length (AList.delete k es) \<le> Suc (length es)" for k and es :: "(string \<times> node) list"
    using length_filter_le [of "\<lambda>(k', _). k \<noteq> k'" es] by (simp add: AList.delete_eq le_SucI)
  then have del: "room_for n (set_entries e (AList.delete k es) disk)" if "dir_entries disk e = Some es" for k es
    using room that by (intro room_for_set) (simp_all add: entries_of_def)
  show ?thesis
    using room_for_Suc [OF room] del CallDelete
    by (auto simp: Persistent_Delete_def EntityFilePath_def split: option.split)
next
  case (CallRead e i)
  assume room: "room_for (Suc n) disk"
  show ?thesis using room_for_Suc [OF room] CallRead
    by (auto simp: Persistent_Read_def EntityFilePath_def split: option.split node.split)
next
  case (CallList e)
  assume room: "room_for (Suc n) disk"
  show ?thesis using room_for_Suc [OF room] CallList
    by (auto simp: Persistent_List_def split: option.split)
qed

text \<open>An operation as a whole, on the contents.\<close>

lemma atomic_map:
  assumes "io_ok w" "disk_inv disk" "room_for n disk" "atomic w c disk = (r, disk')"
  shows "disk_inv disk' \<and> map_spec (disk_abs disk) c r (disk_abs disk')"
proof -
  note room = room_for_disk_room [OF assms(3)]
  have us: "disk_usable disk e" for e using room by (simp add: disk_room_def)
  note refines = Persistent_map [OF assms(1,2) _ _ us]
  show ?thesis
  proof (cases c)
    case (CallCreate e d)
    show ?thesis
    proof (cases "IsValidEntityName e")
      case False
      with assms(2,4) CallCreate show ?thesis by (auto simp: Persistent_Create_def Create_choose_def)
    next
      case True
      from Persistent_Create_lowest [OF assms(1,2) True room, of d] obtain i disk1 where
        "Persistent_Create w e d disk = Some (i, disk1)" "0 \<le> sint i" "disk_abs disk e i = None"
        "\<forall>j. 0 \<le> sint j \<and> sint j < sint i \<longrightarrow> disk_abs disk e j \<noteq> None"
        "disk_inv disk1" "disk_abs disk1 = put (disk_abs disk) e i d" by blast
      with assms(4) CallCreate True show ?thesis by auto
    qed
  next
    case (CallRead e i)
    show ?thesis
    proof (cases "0 \<le> sint i \<and> IsValidEntityName e")
      case True
      with refines(1) [of e i] assms(2,4) CallRead show ?thesis by auto
    qed (use assms(2,4) CallRead in \<open>auto simp: Persistent_Read_def\<close>)
  next
    case (CallUpdate e i d)
    show ?thesis
    proof (cases "0 \<le> sint i \<and> IsValidEntityName e")
      case True
      with refines(2) [of e i d] assms(4) CallUpdate show ?thesis by auto
    qed (use assms(2,4) CallUpdate in \<open>auto simp: Persistent_Update_def\<close>)
  next
    case (CallDelete e i)
    show ?thesis
    proof (cases "0 \<le> sint i \<and> IsValidEntityName e")
      case True
      with refines(3) [of e i] assms(4) CallDelete show ?thesis by auto
    qed (use assms(2,4) CallDelete in \<open>auto simp: Persistent_Delete_def\<close>)
  next
    case (CallList e)
    show ?thesis
    proof (cases "IsValidEntityName e")
      case True
      with refines(4) [of e 0] assms(2,4) CallList show ?thesis by auto
    qed (use assms(2,4) CallList in \<open>auto simp: Persistent_List_def\<close>)
  qed
qed

lemma sequential_map:
  assumes "sequential atomic h disk" "\<forall>(w, c, r)\<in>set h. io_ok w" "disk_inv disk" "room_for (length h) disk"
  shows "map_history (disk_abs disk) h (disk_abs (replay atomic h disk))"
  using assms
proof (induction h arbitrary: disk)
  case (Cons p h)
  obtain w c r where p: "p = (w, c, r)" by (cases p) auto
  obtain r' disk1 where at: "atomic w c disk = (r', disk1)" by fastforce
  have room: "room_for (Suc (length h)) disk" using Cons.prems(4) by simp
  have w: "io_ok w" using Cons.prems(2) by (simp add: p)
  from Cons.prems(1) at have "r' = r" "sequential atomic h disk1" by (simp_all add: p)
  with Cons.IH [of disk1] Cons.prems(2) atomic_map [OF w Cons.prems(3) room at] atomic_room [OF room, of w c] at
  show ?case by (auto simp: p)
qed simp

subsection \<open>Every operation ends\<close>

text \<open>How many calls into the file system an operation has left at most.\<close>

fun turns_left :: "stage \<Rightarrow> nat" where
  "turns_left (Begin c) = 4"
| "turns_left (CreateScan e d) = 3"
| "turns_left (CreateOpen e i d) = 2"
| "turns_left (CreateWrite e i d) = 1"
| "turns_left (UpdateOpen e i d) = 2"
| "turns_left (UpdateWrite e i d) = 1"
| "turns_left (ReadBytes e i d) = 1"
| "turns_left (ListScan e) = 1"
| "turns_left (Replied c r) = 0"

lemma step_turns_left: "turns_left (fst (store_step w s disk)) \<le> turns_left s - 1"
  by (induction w s disk rule: store_step.induct) (auto split: prod.split bool.split option.split)

lemma turns_left_0: "turns_left s = 0 \<longleftrightarrow> (\<exists>r. s = Replied (stage_call s) r)"
  by (cases s) auto

lemma interleave_turns_left:
  assumes "k < length ts" "ts ! k = (w, s)"
  shows "\<exists>s'. fst (interleave store_step ks ts disk) ! k = (w, s')
    \<and> stage_call s' = stage_call s \<and> turns_left s' \<le> turns_left s - count_list ks k"
  using assms
proof (induction ks arbitrary: ts disk s)
  case (Cons j ks)
  show ?case
  proof (cases "j < length ts")
    case False
    with Cons show ?thesis by auto
  next
    case True
    obtain v r where j: "ts ! j = (v, r)" by fastforce
    obtain r' disk1 where step: "store_step v r disk = (r', disk1)" by fastforce
    let ?s = "if j = k then r' else s"
    have "ts[j := (v, r')] ! k = (w, ?s)" using j Cons.prems True by auto
    from Cons.IH [OF _ this, of disk1] Cons.prems(1) obtain s' where
      "fst (interleave store_step ks (ts[j := (v, r')]) disk1) ! k = (w, s')"
      "stage_call s' = stage_call ?s" "turns_left s' \<le> turns_left ?s - count_list ks k" by auto
    with True j step step_turns_left [of v r disk] step_call [of v r disk] Cons.prems(2) show ?thesis by auto
  qed
qed simp

subsection \<open>Runs for the witnesses\<close>

abbreviation store_run where
  "store_run key allowed \<equiv> concurrent store_step (\<lambda>s. key (stage_call s)) (\<lambda>s. only_reads (stage_call s)) allowed Begin Replied"

lemma run_turns:
  assumes "concurrent f key reader allowed start finished d0 ts d h" "ts k = Some (w, s)"
  shows "concurrent f key reader allowed start finished d0 (ts(k \<mapsto> (w, fst ((turn f w ^^ n) (s, d)))))
    (snd ((turn f w ^^ n) (s, d))) h"
proof (induction n)
  case 0
  then show ?case using assms by (simp add: fun_upd_idem)
next
  case (Suc n)
  obtain s1 d1 where 1: "(turn f w ^^ n) (s, d) = (s1, d1)" by fastforce
  obtain s2 d2 where 2: "f w s1 d1 = (s2, d2)" by fastforce
  have "(turn f w ^^ Suc n) (s, d) = (s2, d2)" using 1 2 by (simp add: turn_def [of f w "(s1, d1)"])
  with run_turn [OF Suc [unfolded 1 fst_conv snd_conv] _ 2, where k = k] show ?case
    by (simp only: fun_upd_same fun_upd_upd fst_conv snd_conv)
qed

lemma run_to_reply:
  assumes "store_run key allowed d0 ts d h" "ts k = Some (w, Begin c)" "atomic w c d = (r, d')"
  shows "store_run key allowed d0 (ts(k := None)) d' (h @ [(w, c, r)])"
proof -
  from run_turns [OF assms(1,2), of 4] assms(3)
  have "store_run key allowed d0 (ts(k \<mapsto> (w, Replied c r))) d' h" by (simp add: alone)
  from run_return [OF this, of k w c r] show ?thesis by simp
qed

text \<open>Thread 0 begins \<open>c\<close>; thread 1 does the whole of \<open>c1\<close>; thread 0 goes on and returns.\<close>

lemma overlapping_run:
  assumes "key c \<noteq> key c1 \<or> only_reads c \<and> only_reads c1" "allowed c" "allowed c1" "atomic w c1 d = (r1, d1)" "atomic w c d1 = (r, d2)"
  shows "store_run key allowed d (\<lambda>_. None) d2 [(w, c1, r1), (w, c, r)]"
proof -
  have gone: "[0::nat \<mapsto> x, 1 \<mapsto> y](1 := None) = [0 \<mapsto> x]" "[0::nat \<mapsto> x](0 := None) = (\<lambda>_. None)"
    for x y :: "io \<times> stage" by (auto simp: fun_eq_iff)
  have a: "store_run key allowed d [0 \<mapsto> (w, Begin c)] d []"
    by (rule run_begin [OF run_init]) (use assms(2) in auto)
  have "store_run key allowed d [0 \<mapsto> (w, Begin c), 1 \<mapsto> (w, Begin c1)] d []"
    by (rule run_begin [OF a]) (use assms(1,3) in \<open>auto split: if_splits\<close>)
  from run_to_reply [OF this _ assms(4), of 1]
  have b: "store_run key allowed d [0 \<mapsto> (w, Begin c)] d1 [(w, c1, r1)]" unfolding gone by simp
  from run_to_reply [OF this _ assms(5), of 0] show ?thesis unfolding gone by simp
qed

lemma overlapping_sample:
  assumes "key (CallUpdate ''Shoes'' 0 ''x'') \<noteq> key c1" "allowed (CallUpdate ''Shoes'' 0 ''x'')" "allowed c1"
  shows "\<exists>d2 r1 r. store_run key allowed sample_disk (\<lambda>_. None) d2
    [(io_fine, c1, r1), (io_fine, CallUpdate ''Shoes'' 0 ''x'', r)]"
proof -
  obtain r1 d1 where 1: "atomic io_fine c1 sample_disk = (r1, d1)" by fastforce
  obtain r d2 where 2: "atomic io_fine (CallUpdate ''Shoes'' 0 ''x'') d1 = (r, d2)" by fastforce
  from overlapping_run [OF disjI1 [OF assms(1)] assms(2,3) 1 2] show ?thesis by blast
qed

section \<open>Properties of concurrent runs\<close>

lemma entity_runs:
  assumes "store_run call_entity (\<lambda>_. True) disk ts disk' h"
  shows "sequential atomic h disk"
    and "\<forall>k w s. ts k = Some (w, s) \<longrightarrow> call_entity (stage_call s) = e \<longrightarrow> only_reads (stage_call s) \<Longrightarrow>
      disk_abs disk' e = disk_abs (replay atomic h disk) e"
proof -
  note lin = entity_ops.linearizable [OF assms TrueI]
  show "sequential atomic h disk" by (rule lin(1))
  assume "\<forall>k w s. ts k = Some (w, s) \<longrightarrow> call_entity (stage_call s) = e \<longrightarrow> only_reads (stage_call s)"
  then have "map_of disk' e = map_of (replay atomic h disk) e" using lin(2) by blast
  from dir_entries_cong [OF this] show "disk_abs disk' e = disk_abs (replay atomic h disk) e"
    by (simp add: disk_abs_eq)
qed

text \<open>
  C11: the persistent store is linearizable by entity, without a lock, as
  long as no two operations on one entity overlap unless both only read. Threads begin operations at any time, and
  their calls into the file system, which may fail, are interleaved in any order. Done one
  after the other, each as a whole, in the order in which they returned, the operations give
  the very replies they gave, and lead to the contents the disk has for every entity no
  creation, update or deletion is in progress on.
\<close>

theorem Store_linearizable:
  assumes "store_run call_entity (\<lambda>_. True) disk ts disk' h"
  shows "sequential atomic h disk
    \<and> (\<forall>e. (\<forall>k w s. ts k = Some (w, s) \<longrightarrow> call_entity (stage_call s) = e \<longrightarrow> only_reads (stage_call s))
         \<longrightarrow> disk_abs disk' e = disk_abs (replay atomic h disk) e)"
  using entity_runs [OF assms] by blast

theorem Store_linearizable_witness:
  "\<exists>disk' r1 r. let h = [(io_fine, CallCreate ''Hats'' ''1'', r1), (io_fine, CallUpdate ''Shoes'' 0 ''x'', r)] in
     store_run call_entity (\<lambda>_. True) sample_disk (\<lambda>_. None) disk' h \<and> sequential atomic h sample_disk
     \<and> disk_abs disk' = disk_abs (replay atomic h sample_disk)"
proof -
  obtain disk' r1 r where
    run: "store_run call_entity (\<lambda>_. True) sample_disk (\<lambda>_. None) disk'
      [(io_fine, CallCreate ''Hats'' ''1'', r1), (io_fine, CallUpdate ''Shoes'' 0 ''x'', r)]"
    using overlapping_sample [of call_entity "CallCreate ''Hats'' ''1''" "\<lambda>_. True"] by auto
  from run Store_linearizable [OF run] show ?thesis unfolding Let_def fun_eq_iff by blast
qed

text \<open>
  When no call into the file system fails, no plain file is where a
  directory should be and IDs do not run out, operations that overlap as above are, in the order in which they returned, operations on one map from entities and
  IDs to data: each creation took the lowest free ID, each read, update, deletion and list
  gave what the map had at that point; and the disk holds that map, but for the entities
  with a creation, update or deletion in progress.
\<close>

lemma Store_linearizable_map:
  assumes "store_run call_entity (\<lambda>_. True) disk ts disk' h"
    and "\<forall>(w, c, r)\<in>set h. io_ok w" "disk_inv disk" "room_for (length h) disk"
  shows "\<exists>m. map_history (disk_abs disk) h m
    \<and> (\<forall>e. (\<forall>k w s. ts k = Some (w, s) \<longrightarrow> call_entity (stage_call s) = e \<longrightarrow> only_reads (stage_call s)) \<longrightarrow> disk_abs disk' e = m e)"
  using entity_runs [OF assms(1)] sequential_map [OF _ assms(2-4)] by blast

text \<open>
  C12: reads, updates and deletions are linearizable by object, once
  the directories of the entities exist: as long as no two on one object overlap unless both
  are reads, any number of them on different objects of one entity may run at the same time, and file system
  failures included each replies as if all were done one after the other in the order of
  their returns, which leads to the data the disk has for every object that no update or
  deletion is in progress on.
\<close>

theorem Store_linearizable_objects:
  assumes "store_run call_object (on_object es) disk ts disk' h" "\<forall>e\<in>es. dir_entries disk e \<noteq> None"
  shows "sequential atomic h disk
    \<and> (\<forall>e i. (\<forall>k w s. ts k = Some (w, s) \<longrightarrow> call_object (stage_call s) = (e, i) \<longrightarrow> only_reads (stage_call s))
         \<longrightarrow> disk_abs disk' e i = disk_abs (replay atomic h disk) e i)"
proof -
  have "has_dirs es disk" using assms(2) by (simp add: has_dirs_def)
  note lin = object_ops.linearizable [OF assms(1) this]
  have "disk_abs disk' e i = disk_abs (replay atomic h disk) e i"
    if "\<forall>k w s. ts k = Some (w, s) \<longrightarrow> call_object (stage_call s) = (e, i) \<longrightarrow> only_reads (stage_call s)" for e i
  proof -
    have "file_of disk' (e, i) = file_of (replay atomic h disk) (e, i)" using lin(2) that by blast
    then show ?thesis by (simp add: disk_abs_file)
  qed
  with lin(1) show ?thesis by blast
qed

theorem Store_linearizable_objects_witness:
  "\<exists>disk' r1 r. let h = [(io_fine, CallDelete ''Shoes'' 1, r1), (io_fine, CallUpdate ''Shoes'' 0 ''x'', r)] in
     store_run call_object (on_object {''Shoes''}) sample_disk (\<lambda>_. None) disk' h \<and> sequential atomic h sample_disk
     \<and> disk_abs disk' ''Shoes'' 1 = disk_abs (replay atomic h sample_disk) ''Shoes'' 1"
proof -
  obtain disk' r1 r where
    run: "store_run call_object (on_object {''Shoes''}) sample_disk (\<lambda>_. None) disk'
      [(io_fine, CallDelete ''Shoes'' 1, r1), (io_fine, CallUpdate ''Shoes'' 0 ''x'', r)]"
    using overlapping_sample [of call_object "CallDelete ''Shoes'' 1" "on_object {''Shoes''}"] by auto
  have "\<forall>e\<in>{''Shoes''}. dir_entries sample_disk e \<noteq> None" by (simp add: sample_disk_entries)
  from run Store_linearizable_objects [OF run this] show ?thesis unfolding Let_def by blast
qed



end
