(* ===== verification/Server_Service.thy ===== *)
theory Server_Service
  imports Server_Traces Store_Linearizable
begin

text \<open>
  The server as the service its clients see: requests that are answered one after the other on
  a map from data paths, entities and IDs to stored bytes. \<open>served\<close> is a run of the server
  with the exchanges in it, the requests that reached a handler and returned, with the
  response of the handler; \<open>service\<close> says that a list of exchanges is right on such a map.
\<close>

type_synonym exchange = "outside \<times> RequestHandler \<times> request \<times> response"

text \<open>The exchange in a completion, if a handler runs in it and returns.\<close>

definition exchange_of :: "site \<Rightarrow> completion \<Rightarrow> server \<Rightarrow> exchange list" where
  "exchange_of site c sv =
     (case c of
        ReadDone p w g False data \<Rightarrow>
          (case heap sv p of
             None \<Rightarrow> []
           | Some s \<Rightarrow>
              (case RequestParser_Parse (request_buffer s @ data) (fresh_request g) of
                 (False, _) \<Rightarrow> []
               | (True, req) \<Rightarrow>
                   if \<not> is_valid req then []
                   else (case CreateHandler (site_factories site) (site_locations site) (url req) of
                           Done h \<Rightarrow>
                             (case handle_request w h req (server_stores sv) of
                                Done (resp, st) \<Rightarrow> [(w, h, req, resp)]
                              | _ \<Rightarrow> [])
                         | _ \<Rightarrow> [])))
      | _ \<Rightarrow> [])"

inductive served :: "site \<Rightarrow> server \<Rightarrow> exchange list \<Rightarrow> server \<Rightarrow> bool" for site sv0 where
  served_start: "served site sv0 [] sv0"
| served_step: "served site sv0 xs sv \<Longrightarrow> enabled c sv \<Longrightarrow> complete site c sv = Running sv'
    \<Longrightarrow> served site sv0 (xs @ exchange_of site c sv) sv'"

text \<open>An exchange on the contents of all data paths: only a handler of the API changes them.\<close>

fun service_step :: "(string \<Rightarrow> contents) \<Rightarrow> exchange \<Rightarrow> (string \<Rightarrow> contents) \<Rightarrow> bool" where
  "service_step m (w, ApiRequestHandler_on data_path p, req, resp) m' \<longleftrightarrow>
     (\<exists>c. api_spec (o_json w) (ExtractSegments p (url req)) req (m data_path) resp c \<and> m' = m(data_path := c))"
| "service_step m (w, h, req, resp) m' \<longleftrightarrow> m' = m"

fun service :: "(string \<Rightarrow> contents) \<Rightarrow> exchange list \<Rightarrow> (string \<Rightarrow> contents) \<Rightarrow> bool" where
  "service m [] m' \<longleftrightarrow> m' = m"
| "service m (x # xs) m' \<longleftrightarrow> (\<exists>m1. service_step m x m1 \<and> service m1 xs m')"

text \<open>An exchange in which no file operation failed and no ID was too large for an \<^verbatim>\<open>int\<close>.\<close>

fun undisturbed :: "exchange \<Rightarrow> bool" where
  "undisturbed (w, ApiRequestHandler_on data_path p, req, resp) \<longleftrightarrow>
     io_ok (o_io w) \<and> ids_fit (ExtractSegments p (url req))"
| "undisturbed (w, h, req, resp) \<longleftrightarrow> True"

definition all_abs :: "stores \<Rightarrow> string \<Rightarrow> contents" where
  "all_abs st = (\<lambda>data_path. disk_abs (st data_path))"

lemma service_append [simp]: "service m (xs @ ys) m' \<longleftrightarrow> (\<exists>m1. service m xs m1 \<and> service m1 ys m')"
  by (induction m xs m' rule: service.induct) auto

lemma Api_total:
  assumes "io_ok w" "disk_inv disk" "ids_fit (ExtractSegments p (url req))" "\<forall>e. disk_room disk e"
  shows "\<exists>resp disk'. Api_handle_request (Some (EntityStorePersistent w)) p json req disk = Done (resp, disk')
    \<and> disk_inv disk' \<and> api_spec json (ExtractSegments p (url req)) req (disk_abs disk) resp (disk_abs disk')"
  using persistent.api_refines [OF assms(1-3)] assms(4) by (simp add: disk_room_def)

section \<open>One request\<close>

lemma Api_room:
  assumes "room_for (Suc n) disk"
    and "Api_handle_request (Some (EntityStorePersistent w)) p json req disk = Done (resp, disk')"
  shows "room_for n disk'"
proof (cases "api_accepts json (ExtractSegments p (url req)) req")
  case False
  from Api_rejects [OF this, of "EntityStorePersistent w" disk] assms room_for_Suc [OF assms(1)] show ?thesis by auto
next
  case True
  then show ?thesis
  proof (cases rule: Api_accepted [where 's = disk])
    case (1 e)
    with assms atomic_room [OF assms(1), of w "CallCreate e (rq_body req)"] show ?thesis
      by (auto simp: HandlePost_def store_simps split: if_splits option.splits)
  next
    case (2 e)
    with assms atomic_room [OF assms(1), of w "CallList e"] show ?thesis
      by (auto simp: HandleGet_def store_simps split: prod.splits)
  next
    case (3 e seg rest i)
    with assms atomic_room [OF assms(1), of w "CallRead e i"] show ?thesis
      by (auto simp: HandleGet_def store_simps split: prod.splits option.splits)
  next
    case (4 e seg i)
    with assms atomic_room [OF assms(1), of w "CallUpdate e i (rq_body req)"] show ?thesis
      by (auto simp: HandlePut_def store_simps split: prod.splits bool.splits if_splits)
  next
    case (5 e seg i)
    with assms atomic_room [OF assms(1), of w "CallDelete e i"] show ?thesis
      by (auto simp: HandleDelete_def store_simps split: prod.splits bool.splits)
  qed
qed

text \<open>What a run keeps: directories that are in order, with IDs left.\<close>

definition stores_ready :: "nat \<Rightarrow> stores \<Rightarrow> bool" where
  "stores_ready n st \<longleftrightarrow> (\<forall>d. disk_inv (st d) \<and> room_for n (st d))"

lemma stores_ready_Suc: "stores_ready (Suc n) st \<Longrightarrow> stores_ready n st"
  unfolding stores_ready_def using room_for_Suc by blast

lemma handle_request_service:
  assumes "stores_ready (Suc n) st" "undisturbed (w, h, req, resp)" "handle_request w h req st = Done (resp, st')"
  shows "stores_ready n st' \<and> service_step (all_abs st) (w, h, req, resp) (all_abs st')"
proof (cases h)
  case (ApiRequestHandler_on data_path p)
  with assms(3) obtain disk where
    api: "Api_handle_request (Some (EntityStorePersistent (o_io w))) p (o_json w) req (st data_path) = Done (resp, disk)"
    and st': "st' = st(data_path := disk)"
    by (auto simp: handle_request_def on_store_Done)
  have pre: "io_ok (o_io w)" "disk_inv (st data_path)" "ids_fit (ExtractSegments p (url req))"
    "room_for (Suc n) (st data_path)"
    using assms(1,2) ApiRequestHandler_on by (auto simp: stores_ready_def)
  have "\<forall>e. disk_room (st data_path) e" using room_for_disk_room [OF pre(4)] by blast
  then have "disk_inv disk \<and> api_spec (o_json w) (ExtractSegments p (url req)) req (disk_abs (st data_path)) resp (disk_abs disk)"
    using Api_total [OF pre(1-3), of "o_json w"] api by auto
  moreover have "room_for n disk" using Api_room [OF pre(4) api] .
  moreover have "all_abs st' = (all_abs st)(data_path := disk_abs disk)"
    by (auto simp: st' all_abs_def fun_eq_iff)
  ultimately show ?thesis
    using stores_ready_Suc [OF assms(1)] ApiRequestHandler_on by (auto simp: stores_ready_def st' all_abs_def)
qed (use assms stores_ready_Suc [OF assms(1)] in \<open>auto simp: handle_request_def Echo_handle_request_def
      Health_handle_request_def NotFound_handle_request_def Sleep_handle_request_def
      File_handle_request_def Let_def split: option.splits bool.splits\<close>)

section \<open>Runs\<close>

lemma keeps_stores [simp]:
  "server_stores (proceed p stp sv) = server_stores sv" "server_stores (start_accept q sv) = server_stores sv"
  "server_stores (take_op p x sv) = server_stores sv"
  by (auto simp: proceed_def start_accept_def take_op_def split: session_step.split async_op.split)

text \<open>A completion changes the stores as its exchange does, and not at all when it has none.\<close>

lemma complete_stores_cases:
  assumes "complete site c sv = Running sv'"
  obtains "exchange_of site c sv = []" "server_stores sv' = server_stores sv"
  | w h req resp where "exchange_of site c sv = [(w, h, req, resp)]"
      "handle_request w h req (server_stores sv) = Done (resp, server_stores sv')"
proof (cases "\<exists>p w g d. c = ReadDone p w g False d")
  case False
  have "exchange_of site c sv = []"
    using False by (auto simp: exchange_of_def split: completion.split bool.split)
  moreover have "server_stores sv' = server_stores sv"
    using False assms by (cases c) (auto simp: complete_def handle_accept_def handle_read_def
        split: option.splits outcome.splits if_splits)
  ultimately show ?thesis using that(1) by blast
next
  case True
  then obtain p w g d where c: "c = ReadDone p w g False d" by blast
  obtain s where s: "heap sv p = Some s" using assms c by (auto simp: complete_def split: option.splits)
  obtain b req where parsed: "RequestParser_Parse (request_buffer s @ d) (fresh_request g) = (b, req)" by fastforce
  note defs = complete_def exchange_of_def c s parsed handle_read_def Let_def respond_def answer_def
  show ?thesis
  proof (cases "b \<and> is_valid req")
    case False
    with assms show ?thesis by (intro that(1)) (auto simp: defs split: bool.splits outcome.splits if_splits)
  next
    case valid: True
    show ?thesis
    proof (cases "CreateHandler (site_factories site) (site_locations site) (url req)")
      case (Done h)
      show ?thesis
      proof (cases "handle_request w h req (server_stores sv)")
        case (Done x)
        with assms valid \<open>CreateHandler _ _ _ = Done h\<close> show ?thesis
          by (cases x) (intro that(2), auto simp: defs)
      qed (use assms valid Done in \<open>auto simp: defs intro!: that(1)\<close>)
    qed (use assms valid in \<open>auto simp: defs intro!: that(1)\<close>)
  qed
qed

text \<open>The response of an exchange is what the session then writes to its client.\<close>

lemma exchange_sent:
  assumes "complete site c sv = Running sv'" "exchange_of site c sv = [(w, h, req, resp)]"
  shows "\<exists>p s'. op_of c = (p, OpReadSome) \<and> heap sv' p = Some s'
    \<and> response_bytes s' = SerializeResponse (Some resp) \<and> (p, OpWriteAll) \<in> set (pending sv')"
  using assms
  by (auto simp: exchange_of_def complete_def handle_read_def respond_def answer_def Let_def op_of_def
      proceed_def SendResponse_def
      split: completion.splits bool.splits option.splits prod.splits outcome.splits if_splits)

lemma complete_service:
  assumes "complete site c sv = Running sv'" "stores_ready (length (exchange_of site c sv) + n) (server_stores sv)"
    and "\<forall>x\<in>set (exchange_of site c sv). undisturbed x"
  shows "stores_ready n (server_stores sv')
    \<and> service (all_abs (server_stores sv)) (exchange_of site c sv) (all_abs (server_stores sv'))"
  using assms(1)
proof (cases rule: complete_stores_cases)
  case 1
  with assms(2) show ?thesis by simp
next
  case (2 w h req resp)
  with handle_request_service [of n "server_stores sv" w h req resp] assms(2,3) show ?thesis by simp
qed

lemma served_service:
  assumes "served site sv xs sv'" "\<forall>x\<in>set xs. undisturbed x" "stores_ready (length xs + n) (server_stores sv)"
  shows "stores_ready n (server_stores sv') \<and> service (all_abs (server_stores sv)) xs (all_abs (server_stores sv'))"
  using assms
proof (induction arbitrary: n rule: served.induct)
  case served_start
  then show ?case by simp
next
  case (served_step xs sv1 c sv2)
  let ?k = "length (exchange_of site c sv1) + n"
  have "stores_ready ?k (server_stores sv1) \<and> service (all_abs (server_stores sv)) xs (all_abs (server_stores sv1))"
    using served_step.IH [of ?k] served_step.prems by (simp add: add_ac)
  with complete_service [OF served_step.hyps(3), of n] served_step.prems(1) show ?case by auto
qed

text \<open>Every run of the server has its exchanges.\<close>

lemma run_served: "server_run site sv cs sv' \<Longrightarrow> \<exists>xs. served site sv xs sv'"
  by (induction rule: server_run.induct) (blast intro: served_start served_step)+

section \<open>Properties\<close>

text \<open>
  The server is the service its API promises, over any number of sessions,
  and over a restart. Whatever the order in which accepts, reads and writes of all sessions
  complete and however requests are cut into pieces, the requests that were answered, in the
  order of their answers, are right one after the other on one map from data paths, entities
  and IDs to bytes: each API response and its effect are what \<open>api_spec\<close> gives on the map as
  the requests before have left it, and no other request changes the map. When the server is
  stopped and a new one, also with other locations, is started on the same directories, it
  goes on with the same map.
\<close>

lemma Server_service:
  assumes "served site sv xs sv1" "served site' (server_new q (server_stores sv1)) ys sv2"
    and "\<forall>x\<in>set (xs @ ys). undisturbed x" "stores_ready (length (xs @ ys)) (server_stores sv)"
  shows "service (all_abs (server_stores sv)) (xs @ ys) (all_abs (server_stores sv2))"
proof -
  have "server_stores (server_new q (server_stores sv1)) = server_stores sv1" by (simp add: server_new_def)
  with served_service [OF assms(1), of "length ys"] served_service [OF assms(2), of 0] assms(3,4)
  show ?thesis by auto
qed

section \<open>A request to the API\<close>

lemma sample_ready: "stores_ready 1 (\<lambda>_. sample_disk)"
  using sample_disk_inv
  by (simp add: stores_ready_def room_for_def disk_usable_def entries_of_def sample_disk_entries)
    (simp add: sample_disk_def)

definition sample_delete_text :: string where
  "sample_delete_text = render_request ''DELETE'' ''/api/Shoes/1'' [] []"

text \<open>What the API handler answers to it, on the sample disk under \<^verbatim>\<open>/data\<close>.\<close>

lemma sample_delete:
  obtains req resp disk' where "RequestParser_Parse sample_delete_text (fresh_request True) = (True, req)"
    "is_valid req" "url req = ''/api/Shoes/1''"
    "handle_request sample_outside (ApiRequestHandler_on ''/data'' ''/api'') req (\<lambda>_. sample_disk)
      = Done (resp, (\<lambda>_. sample_disk)(''/data'' := disk'))"
    "undisturbed (sample_outside, ApiRequestHandler_on ''/data'' ''/api'', req, resp)"
proof -
  define req where "req = \<lparr>is_valid = True, raw_request = sample_delete_text, rq_method = ''DELETE'', url = ''/api/Shoes/1'',
    rq_http_version = ''1.1'', rq_headers = map (\<lambda>(n, v). n @ '': '' @ trim_blanks v) [], rq_body = []\<rparr>"
  have "wf_target ''/api/Shoes/1''" "''DELETE'' \<in> set kAllowedMethods"
    by (simp_all add: wf_target_def isspace_def code_def kAllowedMethods_def)
  from render_parsed [OF this(2,1), of "[]" "[]" True]
  have parsed: "RequestParser_Parse sample_delete_text (fresh_request True) = (True, req)"
    by (simp add: req_def sample_delete_text_def)
  have u: "url req = ''/api/Shoes/1''" by (simp add: req_def)
  have segs: "ExtractSegments ''/api'' (url req) = [''Shoes'', ''1'']"
    using sample_get_segments by (simp add: u sample_get_def)
  then have fit: "ids_fit (ExtractSegments ''/api'' (url req))" by (simp add: id_fits_def dec_value_def code_def)
  from Api_total [OF io_ok_fine sample_disk_inv fit sample_disk_all_room, of "\<lambda>_. True"]
  obtain resp disk' where "Api_handle_request (Some (EntityStorePersistent io_fine)) ''/api'' (\<lambda>_. True) req sample_disk
      = Done (resp, disk')" by blast
  then have run: "handle_request sample_outside (ApiRequestHandler_on ''/data'' ''/api'') req (\<lambda>_. sample_disk)
      = Done (resp, (\<lambda>_. sample_disk)(''/data'' := disk'))"
    by (simp add: handle_request_def on_store_def sample_outside_def)
  have "is_valid req" by (simp add: req_def)
  then show ?thesis using that [OF parsed _ u run] fit io_ok_fine by (simp add: sample_outside_def)
qed

end
