(* ===== verification/Config_Parser.thy ===== *)
theory Config_Parser
  imports Prelude
begin

text \<open>
  The nginx-style configuration parser, \<^verbatim>\<open>src/config_parser.cc\<close> and
  \<^verbatim>\<open>include/config_parser.h\<close>: the configuration tree and its printer \<open>ToString\<close>, the
  tokenizer \<open>ParseToken\<close> as a character automaton, and the parser \<open>Parse\<close> as a loop that
  feeds tokens to a transition on the last token type and the stack of open blocks.

  The lemmas show that every token consumes input, that the parser never calls
  \<^verbatim>\<open>back()\<close> on an empty vector or \<^verbatim>\<open>top()\<close> on an empty stack, which configurations it
  builds, and that printing a configuration and parsing the text returns it.
\<close>

subsection \<open>The configuration tree\<close>

text \<open>
  \<^verbatim>\<open>child_block_\<close> is an owning pointer that may be null, an option here. The statements of
  a configuration are in a \<^verbatim>\<open>std::vector\<close>, a list.
\<close>

datatype NginxConfig = NginxConfig (statements: "NginxConfigStatement list")
and NginxConfigStatement =
  NginxConfigStatement (tokens: "string list") (child_block: "NginxConfig option")

text \<open>\<^verbatim>\<open>for (int i = 0; i < depth; ++i) append("  ")\<close>.\<close>

fun indent :: "nat \<Rightarrow> string" where
  "indent 0 = []"
| "indent (Suc n) = ''  '' @ indent n"

text \<open>The tokens of a statement, with one space before every token but the first.\<close>

fun join_tokens :: "string list \<Rightarrow> string" where
  "join_tokens [] = []"
| "join_tokens [t] = t"
| "join_tokens (t # u # ts) = t @ '' '' @ join_tokens (u # ts)"

fun ToString :: "nat \<Rightarrow> NginxConfig \<Rightarrow> string"
  and Statement_ToString :: "nat \<Rightarrow> NginxConfigStatement \<Rightarrow> string" where
  "ToString depth (NginxConfig ss) = concat (map (Statement_ToString depth) ss)"
| "Statement_ToString depth (NginxConfigStatement ts child) =
     indent depth @ join_tokens ts @
     (case child of
        Some c \<Rightarrow> '' {'' @ [LF] @ ToString (depth + 1) c @ indent depth @ ''}''
      | None \<Rightarrow> '';'') @ [LF]"

subsection \<open>Tokens\<close>

datatype TokenType =
    TOKEN_TYPE_START | TOKEN_TYPE_NORMAL | TOKEN_TYPE_START_BLOCK | TOKEN_TYPE_END_BLOCK
  | TOKEN_TYPE_COMMENT | TOKEN_TYPE_STATEMENT_END | TOKEN_TYPE_EOF | TOKEN_TYPE_ERROR
  | TOKEN_TYPE_QUOTED_STRING

datatype TokenParserState =
    TOKEN_STATE_INITIAL_WHITESPACE | TOKEN_STATE_SINGLE_QUOTE | TOKEN_STATE_DOUBLE_QUOTE
  | TOKEN_STATE_TOKEN_TYPE_COMMENT | TOKEN_STATE_TOKEN_TYPE_NORMAL

definition IsTokenDelimiter :: "char \<Rightarrow> bool" where
  "IsTokenDelimiter c \<longleftrightarrow> c = SPACE \<or> c = TAB \<or> c = LF \<or> c = CHR '';'' \<or> c = CHR ''{'' \<or> c = CHR ''}''"

definition IsWhitespace :: "char \<Rightarrow> bool" where
  "IsWhitespace c \<longleftrightarrow> c = SPACE \<or> c = TAB \<or> c = LF \<or> c = CR"

definition IsValidTokenPredecessor :: "TokenType \<Rightarrow> bool" where
  "IsValidTokenPredecessor t \<longleftrightarrow> t = TOKEN_TYPE_NORMAL \<or> t = TOKEN_TYPE_QUOTED_STRING"

definition CanFollowWithToken :: "TokenType \<Rightarrow> bool" where
  "CanFollowWithToken t \<longleftrightarrow>
     t = TOKEN_TYPE_START \<or> t = TOKEN_TYPE_STATEMENT_END \<or> t = TOKEN_TYPE_START_BLOCK \<or>
     t = TOKEN_TYPE_END_BLOCK \<or> t = TOKEN_TYPE_NORMAL \<or> t = TOKEN_TYPE_QUOTED_STRING"

text \<open>
  \<open>ParseToken_from st s v\<close> is the loop of \<^verbatim>\<open>NginxConfigParser::ParseToken\<close> in state \<open>st\<close>
  with \<open>s\<close> left in the stream and \<open>v\<close> in \<^verbatim>\<open>*value\<close>; it returns the token type,
  \<^verbatim>\<open>*value\<close> and what is left. Reading at the end of the stream gives the byte \<open>0xFF\<close>
  (\<^verbatim>\<open>EOF\<close> cast to \<^verbatim>\<open>char\<close>), which is no delimiter, and leaves the stream not
  \<^verbatim>\<open>good()\<close>, which ends the loop; \<^verbatim>\<open>unget\<close> puts the last byte back.
\<close>

text \<open>The two quote states run the same code up to the closing character \<open>q\<close>.\<close>

definition quote_char :: "TokenParserState \<Rightarrow> char" where
  "quote_char st = (if st = TOKEN_STATE_SINGLE_QUOTE then CHR 0x27 else CHR 0x22)"

fun ParseToken_from :: "TokenParserState \<Rightarrow> string \<Rightarrow> string \<Rightarrow> TokenType \<times> string \<times> string" where
  "ParseToken_from st [] v =
     (if st = TOKEN_STATE_SINGLE_QUOTE \<or> st = TOKEN_STATE_DOUBLE_QUOTE
      then (TOKEN_TYPE_ERROR, v, []) else (TOKEN_TYPE_EOF, v, []))"
| "ParseToken_from TOKEN_STATE_INITIAL_WHITESPACE (c # s) v =
     (if IsWhitespace c then ParseToken_from TOKEN_STATE_INITIAL_WHITESPACE s v
      else if c = CHR ''{'' then (TOKEN_TYPE_START_BLOCK, [c], s)
      else if c = CHR ''}'' then (TOKEN_TYPE_END_BLOCK, [c], s)
      else if c = CHR ''#'' then ParseToken_from TOKEN_STATE_TOKEN_TYPE_COMMENT s [c]
      else if c = CHR 0x22 then ParseToken_from TOKEN_STATE_DOUBLE_QUOTE s [c]
      else if c = CHR 0x27 then ParseToken_from TOKEN_STATE_SINGLE_QUOTE s [c]
      else if c = CHR '';'' then (TOKEN_TYPE_STATEMENT_END, [c], s)
      else ParseToken_from TOKEN_STATE_TOKEN_TYPE_NORMAL s (v @ [c]))"
| "ParseToken_from TOKEN_STATE_TOKEN_TYPE_COMMENT (c # s) v =
     (if c = LF \<or> c = CR then (TOKEN_TYPE_COMMENT, v, s)
      else ParseToken_from TOKEN_STATE_TOKEN_TYPE_COMMENT s (v @ [c]))"
| "ParseToken_from TOKEN_STATE_TOKEN_TYPE_NORMAL (c # s) v =
     (if IsTokenDelimiter c then (TOKEN_TYPE_NORMAL, v, c # s)
      else ParseToken_from TOKEN_STATE_TOKEN_TYPE_NORMAL s (v @ [c]))"
| "ParseToken_from st (c # s) v =
     (if c = CHR 0x5C
      then (case s of
              [] \<Rightarrow> ParseToken_from st [] (v @ [c, CHR 0xFF])
            | n # s' \<Rightarrow> ParseToken_from st s' (v @ [c, n]))
      else if c = quote_char st
      then (case s of
              [] \<Rightarrow> (TOKEN_TYPE_ERROR, v @ [c], [])
            | n # s' \<Rightarrow> if IsTokenDelimiter n then (TOKEN_TYPE_NORMAL, v @ [c], n # s')
                       else (TOKEN_TYPE_ERROR, v @ [c], s'))
      else ParseToken_from st s (v @ [c]))"

definition ParseToken :: "string \<Rightarrow> TokenType \<times> string \<times> string" where
  "ParseToken s = ParseToken_from TOKEN_STATE_INITIAL_WHITESPACE s []"

lemma ParseToken_from_le: "length (snd (snd (ParseToken_from st s v))) \<le> length s"
  by (induction st s v rule: ParseToken_from.induct) (simp_all add: le_SucI split: list.split)

lemma ParseToken_from_initial:
  "fst (ParseToken_from TOKEN_STATE_INITIAL_WHITESPACE s v) = TOKEN_TYPE_EOF \<or>
   length (snd (snd (ParseToken_from TOKEN_STATE_INITIAL_WHITESPACE s v))) < length s"
proof (induction s)
  case (Cons c s)
  then show ?case by (auto simp: less_Suc_eq_le ParseToken_from_le)
qed simp

lemma ParseToken_shorter:
  "ParseToken s = (ty, tok, r) \<Longrightarrow> ty \<noteq> TOKEN_TYPE_EOF \<Longrightarrow> length r < length s"
  using ParseToken_from_initial [of s "[]"] by (simp add: ParseToken_def)

subsection \<open>The parser\<close>

text \<open>
  \<^verbatim>\<open>config_stack\<close> holds pointers to the open blocks; the block below another is the
  owner of the last statement that opened it. The stack is kept here with the innermost
  block first, each block as the statements it has so far, and a block is put into the
  \<^verbatim>\<open>child_block_\<close> of the statement that owns it when it is left (\<open>plug\<close>). \<open>unwind\<close> is
  the tree reachable from the caller's configuration, which is what the caller sees when
  \<^verbatim>\<open>Parse\<close> returns, with \<^verbatim>\<open>true\<close> or \<^verbatim>\<open>false\<close>.

  \<^verbatim>\<open>back()\<close> on an empty vector and \<^verbatim>\<open>top()\<close> on an empty stack are undefined in C++:
  the step then gives \<open>Undefined_behaviour\<close>, and \<open>Parse_defined\<close> below shows it never does.
\<close>

record parser_state =
  config_stack :: "NginxConfigStatement list list"
  last_token_type :: TokenType

datatype parse_result = Accepted NginxConfig | Rejected NginxConfig | Undefined_behaviour

definition plug :: "NginxConfigStatement list \<Rightarrow> NginxConfigStatement list \<Rightarrow> NginxConfigStatement list" where
  "plug block owner =
     butlast owner @ [NginxConfigStatement (tokens (last owner)) (Some (NginxConfig block))]"

fun unwind :: "NginxConfigStatement list list \<Rightarrow> NginxConfig" where
  "unwind [] = NginxConfig []"
| "unwind [f] = NginxConfig f"
| "unwind (f # g # fs) = unwind (plug f g # fs)"

text \<open>\<^verbatim>\<open>statements_.back()->tokens_.push_back(token)\<close>, on a block that is not empty.\<close>

definition push_token :: "string \<Rightarrow> NginxConfigStatement list \<Rightarrow> NginxConfigStatement list" where
  "push_token tok f =
     butlast f @ [NginxConfigStatement (tokens (last f) @ [tok]) (child_block (last f))]"

definition Parse_step :: "parser_state \<Rightarrow> TokenType \<Rightarrow> string \<Rightarrow> parse_result + parser_state" where
  "Parse_step st token_type token =
     (let stack = config_stack st; last_type = last_token_type st;
          reject = Inl (Rejected (unwind stack));
          continue_with = (\<lambda>stack'. Inr \<lparr>config_stack = stack', last_token_type = token_type\<rparr>)
      in case stack of
           [] \<Rightarrow> Inl Undefined_behaviour
         | f # fs \<Rightarrow>
          (if token_type = TOKEN_TYPE_ERROR then reject
           else if token_type = TOKEN_TYPE_COMMENT then Inr st
           else if token_type = TOKEN_TYPE_START then reject
           else if token_type = TOKEN_TYPE_NORMAL then
             (if CanFollowWithToken last_type then
                (let f' = (if last_type \<noteq> TOKEN_TYPE_NORMAL
                           then f @ [NginxConfigStatement [] None] else f)
                 in if f' = [] then Inl Undefined_behaviour
                    else continue_with (push_token token f' # fs))
              else reject)
           else if token_type = TOKEN_TYPE_STATEMENT_END then
             (if \<not> IsValidTokenPredecessor last_type then reject else continue_with stack)
           else if token_type = TOKEN_TYPE_START_BLOCK then
             (if \<not> IsValidTokenPredecessor last_type then reject
              else if f = [] then Inl Undefined_behaviour
              else continue_with ([] # stack))
           else if token_type = TOKEN_TYPE_END_BLOCK then
             (if last_type \<noteq> TOKEN_TYPE_STATEMENT_END \<and> last_type \<noteq> TOKEN_TYPE_END_BLOCK then reject
              else case fs of [] \<Rightarrow> reject | g # gs \<Rightarrow> continue_with (plug f g # gs))
           else if token_type = TOKEN_TYPE_EOF then
             (if last_type \<noteq> TOKEN_TYPE_STATEMENT_END \<and> last_type \<noteq> TOKEN_TYPE_END_BLOCK then reject
              else if length stack \<noteq> 1 then reject
              else Inl (Accepted (unwind stack)))
           else reject))"

lemma Parse_step_stops:
  "ty = TOKEN_TYPE_EOF \<or> ty = TOKEN_TYPE_ERROR \<Longrightarrow> \<exists>r. Parse_step st ty tok = Inl r"
  by (auto simp: Parse_step_def Let_def split: list.splits)

lemma Parse_continues_shorter:
  assumes "ParseToken s = (ty, tok, s')" and "Parse_step st ty tok = Inr st'"
  shows "length s' < length s"
proof (rule ParseToken_shorter [OF assms(1)])
  show "ty \<noteq> TOKEN_TYPE_EOF" using Parse_step_stops [of ty st tok] assms(2) by auto
qed

text \<open>The \<^verbatim>\<open>while (true)\<close> of \<^verbatim>\<open>Parse\<close>: it ends because a token that does not end it
  consumes input.\<close>

function Parse_loop :: "string \<Rightarrow> parser_state \<Rightarrow> parse_result" where
  "Parse_loop s st =
     (case ParseToken s of (token_type, token, s') \<Rightarrow>
        (case Parse_step st token_type token of
           Inl r \<Rightarrow> r
         | Inr st' \<Rightarrow> Parse_loop s' st'))"
  by pat_completeness auto
termination
  by (relation "measure (\<lambda>(s, st). length s)") (simp, metis Parse_continues_shorter in_measure case_prod_conv)

declare Parse_loop.simps [simp del]

text \<open>\<^verbatim>\<open>Parse(std::istream*, NginxConfig*)\<close>: \<open>Accepted\<close> is \<^verbatim>\<open>true\<close>, \<open>Rejected\<close> is
  \<^verbatim>\<open>false\<close>, each with what the caller's configuration holds afterwards.\<close>

definition Parse :: "string \<Rightarrow> NginxConfig \<Rightarrow> parse_result" where
  "Parse config_file config =
     Parse_loop config_file \<lparr>config_stack = [statements config], last_token_type = TOKEN_TYPE_START\<rparr>"

text \<open>
  \<^verbatim>\<open>Parse(const char*, NginxConfig*)\<close> and \<^verbatim>\<open>load_config_from_file\<close>: \<open>files\<close> is what can be
  opened, and a null \<^verbatim>\<open>config\<close> pointer is refused. A file that cannot be opened is reported
  and leaves the configuration as it was.
\<close>

definition Parse_file :: "(string \<rightharpoonup> string) \<Rightarrow> string \<Rightarrow> NginxConfig \<Rightarrow> parse_result" where
  "Parse_file files file_name config =
     (case files file_name of
        None \<Rightarrow> Rejected config
      | Some config_file \<Rightarrow> Parse config_file config)"

subsection \<open>Which strings are tokens\<close>

definition plain_token :: "string \<Rightarrow> bool" where
  "plain_token t \<longleftrightarrow> t \<noteq> [] \<and> \<not> IsWhitespace (hd t) \<and> hd t \<notin> set ''{}#;'' \<union> {CHR 0x22, CHR 0x27}
     \<and> (\<forall>c\<in>set t. \<not> IsTokenDelimiter c)"

fun quote_body :: "char \<Rightarrow> string \<Rightarrow> bool" where
  "quote_body q [] \<longleftrightarrow> False"
| "quote_body q (c # s) \<longleftrightarrow>
     (if c = CHR 0x5C then (case s of [] \<Rightarrow> False | n # s' \<Rightarrow> quote_body q s')
      else if c = q then s = [] else quote_body q s)"

definition wf_token :: "string \<Rightarrow> bool" where
  "wf_token t \<longleftrightarrow> plain_token t \<or>
     (case t of [] \<Rightarrow> False | c # s \<Rightarrow> (c = CHR 0x22 \<or> c = CHR 0x27) \<and> quote_body c s)"

fun wf_config :: "NginxConfig \<Rightarrow> bool" and wf_statement :: "NginxConfigStatement \<Rightarrow> bool" where
  "wf_config (NginxConfig ss) \<longleftrightarrow> ss \<noteq> [] \<and> list_all wf_statement ss"
| "wf_statement (NginxConfigStatement ts child) \<longleftrightarrow>
     ts \<noteq> [] \<and> list_all wf_token ts \<and> (case child of None \<Rightarrow> True | Some c \<Rightarrow> wf_config c)"

lemma ParseToken_normal:
  "\<forall>c\<in>set t. \<not> IsTokenDelimiter c \<Longrightarrow> IsTokenDelimiter d \<Longrightarrow>
   ParseToken_from TOKEN_STATE_TOKEN_TYPE_NORMAL (t @ d # s) v = (TOKEN_TYPE_NORMAL, v @ t, d # s)"
  by (induction t arbitrary: v) auto

lemma ParseToken_from_quote:
  assumes "st = TOKEN_STATE_SINGLE_QUOTE \<or> st = TOKEN_STATE_DOUBLE_QUOTE"
  shows "ParseToken_from st (c # s) v =
     (if c = CHR 0x5C
      then (case s of
              [] \<Rightarrow> (TOKEN_TYPE_ERROR, v @ [c, CHR 0xFF], [])
            | n # s' \<Rightarrow> ParseToken_from st s' (v @ [c, n]))
      else if c = quote_char st
      then (case s of
              [] \<Rightarrow> (TOKEN_TYPE_ERROR, v @ [c], [])
            | n # s' \<Rightarrow> if IsTokenDelimiter n then (TOKEN_TYPE_NORMAL, v @ [c], n # s')
                       else (TOKEN_TYPE_ERROR, v @ [c], s'))
      else ParseToken_from st s (v @ [c]))"
  using assms by (cases s) (auto simp: quote_char_def)

lemma ParseToken_quoted:
  assumes "IsTokenDelimiter d" "st = TOKEN_STATE_SINGLE_QUOTE \<or> st = TOKEN_STATE_DOUBLE_QUOTE"
  shows "quote_body (quote_char st) t \<Longrightarrow>
    ParseToken_from st (t @ d # s) v = (TOKEN_TYPE_NORMAL, v @ t, d # s)"
proof (induction "quote_char st" t arbitrary: v rule: quote_body.induct)
  case (2 c t)
  show ?case
  proof (cases "c = CHR 0x5C")
    case True
    with 2 show ?thesis by (cases t) (auto simp: ParseToken_from_quote [OF assms(2)])
  next
    case False
    with 2 assms(1) show ?thesis
      by (auto simp: ParseToken_from_quote [OF assms(2)] split: if_splits)
  qed
qed simp

lemma ParseToken_whitespace:
  "IsWhitespace c \<Longrightarrow> ParseToken (c # s) = ParseToken s"
  by (simp add: ParseToken_def)

lemma ParseToken_wf_token:
  assumes "wf_token t" "IsTokenDelimiter d"
  shows "ParseToken (t @ d # s) = (TOKEN_TYPE_NORMAL, t, d # s)"
proof (cases "plain_token t")
  case True
  then obtain c u where t: "t = c # u" by (cases t) (auto simp: plain_token_def)
  with True assms(2) show ?thesis
    by (auto simp: plain_token_def ParseToken_def ParseToken_normal)
next
  case False
  with assms(1) obtain c u where t: "t = c # u" and c: "c = CHR 0x22 \<or> c = CHR 0x27"
    and body: "quote_body c u"
    by (auto simp: wf_token_def split: list.splits)
  have q: "quote_char TOKEN_STATE_SINGLE_QUOTE = CHR 0x27"
    "quote_char TOKEN_STATE_DOUBLE_QUOTE = CHR 0x22" by (simp_all add: quote_char_def)
  from c body assms(2) show ?thesis
    unfolding t ParseToken_def
    by (auto simp: IsWhitespace_def q simp del: quote_body.simps
        dest: ParseToken_quoted [where st = TOKEN_STATE_SINGLE_QUOTE and d = d and s = s and v = "[CHR 0x27]", unfolded q]
          ParseToken_quoted [where st = TOKEN_STATE_DOUBLE_QUOTE and d = d and s = s and v = "[CHR 0x22]", unfolded q])
qed

text \<open>Conversely, every token the tokenizer hands out as \<^verbatim>\<open>NORMAL\<close> is one of these.\<close>

lemma normal_token_chars:
  "ParseToken_from TOKEN_STATE_TOKEN_TYPE_NORMAL s v = (TOKEN_TYPE_NORMAL, t, r) \<Longrightarrow>
   \<exists>u. t = v @ u \<and> (\<forall>c\<in>set u. \<not> IsTokenDelimiter c)"
proof (induction s arbitrary: v)
  case (Cons c s)
  show ?case
  proof (cases "IsTokenDelimiter c")
    case False
    with Cons.prems obtain u where "t = (v @ [c]) @ u" "\<forall>c\<in>set u. \<not> IsTokenDelimiter c"
      using Cons.IH by fastforce
    with False show ?thesis by (intro exI [of _ "c # u"]) simp
  qed (use Cons.prems in simp)
qed simp

lemma quoted_token_body:
  "ParseToken_from st s v = (TOKEN_TYPE_NORMAL, t, r) \<Longrightarrow>
   st = TOKEN_STATE_SINGLE_QUOTE \<or> st = TOKEN_STATE_DOUBLE_QUOTE \<Longrightarrow>
   \<exists>u. t = v @ u \<and> quote_body (quote_char st) u"
proof (induction "length s" arbitrary: s v rule: less_induct)
  case less
  show ?case
  proof (cases s)
    case Nil
    with less.prems show ?thesis by auto
  next
    case (Cons c s')
    show ?thesis
    proof (cases "c = CHR 0x5C")
      case True
      with less.prems Cons obtain n s'' where s': "s' = n # s''"
        and rec: "ParseToken_from st s'' (v @ [c, n]) = (TOKEN_TYPE_NORMAL, t, r)"
        by (cases s') (auto simp: ParseToken_from_quote)
      from less.hyps [OF _ rec less.prems(2)] Cons s' obtain u
        where "t = (v @ [c, n]) @ u" "quote_body (quote_char st) u" by auto
      with True show ?thesis by (intro exI [of _ "c # n # u"]) simp
    next
      case False
      note ch = this
      show ?thesis
      proof (cases "c = quote_char st")
        case True
        with ch less.prems Cons have "t = v @ [c]"
          by (simp add: ParseToken_from_quote split: list.splits if_splits)
        with True ch show ?thesis by (intro exI [of _ "[c]"]) simp
      next
        case False
        with ch less.prems Cons
        have rec: "ParseToken_from st s' (v @ [c]) = (TOKEN_TYPE_NORMAL, t, r)"
          by (simp add: ParseToken_from_quote)
        from less.hyps [OF _ rec less.prems(2)] Cons obtain u
          where "t = (v @ [c]) @ u" "quote_body (quote_char st) u" by auto
        with ch False show ?thesis by (intro exI [of _ "c # u"]) simp
      qed
    qed
  qed
qed

lemma comment_type:
  "fst (ParseToken_from TOKEN_STATE_TOKEN_TYPE_COMMENT s v) \<in> {TOKEN_TYPE_COMMENT, TOKEN_TYPE_EOF}"
  by (induction s arbitrary: v) auto

lemma ParseToken_NORMAL_wf:
  "ParseToken s = (TOKEN_TYPE_NORMAL, t, r) \<Longrightarrow> wf_token t"
  unfolding ParseToken_def
proof (induction s)
  case (Cons c s)
  let ?rec = "\<lambda>st. ParseToken_from st s [c] = (TOKEN_TYPE_NORMAL, t, r)"
  consider (ws) "IsWhitespace c" | (double) "c = CHR 0x22" "?rec TOKEN_STATE_DOUBLE_QUOTE"
    | (single) "c = CHR 0x27" "?rec TOKEN_STATE_SINGLE_QUOTE"
    | (normal) "\<not> IsWhitespace c" "c \<notin> set ''{}#;'' \<union> {CHR 0x22, CHR 0x27}"
        "?rec TOKEN_STATE_TOKEN_TYPE_NORMAL"
    using Cons.prems comment_type [of s "''#''"] by (auto split: if_splits)
  then show ?case
  proof cases
    case ws
    with Cons show ?thesis by simp
  next
    case double
    with quoted_token_body [OF double(2)] show ?thesis
      by (auto simp: wf_token_def quote_char_def simp del: quote_body.simps)
  next
    case single
    with quoted_token_body [OF single(2)] show ?thesis
      by (auto simp: wf_token_def quote_char_def simp del: quote_body.simps)
  next
    case normal
    then have "\<not> IsTokenDelimiter c" by (auto simp: IsTokenDelimiter_def IsWhitespace_def)
    with normal normal_token_chars [OF normal(3)] show ?thesis
      by (auto simp: wf_token_def plain_token_def)
  qed
qed simp

lemma normal_type:
  "fst (ParseToken_from TOKEN_STATE_TOKEN_TYPE_NORMAL s v) \<in> {TOKEN_TYPE_NORMAL, TOKEN_TYPE_EOF}"
  by (induction s arbitrary: v) auto

lemma quoted_type:
  assumes "st = TOKEN_STATE_SINGLE_QUOTE \<or> st = TOKEN_STATE_DOUBLE_QUOTE"
  shows "fst (ParseToken_from st s v) \<in> {TOKEN_TYPE_NORMAL, TOKEN_TYPE_ERROR}"
proof (induction "length s" arbitrary: s v rule: less_induct)
  case less
  show ?case
  proof (cases s)
    case (Cons c s')
    have IH: "fst (ParseToken_from st u w) = TOKEN_TYPE_NORMAL \<or>
        fst (ParseToken_from st u w) = TOKEN_TYPE_ERROR" if "length u < length s" for u w
      using less [OF that] by simp
    show ?thesis
      by (simp add: Cons ParseToken_from_quote [OF assms] IH split: list.split)
  qed (use assms in auto)
qed

text \<open>The tokens besides \<^verbatim>\<open>NORMAL\<close> are single characters.\<close>

lemma ParseToken_text:
  assumes "ParseToken s = (ty, tok, r)"
  shows "ty \<noteq> TOKEN_TYPE_START \<and> ty \<noteq> TOKEN_TYPE_QUOTED_STRING
    \<and> (ty = TOKEN_TYPE_START_BLOCK \<longrightarrow> tok = ''{'') \<and> (ty = TOKEN_TYPE_END_BLOCK \<longrightarrow> tok = ''}'')
    \<and> (ty = TOKEN_TYPE_STATEMENT_END \<longrightarrow> tok = '';'')"
  using assms unfolding ParseToken_def
proof (induction s)
  case (Cons c s)
  note IH = Cons.IH and prems = Cons.prems
  have q: "ty = TOKEN_TYPE_NORMAL \<or> ty = TOKEN_TYPE_ERROR"
    if "ParseToken_from TOKEN_STATE_SINGLE_QUOTE s v = (ty, tok, r) \<or>
        ParseToken_from TOKEN_STATE_DOUBLE_QUOTE s v = (ty, tok, r)" for v
    using that quoted_type [of TOKEN_STATE_SINGLE_QUOTE s v]
      quoted_type [of TOKEN_STATE_DOUBLE_QUOTE s v] by auto
  have "ty = TOKEN_TYPE_COMMENT \<or> ty = TOKEN_TYPE_EOF"
    if "ParseToken_from TOKEN_STATE_TOKEN_TYPE_COMMENT s v = (ty, tok, r)" for v
    using that comment_type [of s v] by auto
  moreover have "ty = TOKEN_TYPE_NORMAL \<or> ty = TOKEN_TYPE_EOF"
    if "ParseToken_from TOKEN_STATE_TOKEN_TYPE_NORMAL s v = (ty, tok, r)" for v
    using that normal_type [of s v] by auto
  ultimately show ?case
    using IH prems q by (simp split: if_splits) blast+
qed simp

subsection \<open>The grammar the parser accepts\<close>

text \<open>
  The reference the parser is compared with: \<open>token_stream s\<close> is every token of \<open>s\<close> up to
  the end of the file, comments left out, or \<open>None\<close> when the tokenizer reports an error;
  \<open>config_tokens c\<close> is the sequence of tokens the configuration \<open>c\<close> is written with.
\<close>

type_synonym token = "TokenType \<times> string"

function token_stream :: "string \<Rightarrow> token list option" where
  "token_stream s =
     (case ParseToken s of (ty, tok, s') \<Rightarrow>
        if ty = TOKEN_TYPE_ERROR then None
        else if ty = TOKEN_TYPE_EOF then Some []
        else if ty = TOKEN_TYPE_COMMENT then token_stream s'
        else prepend [(ty, tok)] (token_stream s'))"
  by pat_completeness auto
termination
  by (relation "measure length") (simp, (metis ParseToken_shorter in_measure)+)

declare token_stream.simps [simp del]

abbreviation normal_tokens :: "string list \<Rightarrow> token list" where
  "normal_tokens ts \<equiv> map (Pair TOKEN_TYPE_NORMAL) ts"

fun config_tokens :: "NginxConfig \<Rightarrow> token list"
  and statement_tokens :: "NginxConfigStatement \<Rightarrow> token list" where
  "config_tokens (NginxConfig ss) = concat (map statement_tokens ss)"
| "statement_tokens (NginxConfigStatement ts child) =
     normal_tokens ts @
     (case child of
        None \<Rightarrow> [(TOKEN_TYPE_STATEMENT_END, '';'')]
      | Some c \<Rightarrow> (TOKEN_TYPE_START_BLOCK, ''{'') # config_tokens c @ [(TOKEN_TYPE_END_BLOCK, ''}'')])"

subsubsection \<open>Printing produces exactly the tokens of the tree\<close>

lemma token_stream_Nil [parse_simps]: "token_stream [] = Some []"
  by (simp add: token_stream.simps [of "[]"] ParseToken_def)

lemma token_stream_whitespace [parse_simps]:
  "IsWhitespace c \<Longrightarrow> token_stream (c # s) = token_stream s"
  by (simp add: token_stream.simps [of "c # s"] token_stream.simps [of s] ParseToken_whitespace)

lemma token_stream_punctuation [parse_simps]:
  "token_stream (CHR '';'' # s) = prepend [(TOKEN_TYPE_STATEMENT_END, '';'')] (token_stream s)"
  "token_stream (CHR ''{'' # s) = prepend [(TOKEN_TYPE_START_BLOCK, ''{'')] (token_stream s)"
  "token_stream (CHR ''}'' # s) = prepend [(TOKEN_TYPE_END_BLOCK, ''}'')] (token_stream s)"
  by (simp_all add: token_stream.simps [of "_ # s"] ParseToken_def IsWhitespace_def)

lemma token_stream_token [parse_simps]:
  "wf_token t \<Longrightarrow> IsTokenDelimiter d \<Longrightarrow>
   token_stream (t @ d # s) = prepend [(TOKEN_TYPE_NORMAL, t)] (token_stream (d # s))"
  by (simp add: token_stream.simps [of "t @ d # s"] ParseToken_wf_token)

lemma token_stream_indent [parse_simps]: "token_stream (indent n @ s) = token_stream s"
  by (induction n) (simp_all add: token_stream_whitespace IsWhitespace_def)

lemma token_stream_join:
  "list_all wf_token ts \<Longrightarrow> IsTokenDelimiter d \<Longrightarrow>
   token_stream (join_tokens ts @ d # s) = prepend (normal_tokens ts) (token_stream (d # s))"
  by (induction ts rule: join_tokens.induct)
    (simp_all add: parse_simps IsTokenDelimiter_def IsWhitespace_def)

lemma token_stream_ToString:
  "wf_config c \<Longrightarrow>
     token_stream (ToString d c @ s) = prepend (config_tokens c) (token_stream s)"
  "wf_statement st \<Longrightarrow>
     token_stream (Statement_ToString d st @ s) = prepend (statement_tokens st) (token_stream s)"
proof (induction d c and d st arbitrary: s and s rule: ToString_Statement_ToString.induct)
  case (1 depth ss)
  have "list_all wf_statement ss \<Longrightarrow> (\<And>st s. st \<in> set ss \<Longrightarrow> wf_statement st \<Longrightarrow>
      token_stream (Statement_ToString depth st @ s)
      = prepend (statement_tokens st) (token_stream s)) \<Longrightarrow>
      token_stream (concat (map (Statement_ToString depth) ss) @ s)
      = prepend (concat (map statement_tokens ss)) (token_stream s)"
    by (induction ss) (simp_all)
  with 1 show ?case by simp
next
  case (2 depth ts child)
  have ws: "IsWhitespace LF" "IsWhitespace SPACE" "IsTokenDelimiter SPACE" "IsTokenDelimiter (CHR '';'')"
    by (simp_all add: IsWhitespace_def IsTokenDelimiter_def)
  show ?case
  proof (cases child)
    case None
    with 2 ws show ?thesis
      by (simp add: parse_simps token_stream_join)
  next
    case (Some c)
    with 2 have IH: "token_stream (ToString (depth + 1) c @ s) =
        prepend (config_tokens c) (token_stream s)" for s by simp
    with 2 ws Some show ?thesis
      by (simp add: parse_simps token_stream_join)
  qed
qed

subsubsection \<open>The parser as a run over the tokens\<close>

fun Parse_tokens :: "token list \<Rightarrow> parser_state \<Rightarrow> parse_result" where
  "Parse_tokens [] st =
     (case Parse_step st TOKEN_TYPE_EOF [] of Inl r \<Rightarrow> r | Inr _ \<Rightarrow> Undefined_behaviour)"
| "Parse_tokens ((ty, tok) # ts) st =
     (case Parse_step st ty tok of Inl r \<Rightarrow> r | Inr st' \<Rightarrow> Parse_tokens ts st')"

lemma Parse_step_EOF: "Parse_step st TOKEN_TYPE_EOF tok = Parse_step st TOKEN_TYPE_EOF []"
  by (simp add: Parse_step_def Let_def split: list.split)

lemma Parse_step_COMMENT:
  "config_stack st \<noteq> [] \<Longrightarrow> Parse_step st TOKEN_TYPE_COMMENT tok = Inr st"
  by (simp add: Parse_step_def Let_def split: list.split)

lemma Parse_step_stack:
  "Parse_step st ty tok = Inr st' \<Longrightarrow> config_stack st' \<noteq> []"
  by (auto simp: Parse_step_def Let_def split: list.splits if_splits)

lemma Parse_loop_tokens:
  "token_stream s = Some ts \<Longrightarrow> config_stack st \<noteq> [] \<Longrightarrow> Parse_loop s st = Parse_tokens ts st"
proof (induction s arbitrary: st ts rule: token_stream.induct)
  case (1 s)
  obtain ty tok s' where tok: "ParseToken s = (ty, tok, s')" by (cases "ParseToken s")
  show ?case
  proof (cases "ty = TOKEN_TYPE_EOF")
    case True
    with "1.prems" tok show ?thesis
      using Parse_step_stops [of ty st tok] Parse_step_EOF [of st tok]
      by (auto simp: token_stream.simps [of s] Parse_loop.simps [of s])
  next
    case False
    have err: "ty \<noteq> TOKEN_TYPE_ERROR"
      using "1.prems"(1) tok by (auto simp: token_stream.simps [of s])
    show ?thesis
    proof (cases "ty = TOKEN_TYPE_COMMENT")
      case True
      with "1.prems" "1.IH"(1) tok show ?thesis
        by (simp add: token_stream.simps [of s] Parse_loop.simps [of s] Parse_step_COMMENT)
    next
      case False
      with \<open>ty \<noteq> TOKEN_TYPE_EOF\<close> err "1.prems"(1) tok obtain ts' where
        ts: "ts = (ty, tok) # ts'" "token_stream s' = Some ts'"
        by (cases "token_stream s'") (auto simp: token_stream.simps [of s])
      show ?thesis
      proof (cases "Parse_step st ty tok")
        case (Inr st')
        with "1.IH"(2) [OF tok [symmetric] refl err \<open>ty \<noteq> TOKEN_TYPE_EOF\<close> False ts(2)]
        show ?thesis
          by (simp add: ts tok Parse_loop.simps [of s] Parse_step_stack)
      qed (simp add: ts tok Parse_loop.simps [of s])
    qed
  qed
qed

text \<open>Only the end of the file makes the parser accept.\<close>

lemma Parse_step_Accepted:
  "Parse_step st ty tok = Inl (Accepted c) \<Longrightarrow> ty = TOKEN_TYPE_EOF"
  by (auto simp: Parse_step_def Let_def split: list.splits if_splits)

lemma Parse_loop_Accepted_stream:
  "Parse_loop s st = Accepted c \<Longrightarrow> config_stack st \<noteq> [] \<Longrightarrow> token_stream s \<noteq> None"
proof (induction s arbitrary: st rule: token_stream.induct)
  case (1 s)
  obtain ty tok s' where tok: "ParseToken s = (ty, tok, s')" by (cases "ParseToken s")
  show ?case
  proof (cases "Parse_step st ty tok")
    case (Inl r)
    with "1.prems" tok Parse_step_Accepted [of st ty tok c] show ?thesis
      by (simp add: token_stream.simps [of s] Parse_loop.simps [of s])
  next
    case (Inr st')
    then have ty: "ty \<noteq> TOKEN_TYPE_ERROR" "ty \<noteq> TOKEN_TYPE_EOF"
      using Parse_step_stops [of ty st tok] by auto
    from Inr "1.prems" tok have "Parse_loop s' st' = Accepted c"
      by (simp add: Parse_loop.simps [of s])
    with "1.IH" tok ty Parse_step_stack [OF Inr] have "token_stream s' \<noteq> None"
      by (cases "ty = TOKEN_TYPE_COMMENT") auto
    with tok ty show ?thesis by (auto simp: token_stream.simps [of s])
  qed
qed

subsubsection \<open>The tokens of a configuration build it\<close>

text \<open>The last token of a non-empty list of statements.\<close>

definition end_type :: "TokenType \<Rightarrow> NginxConfigStatement list \<Rightarrow> TokenType" where
  "end_type lt ss =
     (if ss = [] then lt
      else if child_block (last ss) = None then TOKEN_TYPE_STATEMENT_END else TOKEN_TYPE_END_BLOCK)"

abbreviation at :: "NginxConfigStatement list list \<Rightarrow> TokenType \<Rightarrow> parser_state" where
  "at stack lt \<equiv> \<lparr>config_stack = stack, last_token_type = lt\<rparr>"

lemma end_type_Nil [simp]: "end_type lt [] = lt"
  by (simp add: end_type_def)

lemma end_type_append [simp]: "end_type (end_type lt ss) ss' = end_type lt (ss @ ss')"
  by (simp add: end_type_def)

lemma Parse_step_first_token [parse_simps]:
  "CanFollowWithToken lt \<Longrightarrow> lt \<noteq> TOKEN_TYPE_NORMAL \<Longrightarrow>
   Parse_step (at (f # fs) lt) TOKEN_TYPE_NORMAL t
   = Inr (at ((f @ [NginxConfigStatement [t] None]) # fs) TOKEN_TYPE_NORMAL)"
  by (simp add: Parse_step_def push_token_def Let_def)

lemma Parse_step_next_token [parse_simps]:
  "Parse_step (at ((f @ [NginxConfigStatement ts ch]) # fs) TOKEN_TYPE_NORMAL) TOKEN_TYPE_NORMAL t
   = Inr (at ((f @ [NginxConfigStatement (ts @ [t]) ch]) # fs) TOKEN_TYPE_NORMAL)"
  by (simp add: Parse_step_def push_token_def Let_def CanFollowWithToken_def)

lemma Parse_step_end [parse_simps]:
  "Parse_step (at (f # fs) TOKEN_TYPE_NORMAL) TOKEN_TYPE_STATEMENT_END t
   = Inr (at (f # fs) TOKEN_TYPE_STATEMENT_END)"
  by (simp add: Parse_step_def Let_def IsValidTokenPredecessor_def)

lemma Parse_step_open [parse_simps]:
  "f \<noteq> [] \<Longrightarrow> Parse_step (at (f # fs) TOKEN_TYPE_NORMAL) TOKEN_TYPE_START_BLOCK t
   = Inr (at ([] # f # fs) TOKEN_TYPE_START_BLOCK)"
  by (simp add: Parse_step_def Let_def IsValidTokenPredecessor_def)

lemma Parse_step_close [parse_simps]:
  "lt = TOKEN_TYPE_STATEMENT_END \<or> lt = TOKEN_TYPE_END_BLOCK \<Longrightarrow>
   Parse_step (at (f # (g @ [NginxConfigStatement ts ch]) # fs) lt) TOKEN_TYPE_END_BLOCK t
   = Inr (at ((g @ [NginxConfigStatement ts (Some (NginxConfig f))]) # fs) TOKEN_TYPE_END_BLOCK)"
  by (auto simp add: Parse_step_def Let_def plug_def)

lemma Parse_step_accept [parse_simps]:
  "lt = TOKEN_TYPE_STATEMENT_END \<or> lt = TOKEN_TYPE_END_BLOCK \<Longrightarrow>
   Parse_step (at [f] lt) TOKEN_TYPE_EOF t = Inl (Accepted (NginxConfig f))"
  by (auto simp add: Parse_step_def Let_def)

lemma Parse_tokens_more:
  "Parse_tokens (normal_tokens us @ r) (at ((f @ [NginxConfigStatement ts None]) # fs) TOKEN_TYPE_NORMAL)
   = Parse_tokens r (at ((f @ [NginxConfigStatement (ts @ us) None]) # fs) TOKEN_TYPE_NORMAL)"
  by (induction us arbitrary: ts) (simp_all add: parse_simps)

definition starts_statement :: "TokenType \<Rightarrow> bool" where
  "starts_statement lt \<longleftrightarrow> CanFollowWithToken lt \<and> lt \<noteq> TOKEN_TYPE_NORMAL"

lemma starts_statement_end_type [simp]: "starts_statement lt \<Longrightarrow> starts_statement (end_type lt ss)"
  by (auto simp: end_type_def starts_statement_def CanFollowWithToken_def)

lemma Parse_tokens_config:
  "wf_config c \<Longrightarrow> starts_statement lt \<Longrightarrow>
     Parse_tokens (config_tokens c @ r) (at (f # fs) lt)
     = Parse_tokens r (at ((f @ statements c) # fs) (end_type lt (statements c)))"
  "wf_statement st \<Longrightarrow> starts_statement lt \<Longrightarrow>
     Parse_tokens (statement_tokens st @ r) (at (f # fs) lt)
     = Parse_tokens r (at ((f @ [st]) # fs) (end_type lt [st]))"
proof (induction c and st arbitrary: lt f fs r and lt f fs r rule: config_tokens_statement_tokens.induct)
  case (1 ss)
  have "list_all wf_statement ss \<Longrightarrow>
      (\<And>st lt f fs r. st \<in> set ss \<Longrightarrow> wf_statement st \<Longrightarrow> starts_statement lt \<Longrightarrow>
        Parse_tokens (statement_tokens st @ r) (at (f # fs) lt)
        = Parse_tokens r (at ((f @ [st]) # fs) (end_type lt [st]))) \<Longrightarrow>
      starts_statement lt \<Longrightarrow>
      Parse_tokens (concat (map statement_tokens ss) @ r) (at (f # fs) lt)
      = Parse_tokens r (at ((f @ ss) # fs) (end_type lt ss))"
    by (induction ss arbitrary: lt f) simp_all
  with 1 show ?case by simp
next
  case (2 ts child)
  then obtain t us where ts: "ts = t # us" by (cases ts) auto
  have start: "Parse_tokens (normal_tokens ts @ r') (at (f # fs) lt)
      = Parse_tokens r' (at ((f @ [NginxConfigStatement ts None]) # fs) TOKEN_TYPE_NORMAL)" for r'
    using "2.prems"(2)
    by (simp add: ts starts_statement_def parse_simps Parse_tokens_more)
  show ?case
  proof (cases child)
    case None
    then show ?thesis using start by (simp add: parse_simps end_type_def)
  next
    case (Some c)
    with "2.prems"(1) have wf: "wf_config c" "statements c \<noteq> []" by (cases c; simp)+
    have "end_type TOKEN_TYPE_START_BLOCK (statements c) = TOKEN_TYPE_STATEMENT_END \<or>
        end_type TOKEN_TYPE_START_BLOCK (statements c) = TOKEN_TYPE_END_BLOCK"
      using wf(2) by (simp add: end_type_def)
    moreover have "Parse_tokens (config_tokens c @ r') (at ([] # g # fs) TOKEN_TYPE_START_BLOCK)
        = Parse_tokens r' (at (statements c # g # fs) (end_type TOKEN_TYPE_START_BLOCK (statements c)))"
      for r' g
      using "2.IH" [OF Some wf(1), of TOKEN_TYPE_START_BLOCK r' "[]" "g # fs"]
      by (simp add: starts_statement_def CanFollowWithToken_def)
    ultimately show ?thesis using start Some by (simp add: parse_simps end_type_def)
  qed
qed

subsubsection \<open>The invariant of the parser state\<close>

text \<open>
  Every statement built so far is well-formed, every block below the innermost one ends in
  a statement that waits for its block, and the innermost one has a statement unless it was
  just opened. \<open>state_tokens\<close> is the text of the state as tokens: what has been read.
\<close>

definition waits :: "NginxConfigStatement list \<Rightarrow> bool" where
  "waits g \<longleftrightarrow> g \<noteq> [] \<and> child_block (last g) = None"

definition parser_inv :: "parser_state \<Rightarrow> bool" where
  "parser_inv st \<longleftrightarrow>
     (\<exists>f fs. config_stack st = f # fs \<and> list_all wf_statement f
       \<and> (\<forall>g\<in>set fs. list_all wf_statement g \<and> waits g)
       \<and> (case last_token_type st of
            TOKEN_TYPE_START \<Rightarrow> f = [] \<and> fs = []
          | TOKEN_TYPE_START_BLOCK \<Rightarrow> f = [] \<and> fs \<noteq> []
          | TOKEN_TYPE_NORMAL \<Rightarrow> waits f
          | TOKEN_TYPE_STATEMENT_END \<Rightarrow> f \<noteq> []
          | TOKEN_TYPE_END_BLOCK \<Rightarrow> f \<noteq> []
          | _ \<Rightarrow> False))"

definition open_tokens :: "NginxConfigStatement list \<Rightarrow> token list" where
  "open_tokens f = concat (map statement_tokens (butlast f)) @ normal_tokens (tokens (last f))"

fun outer_tokens :: "NginxConfigStatement list list \<Rightarrow> token list" where
  "outer_tokens [] = []"
| "outer_tokens (g # gs) = outer_tokens gs @ open_tokens g @ [(TOKEN_TYPE_START_BLOCK, ''{'')]"

definition state_tokens :: "parser_state \<Rightarrow> token list" where
  "state_tokens st =
     (case config_stack st of
        [] \<Rightarrow> []
      | f # fs \<Rightarrow> outer_tokens fs @
          (if last_token_type st = TOKEN_TYPE_NORMAL then open_tokens f
           else concat (map statement_tokens f)))"

text \<open>The tokens a file can contain.\<close>

definition good_token :: "token \<Rightarrow> bool" where
  "good_token p \<longleftrightarrow> (case p of (ty, tok) \<Rightarrow>
     ty = TOKEN_TYPE_NORMAL \<and> wf_token tok \<or> ty = TOKEN_TYPE_STATEMENT_END \<and> tok = '';'' \<or>
     ty = TOKEN_TYPE_START_BLOCK \<and> tok = ''{'' \<or> ty = TOKEN_TYPE_END_BLOCK \<and> tok = ''}'')"

lemma token_stream_good: "token_stream s = Some ts \<Longrightarrow> list_all good_token ts"
proof (induction s arbitrary: ts rule: token_stream.induct)
  case (1 s)
  obtain ty tok s' where tok: "ParseToken s = (ty, tok, s')" by (cases "ParseToken s")
  from 1 tok ParseToken_text [OF tok] ParseToken_NORMAL_wf [of s tok s'] show ?case
    by (cases ty; cases "token_stream s'")
      (auto simp: token_stream.simps [of s] good_token_def)
qed

lemma waits_snoc:
  "waits g \<longleftrightarrow> (\<exists>g' ts. g = g' @ [NginxConfigStatement ts None])"
proof (cases g rule: rev_cases)
  case (snoc g' x)
  then show ?thesis by (cases x) (auto simp: waits_def)
qed (simp add: waits_def)

lemma parser_inv_step:
  assumes inv: "parser_inv st" and good: "good_token (ty, tok)"
    and step: "Parse_step st ty tok = Inr st'"
  shows "parser_inv st' \<and> state_tokens st' = state_tokens st @ [(ty, tok)]"
proof -
  obtain f fs lt where st: "st = at (f # fs) lt"
    using inv by (cases st) (auto simp: parser_inv_def)
  consider "ty = TOKEN_TYPE_NORMAL" "lt = TOKEN_TYPE_NORMAL" "wf_token tok"
    | "ty = TOKEN_TYPE_NORMAL" "lt \<noteq> TOKEN_TYPE_NORMAL" "wf_token tok"
    | "ty = TOKEN_TYPE_STATEMENT_END" "tok = '';''" | "ty = TOKEN_TYPE_START_BLOCK" "tok = ''{''"
    | "ty = TOKEN_TYPE_END_BLOCK" "tok = ''}''"
    using good by (auto simp: good_token_def)
  then show ?thesis
  proof cases
    case 1
    with inv st obtain g ts where "f = g @ [NginxConfigStatement ts None]"
      by (auto simp: parser_inv_def waits_snoc)
    with 1 inv step st show ?thesis
      by (auto simp: parse_simps parser_inv_def state_tokens_def open_tokens_def waits_def)
  next
    case 2
    with inv st have "CanFollowWithToken lt"
      by (auto simp: parser_inv_def CanFollowWithToken_def split: TokenType.splits)
    with 2 inv step st show ?thesis
      by (auto simp: parse_simps parser_inv_def state_tokens_def open_tokens_def waits_def)
  next
    case 3
    with inv st step have lt: "lt = TOKEN_TYPE_NORMAL"
      by (auto simp: parser_inv_def Parse_step_def IsValidTokenPredecessor_def Let_def split: if_splits)
    with inv st obtain g ts where "f = g @ [NginxConfigStatement ts None]"
      by (auto simp: parser_inv_def waits_snoc)
    with 3 lt inv step st show ?thesis
      by (auto simp: parse_simps parser_inv_def state_tokens_def open_tokens_def)
  next
    case 4
    with inv st step have lt: "lt = TOKEN_TYPE_NORMAL"
      by (auto simp: parser_inv_def Parse_step_def IsValidTokenPredecessor_def Let_def split: if_splits)
    with 4 inv step st show ?thesis
      by (auto simp: parse_simps parser_inv_def state_tokens_def waits_def)
  next
    case 5
    with st step have lt: "lt = TOKEN_TYPE_STATEMENT_END \<or> lt = TOKEN_TYPE_END_BLOCK"
      by (auto simp: Parse_step_def Let_def split: if_splits)
    from 5 st step obtain g gs where fs: "fs = g # gs"
      by (cases fs) (auto simp: Parse_step_def Let_def split: if_splits)
    with inv st obtain g' ts where g: "g = g' @ [NginxConfigStatement ts None]"
      by (auto simp: parser_inv_def waits_snoc)
    from inv st lt have "f \<noteq> []" by (auto simp: parser_inv_def)
    with 5 lt inv step st fs g show ?thesis
      by (auto simp: parse_simps parser_inv_def state_tokens_def open_tokens_def)
  qed
qed

lemma parser_inv_defined:
  "parser_inv st \<Longrightarrow> Parse_step st ty tok \<noteq> Inl Undefined_behaviour"
  by (auto simp: parser_inv_def Parse_step_def Let_def waits_def IsValidTokenPredecessor_def
      split: if_splits list.splits)

lemma parser_inv_accept:
  assumes "parser_inv st" and "Parse_step st TOKEN_TYPE_EOF tok = Inl (Accepted c)"
  shows "wf_config c \<and> config_tokens c = state_tokens st"
  using assms by (auto simp: parser_inv_def Parse_step_def Let_def state_tokens_def
      split: if_splits list.splits)

lemma Parse_tokens_sound:
  "Parse_tokens ts st = Accepted c \<Longrightarrow> parser_inv st \<Longrightarrow> list_all good_token ts \<Longrightarrow>
   wf_config c \<and> config_tokens c = state_tokens st @ ts"
proof (induction ts arbitrary: st)
  case Nil
  then show ?case using parser_inv_accept [of st "[]" c] by (auto split: sum.splits)
next
  case (Cons p ts)
  obtain ty tok where p: "p = (ty, tok)" by (cases p)
  show ?case
  proof (cases "Parse_step st ty tok")
    case (Inl r)
    with Cons.prems p Parse_step_Accepted [of st ty tok c] show ?thesis
      by (auto simp: good_token_def)
  next
    case (Inr st')
    with Cons.prems p parser_inv_step [of st ty tok st'] Cons.IH [of st'] show ?thesis by simp
  qed
qed

lemma parser_inv_start: "parser_inv (at [[]] TOKEN_TYPE_START)"
  by (simp add: parser_inv_def)

lemma Parse_of_stream:
  assumes ts: "token_stream s = Some (config_tokens c)" and wf: "wf_config c"
  shows "Parse s (NginxConfig []) = Accepted c"
proof -
  obtain ss where c: "c = NginxConfig ss" "ss \<noteq> []" using wf by (cases c) auto
  have "end_type TOKEN_TYPE_START ss = TOKEN_TYPE_STATEMENT_END
      \<or> end_type TOKEN_TYPE_START ss = TOKEN_TYPE_END_BLOCK"
    using c(2) by (simp add: end_type_def)
  then have "Parse_tokens (config_tokens c) (at [[]] TOKEN_TYPE_START) = Accepted c"
    using Parse_tokens_config(1) [OF wf, of TOKEN_TYPE_START "[]" "[]" "[]"]
    by (auto simp: c parse_simps starts_statement_def CanFollowWithToken_def)
  with ts show ?thesis by (simp add: Parse_def Parse_loop_tokens)
qed

lemma Parse_stream:
  assumes acc: "Parse s (NginxConfig []) = Accepted c"
  shows "token_stream s = Some (config_tokens c)" "wf_config c"
proof -
  from acc obtain ts where ts: "token_stream s = Some ts"
    using Parse_loop_Accepted_stream [of s "at [[]] TOKEN_TYPE_START" c] by (auto simp: Parse_def)
  with acc have "Parse_tokens ts (at [[]] TOKEN_TYPE_START) = Accepted c"
    by (simp add: Parse_def Parse_loop_tokens)
  from Parse_tokens_sound [OF this parser_inv_start token_stream_good [OF ts]]
  show "token_stream s = Some (config_tokens c)" "wf_config c"
    by (simp_all add: ts state_tokens_def)
qed

lemma Parse_ToString_rest:
  "wf_config c \<Longrightarrow> token_stream rest = Some [] \<Longrightarrow>
   Parse (ToString depth c @ rest) (NginxConfig []) = Accepted c"
  by (rule Parse_of_stream) (simp_all add: token_stream_ToString(1))

lemma Parse_loop_defined:
  "parser_inv st \<Longrightarrow> Parse_loop s st \<noteq> Undefined_behaviour"
proof (induction "length s" arbitrary: s st rule: less_induct)
  case less
  obtain ty tok s' where tok: "ParseToken s = (ty, tok, s')" by (cases "ParseToken s")
  show ?case
  proof (cases "Parse_step st ty tok")
    case (Inl r)
    with tok parser_inv_defined [OF less.prems, of ty tok] show ?thesis
      by (auto simp: Parse_loop.simps [of s])
  next
    case (Inr st')
    then have ty: "ty \<noteq> TOKEN_TYPE_EOF" "ty \<noteq> TOKEN_TYPE_ERROR"
      using Parse_step_stops [of ty st tok] by auto
    have "parser_inv st'"
    proof (cases "ty = TOKEN_TYPE_COMMENT")
      case True
      with Inr less.prems show ?thesis
        using Parse_step_COMMENT [of st tok] by (auto simp: parser_inv_def)
    next
      case False
      with tok ty ParseToken_text [OF tok] ParseToken_NORMAL_wf [of s tok s']
      have "good_token (ty, tok)" by (cases ty) (auto simp: good_token_def)
      with parser_inv_step [OF less.prems _ Inr] show ?thesis by blast
    qed
    with less.hyps Parse_continues_shorter [OF tok Inr] Inr tok show ?thesis
      by (auto simp: Parse_loop.simps [of s])
  qed
qed

text \<open>A word the file ends in, with no delimiter after it, is no token at all.\<close>

lemma token_stream_unterminated:
  assumes "plain_token t"
  shows "token_stream t = Some []"
proof -
  have "ParseToken_from TOKEN_STATE_TOKEN_TYPE_NORMAL u v = (TOKEN_TYPE_EOF, v @ u, [])"
    if "\<forall>c\<in>set u. \<not> IsTokenDelimiter c" for u v
    using that by (induction u arbitrary: v) auto
  moreover obtain c u where "t = c # u" using assms by (cases t) (auto simp: plain_token_def)
  ultimately show ?thesis
    using assms by (auto simp: plain_token_def token_stream.simps [of "c # u"] ParseToken_def)
qed

subsection \<open>Properties of the parser\<close>

text \<open>
  C10: the parser accepts exactly the well-formed configurations, and builds the one
  the file is written as. \<open>Parse\<close> on an empty configuration returns true with the tree \<open>c\<close>
  if and only if the tokenizer reports no error, the tokens of the file (comments apart) are
  the tokens of \<open>c\<close> in order, and \<open>c\<close> is well-formed: no block is empty and every
  statement has a token. No token is invented, dropped, reordered or put into another block.
\<close>

theorem Parse_iff:
  "Parse s (NginxConfig []) = Accepted c \<longleftrightarrow> token_stream s = Some (config_tokens c) \<and> wf_config c"
  using Parse_of_stream Parse_stream by blast

text \<open>
  C36: printing a well-formed configuration and parsing the text gives the
  configuration back, for tokens that are plain words and for quoted strings with escapes.
\<close>

theorem Parse_ToString:
  "wf_config c \<Longrightarrow> Parse (ToString 0 c) (NginxConfig []) = Accepted c"
  using Parse_ToString_rest [of c "[]" 0] by (simp add: token_stream_Nil)

definition sample_config :: NginxConfig where
  "sample_config = NginxConfig
     [NginxConfigStatement [''server''] (Some (NginxConfig
        [NginxConfigStatement [''listen'', ''80''] None,
         NginxConfigStatement [''location'', ''/echo''] (Some (NginxConfig
           [NginxConfigStatement [''handler'', ''EchoHandler''] None]))]))]"

lemma wf_sample_config: "wf_config sample_config"
  by (simp add: sample_config_def wf_token_def plain_token_def IsWhitespace_def IsTokenDelimiter_def)

theorem Parse_ToString_witness:
  "wf_config sample_config \<and> Parse (ToString 0 sample_config) (NginxConfig []) = Accepted sample_config"
  using Parse_ToString [OF wf_sample_config] wf_sample_config by blast

text \<open>
  The parser never reaches undefined behaviour: on any file it never calls
  \<^verbatim>\<open>back()\<close> on an empty statement list or \<^verbatim>\<open>top()\<close> on an empty stack, and it returns.
\<close>

lemma Parse_defined:
  "Parse s (NginxConfig []) \<noteq> Undefined_behaviour"
  using Parse_loop_defined [OF parser_inv_start] by (simp add: Parse_def)

text \<open>
  An accepted file can be replaced by its printed form: parsing the printed
  configuration succeeds and gives the same configuration.
\<close>

lemma Parse_reparse:
  assumes "Parse s (NginxConfig []) = Accepted c"
  shows "Parse (ToString 0 c) (NginxConfig []) = Accepted c"
  using Parse_stream(2) [OF assms] Parse_ToString_rest [of c "[]" 0]
  by (simp add: token_stream_Nil)

text \<open>
  A word after the last statement that the file ends in without a
  delimiter is dropped silently: the tokenizer reports the end of the file instead of the
  word, so \<open>Parse\<close> returns true, although the same word followed by a newline is rejected
  as an unfinished statement.
\<close>

lemma Parse_drops_last_word:
  assumes "wf_config c" and "plain_token t"
  shows "Parse (ToString 0 c @ t) (NginxConfig []) = Accepted c
    \<and> (\<forall>d. Parse (ToString 0 c @ t @ [LF]) (NginxConfig []) \<noteq> Accepted d)"
proof
  show "Parse (ToString 0 c @ t) (NginxConfig []) = Accepted c"
    using assms by (rule Parse_ToString_rest [OF _ token_stream_unterminated])
next
  have wf: "wf_token t" "IsTokenDelimiter LF" "IsWhitespace LF"
    using assms(2) by (simp_all add: wf_token_def IsTokenDelimiter_def IsWhitespace_def)
  then have ts: "token_stream (ToString 0 c @ t @ [LF])
      = Some (config_tokens c @ [(TOKEN_TYPE_NORMAL, t)])"
    using assms(1) token_stream_token [of t LF "[]"]
    by (simp add: token_stream_ToString(1) token_stream_whitespace token_stream_Nil)
  show "\<forall>d. Parse (ToString 0 c @ t @ [LF]) (NginxConfig []) \<noteq> Accepted d"
  proof (intro allI notI)
    fix d
    assume "Parse (ToString 0 c @ t @ [LF]) (NginxConfig []) = Accepted d"
    from Parse_stream [OF this] ts
    have toks: "config_tokens d = config_tokens c @ [(TOKEN_TYPE_NORMAL, t)]" and "wf_config d"
      by simp_all
    then obtain ss st where "d = NginxConfig (ss @ [st])"
      by (cases d) (auto simp: neq_Nil_conv, metis append_butlast_last_id list.discI)
    with toks show False by (cases st) (auto split: option.splits)
  qed
qed

end
