(* ===== verification/Server_Config.thy ===== *)
theory Server_Config
  imports Config_Parser Dispatcher
begin

text \<open>
  From the configuration file to a dispatcher and a port: \<^verbatim>\<open>src/server_main_utils.cc\<close> apart
  from its set-up of the log. The registry is static in the code; here it is passed along.
  Creating a persistent store makes its data directory, which the model of the disk takes
  for granted.

  \<^verbatim>\<open>int\<close> has 32 bits and \<^verbatim>\<open>short\<close> has 16. \<^verbatim>\<open>atoi\<close> is the one of glibc: \<^verbatim>\<open>strtol\<close>, which clamps to
  64 bits, and a conversion to \<^verbatim>\<open>int\<close> that keeps the low bits.
\<close>

definition atoi :: "string \<Rightarrow> cint" where
  "atoi s =
     (let s1 = dropWhile isspace s;
          (negative, s2) =
            (case s1 of
               [] \<Rightarrow> (False, s1)
             | c # r \<Rightarrow> if c = CHR ''-'' then (True, r) else if c = CHR ''+'' then (False, r) else (False, s1));
          v = int (dec_value (takeWhile isdigit s2));
          l = (if negative then max (- (2 ^ 63)) (- v) else min (2 ^ 63 - 1) v)
      in word_of_int l)"

definition validate_arguments :: "int \<Rightarrow> bool" where
  "validate_arguments argc \<longleftrightarrow> argc = 2"

text \<open>\<^verbatim>\<open>config\<close> may be a null pointer; then the answer is \<^verbatim>\<open>false\<close> and there is nothing to change.\<close>

definition load_config_from_file :: "(string \<rightharpoonup> string) \<Rightarrow> string \<Rightarrow> NginxConfig option \<Rightarrow> parse_result option" where
  "load_config_from_file files file_path config =
     (case config of None \<Rightarrow> None | Some c \<Rightarrow> Some (Parse_file files file_path c))"

text \<open>The factory made for a location, by the name of its handler.\<close>

definition location_factory :: "LocationConfig \<Rightarrow> HandlerFactory option" where
  "location_factory location =
     (if handler_name location = ''EchoHandler'' then Some (EchoHandlerFactory location)
      else if handler_name location = ''StaticHandler'' then Some (StaticHandlerFactory location)
      else if handler_name location = ''HealthHandler'' then Some (HealthHandlerFactory location)
      else if handler_name location = ''SleepHandler'' then Some (SleepHandlerFactory location)
      else if handler_name location = ''ApiHandler'' then
        (let data_path = (case map_of (args location) ''data_path'' of None \<Rightarrow> ''.'' | Some p \<Rightarrow> p)
         in Some (ApiHandlerFactory location (Some data_path)))
      else None)"

definition RegisterHandlerForLocation :: "LocationConfig \<Rightarrow> factories \<Rightarrow> bool \<times> factories" where
  "RegisterHandlerForLocation location reg =
     (if handler_name location = [] then (False, reg)
      else (case location_factory location of
              None \<Rightarrow> (False, reg)
            | Some factory \<Rightarrow> (True, RegisterHandler (path location) factory reg)))"

text \<open>One directive inside a location block.\<close>

definition set_arg :: "string \<Rightarrow> string \<Rightarrow> LocationConfig \<Rightarrow> LocationConfig" where
  "set_arg k v location = location\<lparr>args := AList.update k v (args location)\<rparr>"

definition location_directive :: "NginxConfigStatement \<Rightarrow> LocationConfig \<Rightarrow> LocationConfig" where
  "location_directive location_stmt location =
     (if length (tokens location_stmt) \<ge> 1 then
        (let directive = tokens location_stmt ! 0 in
         if directive = ''handler'' \<and> length (tokens location_stmt) \<ge> 2
         then location\<lparr>handler_name := tokens location_stmt ! 1\<rparr>
         else if directive = ''root'' \<and> length (tokens location_stmt) \<ge> 2
         then set_arg ''root'' (tokens location_stmt ! 1) location
         else if directive = ''data_path'' \<and> length (tokens location_stmt) \<ge> 2
         then set_arg ''data_path'' (tokens location_stmt ! 1) location
         else if length (tokens location_stmt) \<ge> 2
         then set_arg directive (tokens location_stmt ! 1) location
         else location)
      else location)"

definition read_location :: "string \<Rightarrow> NginxConfig \<Rightarrow> LocationConfig" where
  "read_location p block =
     fold location_directive (statements block) \<lparr>path = p, handler_name = [], args = []\<rparr>"

text \<open>One directive inside the server block.\<close>

definition server_directive ::
  "NginxConfigStatement \<Rightarrow> ServerConfig \<times> factories \<Rightarrow> ServerConfig \<times> factories" where
  "server_directive server_stmt x =
     (case x of (cfg, reg) \<Rightarrow>
        if length (tokens server_stmt) \<ge> 2 \<and> tokens server_stmt ! 0 = ''listen''
        then (cfg\<lparr>port := ucast (atoi (tokens server_stmt ! 1))\<rparr>, reg)
        else if length (tokens server_stmt) \<ge> 2 \<and> tokens server_stmt ! 0 = ''location'' then
          (case child_block server_stmt of
             None \<Rightarrow> (cfg, reg)
           | Some block \<Rightarrow>
               (let location = read_location (tokens server_stmt ! 1) block in
                if handler_name location \<noteq> [] then
                  (case RegisterHandlerForLocation location reg of
                     (True, reg') \<Rightarrow> (cfg\<lparr>locations := locations cfg @ [location]\<rparr>, reg')
                   | (False, reg') \<Rightarrow> (cfg, reg'))
                else (cfg, reg)))
        else (cfg, reg))"

text \<open>The first statement \<^verbatim>\<open>server\<close> with a block.\<close>

fun server_block :: "NginxConfigStatement list \<Rightarrow> NginxConfig option" where
  "server_block [] = None"
| "server_block (st # sts) =
     (if length (tokens st) \<ge> 1 \<and> tokens st ! 0 = ''server'' \<and> child_block st \<noteq> None
      then child_block st else server_block sts)"

definition ExtractServerConfig :: "NginxConfig \<Rightarrow> cshort \<Rightarrow> factories \<Rightarrow> ServerConfig \<times> factories" where
  "ExtractServerConfig config default_port reg =
     (let server_config = \<lparr>port = default_port, locations = []\<rparr> in
      case server_block (statements config) of
        None \<Rightarrow> (server_config, reg)
      | Some block \<Rightarrow> fold server_directive (statements block) (server_config, reg))"

definition initialize_dispatcher :: "ServerConfig \<Rightarrow> LocationConfig list option" where
  "initialize_dispatcher server_config = InitFromServerConfig server_config"

record ServerInitResult =
  dispatcher :: "LocationConfig list option"
  init_port :: cshort

definition init_is_valid :: "ServerInitResult \<Rightarrow> bool" where
  "init_is_valid r \<longleftrightarrow> dispatcher r \<noteq> None \<and> init_port r \<noteq> 0"

definition invalid_result :: ServerInitResult where
  "invalid_result = \<lparr>dispatcher = None, init_port = 0\<rparr>"

text \<open>
  \<^verbatim>\<open>initialize_from_args\<close>: the result, the registry afterwards and the text on the error
  stream. \<open>None\<close> would be undefined behaviour in the parser.
\<close>

definition initialize_from_args ::
  "(string \<rightharpoonup> string) \<Rightarrow> int \<Rightarrow> string list \<Rightarrow> cshort \<Rightarrow> factories
   \<Rightarrow> (ServerInitResult \<times> factories \<times> string) option" where
  "initialize_from_args files argc argv default_port reg =
     (if \<not> validate_arguments argc
      then Some (invalid_result, reg, ''Usage: async_tcp_echo_server <config_file>'' @ [LF])
      else (case load_config_from_file files (argv ! 1) (Some (NginxConfig [])) of
              None \<Rightarrow> Some (invalid_result, reg, ''Error: Could not parse config file: '' @ argv ! 1 @ [LF])
            | Some (Rejected _) \<Rightarrow> Some (invalid_result, reg, ''Error: Could not parse config file: '' @ argv ! 1 @ [LF])
            | Some Undefined_behaviour \<Rightarrow> None
            | Some (Accepted config) \<Rightarrow>
               (case ExtractServerConfig config default_port reg of
                  (server_config, reg') \<Rightarrow>
                    (case initialize_dispatcher server_config of
                       None \<Rightarrow> Some (invalid_result, reg', ''Error: Failed to initialize request dispatcher'' @ [LF])
                     | Some d \<Rightarrow> Some (\<lparr>dispatcher = Some d, init_port = port server_config\<rparr>, reg', [])))))"

subsection \<open>The registry fits the locations\<close>

text \<open>
  For every extracted location the registry holds the factory of the last extracted location
  with the same path.
\<close>

definition last_with_path :: "LocationConfig list \<Rightarrow> string \<Rightarrow> LocationConfig" where
  "last_with_path locs p = last [m \<leftarrow> locs. path m = p]"

definition registered :: "ServerConfig \<times> factories \<Rightarrow> bool" where
  "registered x \<longleftrightarrow> (case x of (cfg, reg) \<Rightarrow>
     \<forall>l\<in>set (locations cfg). location_factory l \<noteq> None
       \<and> reg (path l) = location_factory (last_with_path (locations cfg) (path l)))"

lemma last_with_path_in:
  assumes "l \<in> set locs"
  shows "last_with_path locs (path l) \<in> set locs" "path (last_with_path locs (path l)) = path l"
proof -
  have "[m \<leftarrow> locs. path m = path l] \<noteq> []" using assms by (auto simp: filter_empty_conv)
  from last_in_set [OF this] show "last_with_path locs (path l) \<in> set locs"
    "path (last_with_path locs (path l)) = path l"
    by (auto simp: last_with_path_def)
qed

lemma location_factory_creates:
  assumes "location_factory l = Some f"
  shows "\<exists>h. Factory_Create f = Done h \<and> GetHandlerName h = handler_name l"
  using assms
  by (auto simp: location_factory_def Let_def Factory_Create_def GetHandlerName_def split: if_splits)

lemma registered_step:
  assumes "registered x"
  shows "registered (server_directive st x)"
proof (cases x)
  case (Pair cfg reg)
  note x = this
  have "registered (cfg\<lparr>locations := locations cfg @ [l]\<rparr>, RegisterHandler (path l) f reg)"
    if "location_factory l = Some f" for l f
    using assms that last_with_path_in(1)
    by (auto simp: registered_def x last_with_path_def RegisterHandler_def)
  moreover have "registered (cfg\<lparr>port := n\<rparr>, reg)" for n
    using assms by (simp add: registered_def x)
  ultimately show ?thesis
    using assms
    by (auto simp: server_directive_def x RegisterHandlerForLocation_def Let_def
        split: option.split)
qed

lemma registered_Extract: "registered (ExtractServerConfig config default_port reg)"
proof -
  have start: "registered (\<lparr>port = default_port, locations = []\<rparr>, reg)" by (simp add: registered_def)
  have "registered (fold server_directive sts x)" if "registered x" for sts x
    using that by (induction sts arbitrary: x) (auto simp: registered_step)
  with start show ?thesis
    by (auto simp: ExtractServerConfig_def Let_def split: option.split)
qed


definition sample_server_config :: "ServerConfig \<times> factories" where
  "sample_server_config = ExtractServerConfig sample_config 8080 (\<lambda>_. None)"

lemma sample_server_config_eq:
  "sample_server_config =
    (\<lparr>port = 80, locations = [\<lparr>path = ''/echo'', handler_name = ''EchoHandler'', args = []\<rparr>]\<rparr>,
     [''/echo'' \<mapsto> EchoHandlerFactory \<lparr>path = ''/echo'', handler_name = ''EchoHandler'', args = []\<rparr>])"
proof -
  have "atoi ''80'' = 80" by (simp add: atoi_def isspace_def isdigit_def code_def dec_value_def)
  then show ?thesis
    by (simp add: sample_server_config_def sample_config_def ExtractServerConfig_def server_directive_def
        read_location_def location_directive_def RegisterHandlerForLocation_def location_factory_def
        RegisterHandler_def Let_def)
qed


subsection \<open>The port\<close>

lemma digit_not_space: "isdigit c \<Longrightarrow> \<not> isspace c \<and> c \<noteq> CHR ''-'' \<and> c \<noteq> CHR ''+''"
  by (auto simp: isdigit_def isspace_def code_def)

lemma atoi_dec_nat:
  assumes "n < 2 ^ 63"
  shows "atoi (dec_nat n) = of_nat n"
proof -
  obtain c r where cr: "dec_nat n = c # r" by (cases "dec_nat n") auto
  then have "isdigit c" using dec_nat_digits [of c n] by simp
  with cr digit_not_space have ws: "dropWhile isspace (dec_nat n) = c # r" "c \<noteq> CHR ''-''" "c \<noteq> CHR ''+''"
    by auto
  have "takeWhile isdigit (c # r) = dec_nat n"
    unfolding cr [symmetric] using dec_nat_digits by (simp add: takeWhile_eq_all_conv)
  with ws assms show ?thesis by (simp add: atoi_def Let_def)
qed

lemma unat_port: "unat (ucast (of_nat n :: cint) :: cshort) = n mod 65536"
  by (simp add: unsigned_ucast_eq unat_of_nat take_bit_eq_mod mod_mod_cancel)

definition is_listen :: "NginxConfigStatement \<Rightarrow> bool" where
  "is_listen st \<longleftrightarrow> length (tokens st) \<ge> 2 \<and> tokens st ! 0 = ''listen''"

lemma fold_not_listen:
  "\<forall>st\<in>set sts. \<not> is_listen st \<Longrightarrow> port (fst (fold server_directive sts x)) = port (fst x)"
proof (induction sts arbitrary: x)
  case (Cons st sts)
  then have "port (fst (server_directive st x)) = port (fst x)"
    by (auto simp: server_directive_def is_listen_def Let_def split: prod.split option.split bool.split)
  with Cons show ?case by simp
qed simp

lemma Extract_port:
  assumes "server_block (statements config) = Some (NginxConfig (pre @ NginxConfigStatement [''listen'', p] child # post))"
    and "\<forall>st\<in>set post. \<not> is_listen st"
  shows "port (fst (ExtractServerConfig config default_port reg)) = ucast (atoi p)"
proof -
  have "port (fst (server_directive (NginxConfigStatement [''listen'', p] child) x)) = ucast (atoi p)" for x
    by (cases x) (simp add: server_directive_def)
  with assms show ?thesis
    by (simp add: ExtractServerConfig_def fold_not_listen)
qed

text \<open>
  The port is the number of the last \<^verbatim>\<open>listen\<close> directive of the first server
  block, kept in 16 bits: up to 65535 it is the number itself, read without a sign as the
  socket does, and a larger number is silently taken modulo 65536.
\<close>

lemma listen_port:
  assumes "server_block (statements config) =
      Some (NginxConfig (pre @ NginxConfigStatement [''listen'', dec_nat n] child # post))"
    and "\<forall>st\<in>set post. \<not> is_listen st" "n < 2 ^ 63"
  shows "unat (port (fst (ExtractServerConfig config default_port reg))) = n mod 65536"
  using Extract_port [OF assms(1,2)] atoi_dec_nat [OF assms(3)]
  by (simp add: unat_port)

definition listen_config :: "nat \<Rightarrow> NginxConfig" where
  "listen_config n = NginxConfig [NginxConfigStatement [''server''] (Some (NginxConfig
     [NginxConfigStatement [''listen'', dec_nat n] None,
      NginxConfigStatement [''location'', ''/echo''] (Some (NginxConfig
        [NginxConfigStatement [''handler'', ''EchoHandler''] None]))]))]"

lemma listen_config_block:
  "server_block (statements (listen_config n)) = Some (NginxConfig
     ([] @ NginxConfigStatement [''listen'', dec_nat n] None #
      [NginxConfigStatement [''location'', ''/echo''] (Some (NginxConfig
        [NginxConfigStatement [''handler'', ''EchoHandler''] None]))]))"
  by (simp add: listen_config_def)

lemma digit_plain:
  "isdigit c \<Longrightarrow> \<not> IsTokenDelimiter c \<and> \<not> IsWhitespace c \<and> c \<notin> set ''{}#;'' \<union> {CHR 0x22, CHR 0x27}"
  by (auto simp: IsWhitespace_def IsTokenDelimiter_def isdigit_def code_def)

lemma plain_dec_nat: "plain_token (dec_nat n)"
proof -
  obtain c r where cr: "dec_nat n = c # r" by (cases "dec_nat n") auto
  with digit_plain dec_nat_digits [of _ n] show ?thesis unfolding plain_token_def by simp
qed

subsection \<open>Start-up\<close>

lemma Parse_accepts: "Parse s (NginxConfig []) = Accepted c \<longleftrightarrow> token_stream s = Some (config_tokens c) \<and> wf_config c"
  using Parse_of_stream Parse_stream by blast

lemma initialize_accepted:
  assumes "argc = 2" "files (argv ! 1) = Some s" "Parse s (NginxConfig []) = Accepted c"
    and "ExtractServerConfig c default_port reg = (cfg, reg')"
  shows "initialize_from_args files argc argv default_port reg =
    (if locations cfg = []
     then Some (invalid_result, reg', ''Error: Failed to initialize request dispatcher'' @ [LF])
     else Some (\<lparr>dispatcher = Some (locations cfg), init_port = port cfg\<rparr>, reg', []))"
  using assms
  by (simp add: initialize_from_args_def validate_arguments_def load_config_from_file_def Parse_file_def
      initialize_dispatcher_def InitFromServerConfig_def)

lemma initialize_refused:
  assumes "argc \<noteq> 2 \<or> (\<forall>s c. files (argv ! 1) = Some s \<longrightarrow> Parse s (NginxConfig []) \<noteq> Accepted c)"
  shows "\<exists>err. initialize_from_args files argc argv default_port reg = Some (invalid_result, reg, err) \<and> err \<noteq> []"
  using assms Parse_defined
  by (auto simp: initialize_from_args_def validate_arguments_def load_config_from_file_def Parse_file_def
      split: option.split parse_result.split)

text \<open>
  Start-up always comes to a result, and succeeds exactly when there is one
  argument that names a readable file whose text is a well-formed configuration with a
  usable location and a port that is not zero; the dispatcher then has the extracted
  locations. Without a dispatcher a message is on the error stream.
\<close>

lemma startup_iff:
  "\<exists>r reg' err. initialize_from_args files argc argv default_port reg = Some (r, reg', err)
    \<and> (init_is_valid r \<longleftrightarrow> argc = 2 \<and> (\<exists>s c. files (argv ! 1) = Some s
         \<and> token_stream s = Some (config_tokens c) \<and> wf_config c
         \<and> dispatcher r = Some (locations (fst (ExtractServerConfig c default_port reg)))
         \<and> locations (fst (ExtractServerConfig c default_port reg)) \<noteq> []
         \<and> init_port r = port (fst (ExtractServerConfig c default_port reg)) \<and> init_port r \<noteq> 0))
    \<and> (dispatcher r = None \<longleftrightarrow> err \<noteq> [])"
proof (cases "argc = 2 \<and> (\<exists>s c. files (argv ! 1) = Some s \<and> Parse s (NginxConfig []) = Accepted c)")
  case True
  then obtain s c where f: "argc = 2" "files (argv ! 1) = Some s" "Parse s (NginxConfig []) = Accepted c"
    by blast
  obtain cfg reg' where x: "ExtractServerConfig c default_port reg = (cfg, reg')" by fastforce
  have ok: "token_stream s = Some (config_tokens c)" "wf_config c" using f(3) Parse_accepts by auto
  note init = initialize_accepted [where files = files and argv = argv, OF f x]
  show ?thesis
  proof (cases "locations cfg = []")
    case True
    with init show ?thesis by (auto simp: init_is_valid_def invalid_result_def)
  next
    case False
    let ?r = "\<lparr>dispatcher = Some (locations cfg), init_port = port cfg\<rparr>"
    have "init_is_valid ?r \<longleftrightarrow> argc = 2 \<and> (\<exists>s c. files (argv ! 1) = Some s
         \<and> token_stream s = Some (config_tokens c) \<and> wf_config c
         \<and> dispatcher ?r = Some (locations (fst (ExtractServerConfig c default_port reg)))
         \<and> locations (fst (ExtractServerConfig c default_port reg)) \<noteq> []
         \<and> init_port ?r = port (fst (ExtractServerConfig c default_port reg)) \<and> init_port ?r \<noteq> 0)"
    proof
      assume "init_is_valid ?r"
      with f ok x False show "argc = 2 \<and> (\<exists>s c. files (argv ! 1) = Some s
         \<and> token_stream s = Some (config_tokens c) \<and> wf_config c
         \<and> dispatcher ?r = Some (locations (fst (ExtractServerConfig c default_port reg)))
         \<and> locations (fst (ExtractServerConfig c default_port reg)) \<noteq> []
         \<and> init_port ?r = port (fst (ExtractServerConfig c default_port reg)) \<and> init_port ?r \<noteq> 0)"
        by (intro conjI exI [of _ s] exI [of _ c]) (simp_all add: init_is_valid_def)
    qed (auto simp: init_is_valid_def)
    with init False show ?thesis by (intro exI [of _ ?r] exI [of _ reg'] exI [of _ "[]"]) simp
  qed
next
  case False
  with initialize_refused [of argc files argv default_port reg] obtain err where
    "initialize_from_args files argc argv default_port reg = Some (invalid_result, reg, err)" "err \<noteq> []"
    by blast
  with False show ?thesis by (auto simp: init_is_valid_def invalid_result_def Parse_accepts)
qed

text \<open>
  A server can be configured by printing a configuration. When the one
  argument names a file that holds the printed form of a well-formed configuration, start-up
  gives exactly the locations and the port of that configuration.
\<close>

lemma startup_printed:
  assumes "wf_config c" "files (argv ! 1) = Some (ToString 0 c)"
    and "ExtractServerConfig c default_port reg = (cfg, reg')" "locations cfg \<noteq> []"
  shows "initialize_from_args files 2 argv default_port reg =
    Some (\<lparr>dispatcher = Some (locations cfg), init_port = port cfg\<rparr>, reg', [])"
proof -
  have "Parse (ToString 0 c) (NginxConfig []) = Accepted c"
    using Parse_ToString_rest [of c "[]" 0] assms(1) by (simp add: token_stream_Nil)
  from initialize_accepted [where files = files and argv = argv, OF refl assms(2) this assms(3)] assms(4)
  show ?thesis by simp
qed

text \<open>
  A \<^verbatim>\<open>listen\<close> number that is a multiple of 65536 makes start-up fail
  without a word: the dispatcher is there and nothing is written to the error stream, but the
  port is zero, so the result is not valid and the program ends.
\<close>

lemma startup_port_zero:
  assumes "0 < k" "65536 * k < 2 ^ 63" "files (argv ! 1) = Some (ToString 0 (listen_config (65536 * k)))"
  shows "\<exists>r reg'. initialize_from_args files 2 argv default_port reg = Some (r, reg', [])
    \<and> dispatcher r \<noteq> None \<and> \<not> init_is_valid r"
proof -
  let ?c = "listen_config (65536 * k)"
  obtain cfg reg' where x: "ExtractServerConfig ?c default_port reg = (cfg, reg')" by fastforce
  have wf: "wf_config ?c"
    by (simp add: listen_config_def wf_token_def plain_dec_nat)
      (simp add: plain_token_def IsWhitespace_def IsTokenDelimiter_def)
  have "port cfg = ucast (atoi (dec_nat (65536 * k)))"
    using Extract_port [OF listen_config_block, of "65536 * k" default_port reg] x by (simp add: is_listen_def)
  then have "unat (port cfg) = 0"
    unfolding atoi_dec_nat [OF assms(2)] by (simp only: unat_port mod_mult_self1_is_0)
  then have port: "port cfg = 0" by (simp add: unat_eq_0)
  have locs: "locations cfg \<noteq> []"
    using x by (auto simp: ExtractServerConfig_def listen_config_def server_directive_def read_location_def
        location_directive_def RegisterHandlerForLocation_def location_factory_def Let_def)
  have "Parse (ToString 0 ?c) (NginxConfig []) = Accepted ?c"
    using Parse_ToString_rest [of ?c "[]" 0] wf by (simp add: token_stream_Nil)
  from initialize_accepted [where files = files and argv = argv, OF refl assms(3) this x] locs port
  show ?thesis by (auto simp: init_is_valid_def)
qed

end
