(* ===== verification/Thread_Pool.thy ===== *)
theory Thread_Pool
  imports Server "HOL-Library.Multiset"
begin

text \<open>
  The pool of threads that \<^verbatim>\<open>main\<close> of \<^verbatim>\<open>src/server_main.cc\<close> creates, all of which call
  \<^verbatim>\<open>io_service.run()\<close>, and its shutdown by a signal. A thread of the pool waits (\<open>Idle\<close>), runs the handler of a completed
  operation (\<open>Busy\<close>), never comes back from one (\<open>Hung\<close>), or has returned from \<^verbatim>\<open>run\<close>
  (\<open>Returned\<close>). The server itself is the one of \<open>Server\<close>, shared by all threads.

  Of Boost.Asio this uses what its documentation promises: \<^verbatim>\<open>run\<close> hands every completed
  operation to one waiting thread; it stops handing out handlers after \<^verbatim>\<open>stop\<close>, and returns
  then, or when no operation is outstanding; a handler that was begun runs to its end. An
  exception that leaves a handler leaves \<^verbatim>\<open>run\<close> and the thread: \<^verbatim>\<open>std::terminate\<close>, \<open>Aborted\<close>.

  Beginning a handler and its effect are two steps, so that handlers of different sessions
  overlap; which result its operation had is chosen with the effect. Within one handler the
  effect is one step: a handler touches its own session, and its last actions start the next
  operation or delete the session. What remains shared is the store on disk; \<open>Staged_Pool\<close>
  cuts the handlers that use it at their calls into the file system.
\<close>

datatype thread = Idle | Busy nat server_op | Hung nat | Returned

record pool =
  threads :: "thread list"
  stopped :: bool
  signal_wait :: bool
  shared :: server

datatype pool_state = Pool pool | Aborted | Corrupted

text \<open>\<open>n\<close> threads, a wait for \<^verbatim>\<open>SIGINT\<close> and \<^verbatim>\<open>SIGTERM\<close>, and a server that listens.\<close>

definition pool_new :: "nat \<Rightarrow> server \<Rightarrow> pool" where
  "pool_new n sv = \<lparr>threads = replicate n Idle, stopped = False, signal_wait = True, shared = sv\<rparr>"

text \<open>The handler of the signal set.\<close>

definition on_signal :: "bool \<Rightarrow> pool \<Rightarrow> pool" where
  "on_signal errorCode P =
     (if \<not> errorCode then P\<lparr>signal_wait := False, stopped := True\<rparr> else P\<lparr>signal_wait := False\<rparr>)"

definition begin_handler :: "nat \<Rightarrow> nat \<Rightarrow> server_op \<Rightarrow> pool \<Rightarrow> pool" where
  "begin_handler k p x P = P\<lparr>threads := (threads P)[k := Busy p x], shared := take_op p x (shared P)\<rparr>"

definition end_handler :: "site \<Rightarrow> nat \<Rightarrow> completion \<Rightarrow> pool \<Rightarrow> pool_state" where
  "end_handler site k c P =
     (case complete site c (shared P) of
        Running sv \<Rightarrow>
          (let p = fst (op_of c)
           in Pool (P\<lparr>threads := (threads P)[k := (if p \<in> stuck sv then Hung p else Idle)], shared := sv\<rparr>))
      | Terminated \<Rightarrow> Aborted
      | Use_after_free \<Rightarrow> Corrupted)"

text \<open>The operations whose handlers run now.\<close>

definition busy_op :: "thread \<Rightarrow> (nat \<times> server_op) list" where
  "busy_op t = (case t of Busy p x \<Rightarrow> [(p, x)] | _ \<Rightarrow> [])"

definition busy_ops :: "thread list \<Rightarrow> (nat \<times> server_op) list" where
  "busy_ops ts = concat (map busy_op ts)"

definition hung_op :: "thread \<Rightarrow> nat list" where
  "hung_op t = (case t of Hung p \<Rightarrow> [p] | _ \<Rightarrow> [])"

definition hung :: "thread list \<Rightarrow> nat set" where
  "hung ts = set (concat (map hung_op ts))"

definition no_work :: "pool \<Rightarrow> bool" where
  "no_work P \<longleftrightarrow> pending (shared P) = [] \<and> \<not> signal_wait P \<and> busy_ops (threads P) = [] \<and> hung (threads P) = {}"

inductive pool_step :: "site \<Rightarrow> pool_state \<Rightarrow> pool_state \<Rightarrow> bool" for site where
  begins: "k < length (threads P) \<Longrightarrow> threads P ! k = Idle \<Longrightarrow> \<not> stopped P \<Longrightarrow> (p, x) \<in> set (pending (shared P))
     \<Longrightarrow> pool_step site (Pool P) (Pool (begin_handler k p x P))"
| ends: "k < length (threads P) \<Longrightarrow> threads P ! k = Busy p x \<Longrightarrow> op_of c = (p, x) \<Longrightarrow> result_ok c (shared P)
     \<Longrightarrow> pool_step site (Pool P) (end_handler site k c P)"
| signals: "k < length (threads P) \<Longrightarrow> threads P ! k = Idle \<Longrightarrow> \<not> stopped P \<Longrightarrow> signal_wait P
     \<Longrightarrow> pool_step site (Pool P) (Pool (on_signal errorCode P))"
| returns: "k < length (threads P) \<Longrightarrow> threads P ! k = Idle \<Longrightarrow> stopped P \<or> no_work P
     \<Longrightarrow> pool_step site (Pool P) (Pool (P\<lparr>threads := (threads P)[k := Returned]\<rparr>))"

inductive_cases pool_step_PoolE [consumes 1, case_names begins ends signals returns]:
  "pool_step site (Pool P) X"
inductive_simps pool_step_Aborted: "pool_step site Aborted X"
inductive_simps pool_step_Corrupted: "pool_step site Corrupted X"

inductive pool_reachable :: "site \<Rightarrow> stores \<Rightarrow> nat \<Rightarrow> pool_state \<Rightarrow> bool" for site st n where
  start: "pool_reachable site st n (Pool (pool_new n (server_new q st)))"
| step: "pool_reachable site st n X \<Longrightarrow> pool_step site X Y \<Longrightarrow> pool_reachable site st n Y"

subsection \<open>The pool implements the server\<close>

text \<open>
  A server with the operations \<open>os\<close> in flight besides those of another one. A handler that
  runs on both does the same to both.
\<close>

definition ahead :: "(nat \<times> server_op) list \<Rightarrow> server \<Rightarrow> server \<Rightarrow> bool" where
  "ahead os sv sv' \<longleftrightarrow> heap sv' = heap sv \<and> stuck sv' = stuck sv \<and> server_stores sv' = server_stores sv
     \<and> metrics sv' = metrics sv \<and> mset (pending sv') = mset (pending sv) + mset os"

lemma ahead_proceed: "ahead os sv sv' \<Longrightarrow> ahead os (proceed p stp sv) (proceed p stp sv')"
  by (auto simp: ahead_def proceed_def split: session_step.split async_op.split)

lemma ahead_start_accept: "ahead os sv sv' \<Longrightarrow> ahead os (start_accept q sv) (start_accept q sv')"
  by (auto simp: ahead_def start_accept_def)

lemma ahead_take:
  assumes "ahead os sv sv'" "(p, x) \<in> set os" "(p, x) \<notin> set (pending sv)"
  shows "ahead (remove1 (p, x) os) (take_op p x sv) (take_op p x sv')"
proof -
  have "remove1 (p, x) (pending sv) = pending sv" using assms(3) by (rule remove1_idem)
  moreover have "mset (pending sv) + mset os - {#(p, x)#} = mset (pending sv) + (mset os - {#(p, x)#})"
    using assms(2) by (intro multiset_diff_union_assoc) simp
  ultimately show ?thesis using assms(1) by (simp add: ahead_def take_op_def)
qed

lemma ahead_update:
  "ahead os sv sv' \<Longrightarrow> ahead os (sv\<lparr>server_stores := st, metrics := metrics sv @ lines\<rparr>)
     (sv'\<lparr>server_stores := st, metrics := metrics sv' @ lines\<rparr>)"
  "ahead os sv sv' \<Longrightarrow> ahead os (sv\<lparr>stuck := insert p (stuck sv)\<rparr>) (sv'\<lparr>stuck := insert p (stuck sv')\<rparr>)"
  by (simp_all add: ahead_def)

lemma ahead_heap: "ahead os sv sv' \<Longrightarrow> heap sv' = heap sv \<and> server_stores sv' = server_stores sv"
  by (simp add: ahead_def)

lemma ahead_mset: "ahead os sv sv' \<Longrightarrow> mset os = mset os' \<Longrightarrow> ahead os' sv sv'"
  by (simp add: ahead_def)

lemma ahead_complete:
  assumes "ahead os sv sv'" "op_of c \<in> set os" "op_of c \<notin> set (pending sv)"
  shows "case complete site c sv of
       Running r \<Rightarrow> \<exists>r'. complete site c sv' = Running r' \<and> ahead (remove1 (op_of c) os) r r'
     | Terminated \<Rightarrow> complete site c sv' = Terminated
     | Use_after_free \<Rightarrow> complete site c sv' = Use_after_free"
proof -
  obtain p x where c: "op_of c = (p, x)" by fastforce
  note taken = ahead_take [OF assms(1) assms(2,3) [unfolded c], folded c]
  note lifts = ahead_proceed [OF taken] ahead_start_accept ahead_update ahead_proceed
  have h: "heap sv' = heap sv" "server_stores sv' = server_stores sv" using ahead_heap [OF assms(1)] by auto
  show ?thesis
  proof (cases c)
    case (AcceptDone p' error ep q)
    with c have x: "p' = p" "x = OpAccept" by (auto simp: op_of_def)
    have "heap (take_op p OpAccept sv) = heap sv" "heap (take_op p OpAccept sv') = heap sv"
      by (simp_all add: take_op_def h)
    with AcceptDone x taken c lifts show ?thesis
      by (auto simp: complete_def handle_accept_def split: option.split outcome.split)
  next
    case (ReadDone p' w g error data)
    with c have x: "p' = p" "x = OpReadSome" by (auto simp: op_of_def)
    show ?thesis
    proof (cases "heap sv p")
      case None
      with ReadDone x h show ?thesis by (simp add: complete_def)
    next
      case (Some s)
      have "metrics sv = metrics (take_op p OpReadSome sv)" "metrics sv' = metrics (take_op p OpReadSome sv')"
        "stuck sv = stuck (take_op p OpReadSome sv)" "stuck sv' = stuck (take_op p OpReadSome sv')"
        by (simp_all add: take_op_def)
      with ReadDone x h Some taken c lifts(2-) show ?thesis
        by (cases "handle_read w site g error data s (server_stores sv)") (auto simp: complete_def)
    qed
  next
    case (WriteDone p' error)
    with c have x: "p' = p" "x = OpWriteAll" by (auto simp: op_of_def)
    with WriteDone h taken c lifts(1) show ?thesis by (auto simp: complete_def split: option.split)
  qed
qed

text \<open>Replacing one thread changes the handlers that run accordingly.\<close>

lemma concat_map_update:
  "k < length ts \<Longrightarrow> mset (concat (map f (ts[k := t]))) + mset (f (ts ! k)) = mset (concat (map f ts)) + mset (f t)"
proof (induction ts arbitrary: k)
  case (Cons u ts)
  then show ?case by (cases k) auto
qed simp

lemmas busy_ops_update = concat_map_update [where f = busy_op, folded busy_ops_def]

lemma hung_update:
  assumes "k < length ts" "hung_op (ts ! k) = []"
  shows "hung (ts[k := t]) = hung ts \<union> set (hung_op t)"
proof -
  have "set_mset (mset (concat (map hung_op (ts[k := t])))) = set_mset (mset (concat (map hung_op ts)) + mset (hung_op t))"
    using concat_map_update [OF assms(1), of hung_op t] assms(2) by simp
  then show ?thesis by (auto simp: hung_def)
qed

lemma busy_ops_iff: "(p, x) \<in> set (busy_ops ts) \<longleftrightarrow> Busy p x \<in> set ts"
proof -
  have "(p, x) \<in> set (busy_op t) \<longleftrightarrow> t = Busy p x" for t by (cases t) (auto simp: busy_op_def)
  then show ?thesis by (auto simp: busy_ops_def)
qed

lemma busy_nth: "k < length ts \<Longrightarrow> ts ! k = Busy p x \<Longrightarrow> (p, x) \<in> set (busy_ops ts)"
  by (metis busy_ops_iff nth_mem)

definition implements :: "pool \<Rightarrow> server \<Rightarrow> bool" where
  "implements P sv \<longleftrightarrow> ahead (busy_ops (threads P)) (shared P) sv \<and> hung (threads P) = stuck (shared P)"

lemma implements_pending:
  assumes "implements P sv"
  shows "set (pending sv) = set (pending (shared P)) \<union> set (busy_ops (threads P))"
    "mset (pending sv) = mset (pending (shared P) @ busy_ops (threads P))"
proof -
  show m: "mset (pending sv) = mset (pending (shared P) @ busy_ops (threads P))"
    using assms by (simp add: implements_def ahead_def)
  show "set (pending sv) = set (pending (shared P)) \<union> set (busy_ops (threads P))"
    using mset_eq_setD [OF m] by simp
qed

lemma busy_not_pending:
  assumes "implements P sv" "server_inv sv" "(p, x) \<in> set (busy_ops (threads P))"
  shows "p \<notin> fst ` set (pending (shared P))"
proof -
  have "mset (map fst (pending sv)) = mset (map fst (pending (shared P) @ busy_ops (threads P)))"
    using implements_pending(2) [OF assms(1)] by simp
  from mset_eq_imp_distinct_iff [OF this] assms(2)
  have "distinct (map fst (pending (shared P) @ busy_ops (threads P)))"
    by (simp only: server_inv_def)
  with assms(3) show ?thesis by force
qed

text \<open>No two threads run handlers of one session.\<close>

lemma busy_once:
  assumes "implements P sv" "server_inv sv" "l < length (threads P)" "threads P ! l = Busy p y"
    and "k < length (threads P)" "threads P ! k = Busy p x"
  shows "l = k"
proof (rule ccontr)
  assume "l \<noteq> k"
  let ?ts = "(threads P)[k := Idle]"
  have "(p, y) \<in> set (busy_ops ?ts)" using busy_nth [of l ?ts p y] assms(3,4) \<open>l \<noteq> k\<close> by simp
  moreover have "mset (busy_ops (threads P)) = add_mset (p, x) (mset (busy_ops ?ts))"
    using busy_ops_update [OF assms(5), of Idle] assms(6) by (simp add: busy_op_def)
  then have "mset (map fst (pending sv)) = mset (map fst (pending (shared P) @ (p, x) # busy_ops ?ts))"
    using implements_pending(2) [OF assms(1)] by simp
  from mset_eq_imp_distinct_iff [OF this] assms(2)
  have "distinct (map fst (pending (shared P) @ (p, x) # busy_ops ?ts))" by (simp only: server_inv_def)
  ultimately show False by force
qed

lemma complete_stuck:
  "complete site c sv = Running r \<Longrightarrow> stuck r = stuck sv \<or> stuck r = insert (fst (op_of c)) (stuck sv)"
proof -
  have keep: "stuck (proceed p stp sv) = stuck sv" "stuck (start_accept q sv) = stuck sv"
    "stuck (take_op p x sv) = stuck sv" for p stp q x sv
    by (auto simp: proceed_def start_accept_def take_op_def split: session_step.split async_op.split)
  show "complete site c sv = Running r \<Longrightarrow> ?thesis"
    by (auto simp: complete_def handle_accept_def op_of_def keep
        split: completion.splits option.splits outcome.splits if_splits prod.splits)
qed

lemma implements_new: "implements (pool_new n (server_new q st)) (server_new q st)"
  by (simp add: implements_def server_new_def start_accept_def ahead_def pool_new_def busy_ops_def busy_op_def hung_def hung_op_def)

text \<open>A thread that changes between \<open>Idle\<close> and \<open>Returned\<close> changes nothing of the server.\<close>

lemma implements_idle:
  assumes "implements P sv" "k < length (threads P)" "threads P ! k = Idle"
  shows "implements (P\<lparr>threads := (threads P)[k := Returned]\<rparr>) sv" "implements (on_signal err P) sv"
proof -
  have "mset (busy_ops ((threads P)[k := Returned])) = mset (busy_ops (threads P))"
    using busy_ops_update [OF assms(2), of Returned] assms(3) by (simp add: busy_op_def)
  moreover have "hung ((threads P)[k := Returned]) = hung (threads P)"
    using hung_update [OF assms(2), of Returned] assms(3) by (simp add: hung_op_def)
  ultimately show "implements (P\<lparr>threads := (threads P)[k := Returned]\<rparr>) sv"
    using assms(1) by (simp add: implements_def ahead_def)
  show "implements (on_signal err P) sv"
    using assms(1) by (simp add: implements_def on_signal_def)
qed

lemma implements_begin:
  assumes "implements P sv" "k < length (threads P)" "threads P ! k = Idle" "(p, x) \<in> set (pending (shared P))"
  shows "implements (begin_handler k p x P) sv"
proof -
  have "mset (busy_ops ((threads P)[k := Busy p x])) = add_mset (p, x) (mset (busy_ops (threads P)))"
    using busy_ops_update [OF assms(2), of "Busy p x"] assms(3) by (simp add: busy_op_def)
  moreover have "hung ((threads P)[k := Busy p x]) = hung (threads P)"
    using hung_update [OF assms(2), of "Busy p x"] assms(3) by (simp add: hung_op_def)
  moreover have "mset (pending (shared P)) = add_mset (p, x) (mset (remove1 (p, x) (pending (shared P))))"
    using assms(4) by simp
  ultimately show ?thesis
    using assms(1) by (simp add: implements_def ahead_def begin_handler_def take_op_def)
qed

text \<open>A thread that comes out of its handler, or hangs in it, with what the handler has done to both servers.\<close>

lemma implements_finish:
  assumes "implements P sv" "server_inv sv" "k < length (threads P)" "threads P ! k = Busy p x"
    and "ahead (remove1 (p, x) (busy_ops (threads P))) r r'" "stuck r = stuck (shared P) \<or> stuck r = insert p (stuck (shared P))"
  shows "implements (P\<lparr>threads := (threads P)[k := (if p \<in> stuck r then Hung p else Idle)], shared := r\<rparr>) r'"
proof -
  let ?t = "if p \<in> stuck r then Hung p else Idle"
  have a: "ahead (busy_ops (threads P)) (shared P) sv" "hung (threads P) = stuck (shared P)"
    using assms(1) by (simp_all add: implements_def)
  have "(p, x) \<in> set (pending sv)" using implements_pending(1) [OF assms(1)] busy_nth [OF assms(3,4)] by simp
  then have "p \<notin> stuck sv" using assms(2) by (force simp: server_inv_def)
  then have "p \<notin> stuck (shared P)" using a(1) by (simp add: ahead_def)
  then have "hung ((threads P)[k := ?t]) = stuck r"
    using assms(6) hung_update [OF assms(3), of ?t] assms(4) a(2) by (auto simp: hung_op_def)
  moreover have "mset (busy_ops ((threads P)[k := ?t])) = mset (remove1 (p, x) (busy_ops (threads P)))"
    using busy_ops_update [OF assms(3), of ?t] assms(4)
    by (auto simp: busy_op_def) (metis add_mset_remove_trivial)+
  ultimately show ?thesis using assms(5) by (simp add: implements_def ahead_def)
qed

lemma implements_end:
  assumes "implements P sv" "server_inv sv" "k < length (threads P)" "threads P ! k = Busy p x"
    and "op_of c = (p, x)" "result_ok c (shared P)"
  shows "case end_handler site k c P of
      Pool P' \<Rightarrow> \<exists>sv'. enabled c sv \<and> complete site c sv = Running sv' \<and> implements P' sv'
    | Aborted \<Rightarrow> server_step site (Running sv) Terminated
    | Corrupted \<Rightarrow> server_step site (Running sv) Use_after_free"
proof -
  have a: "ahead (busy_ops (threads P)) (shared P) sv" "hung (threads P) = stuck (shared P)"
    using assms(1) by (simp_all add: implements_def)
  have busy: "(p, x) \<in> set (busy_ops (threads P))" by (rule busy_nth [OF assms(3,4)])
  have "(p, x) \<notin> set (pending (shared P))" using busy_not_pending [OF assms(1,2) busy] by force
  with ahead_complete [OF a(1), of c site, unfolded assms(5)] busy
  have sim: "case complete site c (shared P) of
       Running r \<Rightarrow> \<exists>r'. complete site c sv = Running r' \<and> ahead (remove1 (p, x) (busy_ops (threads P))) r r'
     | Terminated \<Rightarrow> complete site c sv = Terminated
     | Use_after_free \<Rightarrow> complete site c sv = Use_after_free" by simp
  have "(p, x) \<in> set (pending sv)" using implements_pending(1) [OF assms(1)] busy by simp
  moreover have "result_ok c sv" using assms(6) ahead_heap [OF a(1)] by (simp add: result_ok_def split: completion.splits)
  ultimately have en: "enabled c sv" using assms(5) by (simp add: enabled_eq)
  note step = server_step.complete [OF en, of site]
  show ?thesis
  proof (cases "complete site c (shared P)")
    case (Running r)
    with sim obtain r' where r': "complete site c sv = Running r'" "ahead (remove1 (p, x) (busy_ops (threads P))) r r'"
      by auto
    from implements_finish [OF assms(1-4) r'(2)] complete_stuck [OF Running] assms(5)
    have "implements (P\<lparr>threads := (threads P)[k := (if p \<in> stuck r then Hung p else Idle)], shared := r\<rparr>) r'" by simp
    with Running r' en assms(5) show ?thesis by (auto simp: end_handler_def Let_def)
  qed (use sim step in \<open>auto simp: end_handler_def\<close>)
qed

lemma implements_step:
  assumes "implements P sv" "server_inv sv" "pool_step site (Pool P) X"
  shows "case X of
      Pool P' \<Rightarrow> \<exists>sv'. (sv' = sv \<or> server_step site (Running sv) (Running sv')) \<and> implements P' sv'
    | Aborted \<Rightarrow> server_step site (Running sv) Terminated
    | Corrupted \<Rightarrow> server_step site (Running sv) Use_after_free"
  using assms(3)
proof (cases rule: pool_step_PoolE)
  case (begins k p x)
  with implements_begin [OF assms(1)] show ?thesis by auto
next
  case (ends k p x c)
  note sim = implements_end [OF assms(1,2) ends(2-5), of site, folded ends(1)]
  show ?thesis
  proof (cases X)
    case (Pool P')
    with sim obtain sv' where sv': "enabled c sv" "complete site c sv = Running sv'" "implements P' sv'" by auto
    from server_step.complete [OF sv'(1), of site] sv'(2,3) Pool show ?thesis by auto
  qed (use sim in auto)
next
  case (signals k err)
  with implements_idle(2) [OF assms(1)] show ?thesis by auto
next
  case (returns k)
  with implements_idle(1) [OF assms(1)] show ?thesis by auto
qed

lemma pool_implements:
  assumes "pool_reachable site st n X"
  shows "case X of
      Pool P \<Rightarrow> \<exists>sv. reachable site st (Running sv) \<and> implements P sv
    | Aborted \<Rightarrow> reachable site st Terminated
    | Corrupted \<Rightarrow> False"
  using assms
proof (induction rule: pool_reachable.induct)
  case (start q)
  have "reachable site st (Running (server_new q st))" by (rule reachable.start)
  with implements_new show ?case by auto
next
  case (step X Y)
  show ?case
  proof (cases X)
    case (Pool P)
    with step.IH obtain sv where sv: "reachable site st (Running sv)" "implements P sv" by auto
    from reachable_inv [OF sv(1)] have inv: "server_inv sv" by simp
    have *: "reachable site st y" if "server_step site (Running sv) y" for y
      using reachable.step [OF sv(1) that] .
    have "\<not> server_step site (Running sv) Use_after_free" using * reachable_inv [of site st Use_after_free] by auto
    with implements_step [OF sv(2) inv step.hyps(2) [unfolded Pool]] sv(1) *
    show ?thesis by (cases Y) auto
  qed (use step in \<open>auto simp: pool_step_Aborted pool_step_Corrupted\<close>)
qed

lemma pool_implementsE:
  assumes "pool_reachable site st n (Pool P)"
  obtains sv where "reachable site st (Running sv)" "implements P sv" "server_inv sv"
  using pool_implements [OF assms] reachable_inv [of site st] by fastforce

lemma implements_accept:
  assumes "implements P sv" "server_inv sv"
  shows "\<exists>p. (p, OpAccept) \<in> set (pending (shared P)) \<or> Busy p OpAccept \<in> set (threads P)"
proof -
  have "filter (\<lambda>x. snd x = OpAccept) (pending sv) \<noteq> []"
    using assms(2) by (auto simp: server_inv_def accepts_def)
  then obtain p where "(p, OpAccept) \<in> set (pending sv)" by (auto simp: filter_empty_conv)
  then show ?thesis using implements_pending(1) [OF assms(1)] by (auto simp: busy_ops_iff)
qed

lemma end_handler_Pool:
  "end_handler site k c P = Pool P' \<Longrightarrow> stopped P' = stopped P \<and> signal_wait P' = signal_wait P
     \<and> (\<exists>t. threads P' = (threads P)[k := t] \<and> (t = Idle \<or> t = Hung (fst (op_of c))))"
  by (auto simp: end_handler_def Let_def split: server_state.splits)

lemma pool_threads:
  "pool_step site (Pool P) (Pool P') \<Longrightarrow> length (threads P') = length (threads P)"
  by (auto elim!: pool_step_PoolE simp: begin_handler_def on_signal_def dest!: end_handler_Pool [OF sym])

lemma pool_size: "pool_reachable site st n X \<Longrightarrow> case X of Pool P \<Rightarrow> length (threads P) = n | _ \<Rightarrow> True"
proof (induction rule: pool_reachable.induct)
  case (step X Y)
  then show ?case
    by (cases X; cases Y) (auto simp: pool_step_Aborted pool_step_Corrupted dest: pool_threads)
qed (simp add: pool_new_def)

lemma result_exists: "\<exists>c. op_of c = (p, x) \<and> result_ok c sv"
proof (cases x)
  case OpAccept
  then show ?thesis by (intro exI [of _ "AcceptDone p True None p"]) (simp add: op_of_def result_ok_def)
next
  case OpReadSome
  then show ?thesis by (intro exI [of _ "ReadDone p undefined True True []"]) (simp add: op_of_def result_ok_def)
next
  case OpWriteAll
  then show ?thesis by (intro exI [of _ "WriteDone p True"]) (simp add: op_of_def result_ok_def)
qed

lemma busy_can_end: "Busy p x \<in> set (threads P) \<Longrightarrow> \<exists>X. pool_step site (Pool P) X"
  using result_exists [of p x "shared P"] pool_step.ends by (metis in_set_conv_nth)

text \<open>What is left to do after \<^verbatim>\<open>stop\<close>: a waiting thread returns, a handler ends and then its thread returns.\<close>

definition to_do :: "thread \<Rightarrow> nat" where
  "to_do t = (case t of Idle \<Rightarrow> 1 | Busy _ _ \<Rightarrow> 2 | _ \<Rightarrow> 0)"

definition all_to_do :: "pool_state \<Rightarrow> nat" where
  "all_to_do X = (case X of Pool P \<Rightarrow> sum_list (map to_do (threads P)) | _ \<Rightarrow> 0)"

lemma sum_list_map_update:
  "k < length ts \<Longrightarrow> sum_list (map f (ts[k := t])) + f (ts ! k) = sum_list (map f ts) + (f t :: nat)"
proof (induction ts arbitrary: k)
  case (Cons u ts)
  then show ?case by (cases k) auto
qed simp

lemma to_do_update:
  "k < length (threads P) \<Longrightarrow> to_do t < to_do (threads P ! k) \<Longrightarrow>
   sum_list (map to_do ((threads P)[k := t])) < sum_list (map to_do (threads P))"
  using sum_list_map_update [of k "threads P" to_do t] by linarith

lemma stopped_step:
  assumes "pool_step site (Pool P) X" "stopped P"
  shows "all_to_do X < all_to_do (Pool P)" "case X of Pool P' \<Rightarrow> stopped P' | _ \<Rightarrow> True"
proof -
  have "all_to_do X < all_to_do (Pool P) \<and> (case X of Pool P' \<Rightarrow> stopped P' | _ \<Rightarrow> True)"
    using assms(1)
  proof (cases rule: pool_step_PoolE)
    case (ends k p x c)
    note dec = to_do_update [OF ends(2), of Idle] to_do_update [OF ends(2), of "Hung p"]
    have less: "0 < sum_list (map to_do (threads P))"
      using dec(1) ends(3) by (simp add: to_do_def)
    show ?thesis
    proof (cases X)
      case (Pool P')
      from end_handler_Pool [OF ends(1) [symmetric, unfolded Pool]] show ?thesis
        using dec ends(3,4) assms(2) Pool by (auto simp: all_to_do_def to_do_def)
    qed (use less in \<open>auto simp: all_to_do_def\<close>)
  next
    case (returns k)
    then show ?thesis
      using to_do_update [OF returns(2), of Returned] assms(2) by (simp add: all_to_do_def to_do_def)
  qed (use assms(2) in auto)
  then show "all_to_do X < all_to_do (Pool P)" "case X of Pool P' \<Rightarrow> stopped P' | _ \<Rightarrow> True" by auto
qed

lemma stopped_run:
  assumes "(pool_step site ^^ m) (Pool P) X" "stopped P"
  shows "m + all_to_do X \<le> all_to_do (Pool P) \<and> (case X of Pool P' \<Rightarrow> stopped P' | _ \<Rightarrow> True)"
  using assms(1)
proof (induction m arbitrary: X)
  case (Suc m)
  then obtain Z where Z: "(pool_step site ^^ m) (Pool P) Z" "pool_step site Z X" by (auto elim: relpowp_Suc_E)
  show ?case
  proof (cases Z)
    case (Pool Q)
    with Suc.IH [OF Z(1)] have "m + all_to_do (Pool Q) \<le> all_to_do (Pool P)" "stopped Q" by auto
    with stopped_step [OF Z(2) [unfolded Pool] this(2)] show ?thesis by auto
  qed (use Z(2) in \<open>auto simp: pool_step_Aborted pool_step_Corrupted\<close>)
qed (use assms(2) in simp)

lemma to_do_bound: "sum_list (map to_do ts) \<le> 2 * length ts"
proof (induction ts)
  case (Cons t ts)
  then show ?case by (cases t) (auto simp: to_do_def)
qed simp

lemma no_step_threads:
  assumes "stopped P" "\<not> (\<exists>X. pool_step site (Pool P) X)" "t \<in> set (threads P)"
  shows "t = Returned \<or> (\<exists>p. t = Hung p)"
proof (cases t)
  case Idle
  with assms(1,3) pool_step.returns [of _ P site] have "\<exists>X. pool_step site (Pool P) X" by (metis in_set_conv_nth)
  with assms(2) show ?thesis by blast
next
  case (Busy p x)
  with assms(2,3) busy_can_end [of p x P site] show ?thesis by metis
qed simp_all

subsection \<open>Properties of the pool\<close>

text \<open>
  C8: the pool implements the one-handler-at-a-time server of \<open>Server\<close>. Every state
  a pool of any size can reach is a reachable state of that server, in which the operations
  whose handlers run are still in flight; the program is aborted only in runs in which the
  server terminates, and no thread ever touches a deleted session. So the invariants of the
  server hold of the threaded program.
\<close>

theorem Pool_refines:
  assumes "pool_reachable site st n X"
  shows "case X of
      Pool P \<Rightarrow> \<exists>sv. reachable site st (Running sv) \<and> heap sv = heap (shared P) \<and> stuck sv = hung (threads P)
        \<and> server_stores sv = server_stores (shared P) \<and> metrics sv = metrics (shared P)
        \<and> mset (pending sv) = mset (pending (shared P) @ busy_ops (threads P))
    | Aborted \<Rightarrow> reachable site st Terminated
    | Corrupted \<Rightarrow> False"
  using pool_implements [OF assms]
proof (cases X)
  case (Pool P)
  with pool_implements [OF assms] obtain sv where sv: "reachable site st (Running sv)" "implements P sv" by auto
  from sv(2) implements_pending(2) [OF sv(2)] sv(1) Pool show ?thesis
    by (auto simp: implements_def ahead_def intro: exI [of _ sv])
qed simp_all

lemma begin_accept:
  "pool_reachable site st (Suc n) (Pool (begin_handler 0 q OpAccept (pool_new (Suc n) (server_new q st))))"
proof -
  have "pool_step site (Pool (pool_new (Suc n) (server_new q st)))
      (Pool (begin_handler 0 q OpAccept (pool_new (Suc n) (server_new q st))))"
    by (rule pool_step.begins) (simp_all add: pool_new_def server_new_def start_accept_def)
  with pool_reachable.start pool_reachable.step show ?thesis by metis
qed

theorem Pool_refines_witness:
  "\<exists>sv. reachable sample_site (\<lambda>_. []) (Running sv) \<and> mset (pending sv) = mset [(0, OpAccept)]"
  using Pool_refines [OF begin_accept [where n = 0 and q = 0 and site = sample_site and st = "\<lambda>_. []"]]
  by (auto simp: begin_handler_def pool_new_def server_new_def start_accept_def take_op_def
      busy_ops_def busy_op_def)

text \<open>
  No two threads run handlers of the same session, the session of a running handler exists and has no
  other operation in flight that another thread could begin, and the sessions that
  handlers hang in are not touched again.
\<close>

lemma busy_exclusive:
  assumes sv: "implements P sv" "server_inv sv" and k: "k < length (threads P)" "threads P ! k = Busy p x"
  shows "heap (shared P) p \<noteq> None \<and> p \<notin> fst ` set (pending (shared P)) \<and> p \<notin> hung (threads P)
     \<and> (\<forall>l y. l < length (threads P) \<longrightarrow> threads P ! l = Busy p y \<longrightarrow> l = k)"
proof -
  note busy = busy_nth [OF k]
  have op: "(p, x) \<in> set (pending sv)" using implements_pending(1) [OF sv(1)] busy by simp
  then have "p \<notin> stuck sv" using sv(2) by (force simp: server_inv_def)
  then have "p \<notin> hung (threads P)" using sv(1) by (simp add: implements_def ahead_def)
  moreover have "heap (shared P) p \<noteq> None"
    using server_inv_heap [OF sv(2) op] sv(1) by (auto simp: implements_def ahead_def)
  ultimately show ?thesis using busy_not_pending [OF sv busy] busy_once [OF sv _ _ k] by blast
qed

text \<open>
  C18: the pool does not deadlock and does not run dry. While one thread waits or
  runs a handler there is a step to make, and before a signal no thread ever returns from
  \<^verbatim>\<open>run\<close>: an accept is always in flight or being handled, so that the server serves until it
  is told to stop.
\<close>

theorem Pool_progress:
  assumes "pool_reachable site st n (Pool P)"
  shows "(\<forall>t\<in>set (threads P). t = Idle \<or> (\<exists>p x. t = Busy p x) \<longrightarrow> (\<exists>X. pool_step site (Pool P) X))
     \<and> (\<not> stopped P \<longrightarrow> Returned \<notin> set (threads P)
          \<and> (\<exists>p. (p, OpAccept) \<in> set (pending (shared P)) \<or> Busy p OpAccept \<in> set (threads P)))"
proof -
  from pool_implementsE [OF assms] obtain sv where "implements P sv" "server_inv sv" by blast
  from implements_accept [OF this] obtain p
    where p: "(p, OpAccept) \<in> set (pending (shared P)) \<or> Busy p OpAccept \<in> set (threads P)" by blast
  have step: "\<exists>X. pool_step site (Pool P) X" if t: "t \<in> set (threads P)" "t = Idle \<or> (\<exists>p x. t = Busy p x)" for t
  proof (cases "t = Idle \<and> \<not> stopped P \<and> (p, OpAccept) \<in> set (pending (shared P))")
    case True
    with t(1) show ?thesis using pool_step.begins [of _ P p OpAccept site] by (metis in_set_conv_nth)
  next
    case False
    with p t show ?thesis
      using busy_can_end [where P = P and site = site] pool_step.returns [of _ P site] by (metis in_set_conv_nth)
  qed
  have "case X of Pool P \<Rightarrow> \<not> stopped P \<longrightarrow> Returned \<notin> set (threads P) | _ \<Rightarrow> True"
    if "pool_reachable site st n X" for X
    using that
  proof (induction rule: pool_reachable.induct)
    case (step X Y)
    show ?case
    proof (cases X)
      case (Pool Q)
      have "\<not> no_work Q"
        using pool_implementsE [OF step.hyps(1) [unfolded Pool]] implements_accept
        by (metis busy_ops_iff empty_iff empty_set no_work_def)
      with step.hyps(2) [unfolded Pool] step.IH [unfolded Pool] show ?thesis
        by (cases rule: pool_step_PoolE)
          (auto simp: begin_handler_def on_signal_def split: pool_state.split
            dest!: end_handler_Pool set_update_subset_insert [THEN subsetD])
    qed (use step.hyps(2) in \<open>auto simp: pool_step_Aborted pool_step_Corrupted\<close>)
  qed (simp add: pool_new_def)
  from this [OF assms] step p show ?thesis by auto
qed

theorem Pool_progress_witness:
  "\<exists>X. pool_step sample_site (Pool (begin_handler 0 0 OpAccept (pool_new 1 (server_new 0 (\<lambda>_. []))))) X"
  using Pool_progress [OF begin_accept [where n = 0 and q = 0 and site = sample_site and st = "\<lambda>_. []"]]
  by (auto simp: begin_handler_def pool_new_def)

text \<open>
  C14: shutdown terminates. Once the signal handler has stopped a pool of \<open>n\<close>
  threads, at most \<open>2 n\<close> more steps happen, whatever clients do; and when no step is left,
  every thread has returned from \<^verbatim>\<open>run\<close>, so that \<^verbatim>\<open>main\<close> joins them all and exits, unless a
  handler hangs or an exception has aborted the program.
\<close>

theorem Pool_shutdown:
  assumes "pool_reachable site st n (Pool P)" "stopped P" "(pool_step site ^^ m) (Pool P) X"
  shows "m \<le> 2 * n \<and> ((\<nexists>Y. pool_step site X Y) \<longrightarrow>
    (case X of Pool P' \<Rightarrow> \<forall>t\<in>set (threads P'). t = Returned \<or> (\<exists>p. t = Hung p) | Aborted \<Rightarrow> True | Corrupted \<Rightarrow> False))"
proof -
  note run = stopped_run [OF assms(3,2)]
  have "all_to_do (Pool P) \<le> 2 * n"
    using to_do_bound [of "threads P"] pool_size [OF assms(1)] by (simp add: all_to_do_def)
  moreover have "pool_reachable site st n X"
    using assms(3)
  proof (induction m arbitrary: X)
    case (Suc m)
    then show ?case by (auto elim!: relpowp_Suc_E intro: pool_reachable.step)
  qed (use assms(1) in simp)
  then have "X \<noteq> Corrupted" using pool_implements by fastforce
  ultimately show ?thesis using run no_step_threads by (cases X) auto
qed

text \<open>A pool of one thread that is told to stop at once.\<close>

definition stopped_pool :: pool where
  "stopped_pool = on_signal False (pool_new 1 (server_new 0 (\<lambda>_. [])))"

lemma stopped_pool_reachable: "pool_reachable sample_site (\<lambda>_. []) 1 (Pool stopped_pool)"
proof -
  have "pool_step sample_site (Pool (pool_new 1 (server_new 0 (\<lambda>_. [])))) (Pool stopped_pool)"
    unfolding stopped_pool_def by (rule pool_step.signals [of 0]) (simp_all add: pool_new_def)
  with pool_reachable.start pool_reachable.step show ?thesis by metis
qed

theorem Pool_shutdown_witness:
  "\<exists>P'. pool_step sample_site (Pool stopped_pool) (Pool P') \<and> (\<forall>t\<in>set (threads P'). t = Returned \<or> (\<exists>p. t = Hung p))"
proof -
  let ?P = "stopped_pool\<lparr>threads := (threads stopped_pool)[0 := Returned]\<rparr>"
  have s: "pool_step sample_site (Pool stopped_pool) (Pool ?P)"
    by (rule pool_step.returns) (simp_all add: stopped_pool_def on_signal_def pool_new_def)
  then have "(pool_step sample_site ^^ 1) (Pool stopped_pool) (Pool ?P)" by (subst relpowp_1)
  moreover have "\<nexists>Y. pool_step sample_site (Pool ?P) Y"
    by (auto simp: stopped_pool_def on_signal_def pool_new_def elim!: pool_step_PoolE)
  moreover have "stopped stopped_pool" by (simp add: stopped_pool_def on_signal_def)
  ultimately have "\<forall>t\<in>set (threads ?P). t = Returned \<or> (\<exists>p. t = Hung p)"
    using Pool_shutdown [OF stopped_pool_reachable] by fastforce
  with s show ?thesis by blast
qed

end
