(* ===== verification/Program.thy ===== *)
theory Program
  imports Server_Config Thread_Pool
begin

text \<open>
  \<^verbatim>\<open>main\<close> of \<^verbatim>\<open>src/server_main.cc\<close> up to the point where it waits for its threads: set-up of the
  logs, \<^verbatim>\<open>initialize_from_args\<close>, the signal set, the server, and the pool. Every one of these
  can throw; one \<^verbatim>\<open>catch\<close> prints the text of the exception, and \<^verbatim>\<open>main\<close> returns 0.

  \<open>host\<close> is what the machine does: the exception of each step, if there is one, and the
  number of hardware threads, which the standard allows to be 0 for unknown.
\<close>

record host =
  console_log_error :: "string option"
  file_log_error :: "string option"
  signals_error :: "string option"
  listen_error :: "cshort \<Rightarrow> string option"
  hardware_concurrency :: nat
  thread_error :: "nat \<Rightarrow> string option"

text \<open>
  What becomes of the process: it exits with a status, is aborted by \<^verbatim>\<open>std::terminate\<close>, or
  serves with a pool until all threads have returned, and then exits with status 0.
\<close>

datatype process = Exits int | Terminates | Serves site pool

text \<open>The \<^verbatim>\<open>catch\<close> block: the text on \<^verbatim>\<open>std::cerr\<close>, and status 0.\<close>

definition caught :: "string \<Rightarrow> string" where
  "caught what = ''Exception: '' @ what @ [LF]"

text \<open>
  The loop that creates the threads, and the joins. When a thread cannot be created,
  unwinding destroys the vector of the threads before it, which are joinable:
  \<^verbatim>\<open>std::terminate\<close>. With no threads there is nothing to wait for.
\<close>

definition run_threads :: "host \<Rightarrow> site \<Rightarrow> server \<Rightarrow> string \<Rightarrow> process \<times> string \<times> string" where
  "run_threads h site s out =
     (let thread_count = hardware_concurrency h in
      case find (\<lambda>i. thread_error h i \<noteq> None) [0..<thread_count] of
        Some i \<Rightarrow> (if i = 0 then (Exits 0, out, caught (the (thread_error h i))) else (Terminates, out, []))
      | None \<Rightarrow> (if thread_count = 0 then (Exits 0, out, []) else (Serves site (pool_new thread_count s), out, [])))"

text \<open>
  \<open>q\<close> is the address of the first session, \<open>st\<close> what is on disk. The result is the process, its
  standard output and its standard error; \<open>None\<close> is undefined behaviour in the parser.
\<close>

definition main ::
  "host \<Rightarrow> (string \<rightharpoonup> string) \<Rightarrow> int \<Rightarrow> string list \<Rightarrow> nat \<Rightarrow> stores \<Rightarrow> (process \<times> string \<times> string) option" where
  "main h files argc argv q st =
     (case console_log_error h of
        Some what \<Rightarrow> Some (Exits 0, [], caught what)
      | None \<Rightarrow>
        (case file_log_error h of
           Some what \<Rightarrow> Some (Exits 0, [], caught what)
         | None \<Rightarrow>
           (case initialize_from_args files argc argv 8080 (\<lambda>_. None) of
              None \<Rightarrow> None
            | Some (init_result, reg, err) \<Rightarrow>
                if \<not> init_is_valid init_result then Some (Exits 1, [], err)
                else
                  (case signals_error h of
                     Some what \<Rightarrow> Some (Exits 0, [], err @ caught what)
                   | None \<Rightarrow>
                     (case listen_error h (init_port init_result) of
                        Some what \<Rightarrow> Some (Exits 0, [], err @ caught what)
                      | None \<Rightarrow>
                        (let s = server_new q st;
                             site = \<lparr>site_locations = the (dispatcher init_result), site_factories = reg\<rparr>;
                             out = ''Listening on port: '' @ dec_int (sint (init_port init_result)) @ [LF];
                             (process, out', err') = run_threads h site s out
                         in Some (process, out', err @ err')))))))"

subsection \<open>Lemmas\<close>

text \<open>The configuration that start-up accepts, if it accepts one.\<close>

definition configured :: "(string \<rightharpoonup> string) \<Rightarrow> int \<Rightarrow> string list \<Rightarrow> ServerConfig \<Rightarrow> factories \<Rightarrow> bool" where
  "configured files argc argv cfg reg \<longleftrightarrow> argc = 2 \<and> locations cfg \<noteq> [] \<and> port cfg \<noteq> 0
     \<and> (\<exists>s c. files (argv ! 1) = Some s \<and> token_stream s = Some (config_tokens c) \<and> wf_config c
          \<and> ExtractServerConfig c 8080 (\<lambda>_. None) = (cfg, reg))"

lemma configured_init:
  "configured files argc argv cfg reg \<Longrightarrow> initialize_from_args files argc argv 8080 (\<lambda>_. None)
     = Some (\<lparr>dispatcher = Some (locations cfg), init_port = port cfg\<rparr>, reg, [])"
  using initialize_accepted [of argc files argv] by (auto simp: configured_def Parse_accepts)

lemma not_configured_init:
  assumes "\<nexists>cfg reg. configured files argc argv cfg reg"
  shows "\<exists>r reg err. initialize_from_args files argc argv 8080 (\<lambda>_. None) = Some (r, reg, err) \<and> \<not> init_is_valid r"
proof (cases "argc = 2 \<and> (\<exists>s c. files (argv ! 1) = Some s \<and> Parse s (NginxConfig []) = Accepted c)")
  case True
  then obtain s c cfg reg where x: "argc = 2" "files (argv ! 1) = Some s" "Parse s (NginxConfig []) = Accepted c"
    "ExtractServerConfig c 8080 (\<lambda>_. None) = (cfg, reg)" by (metis surj_pair)
  from x(3) have c: "token_stream s = Some (config_tokens c)" "wf_config c" by (simp_all add: Parse_accepts)
  have "locations cfg = [] \<or> port cfg = 0" using assms x c unfolding configured_def by blast
  with initialize_accepted [where files = files and argv = argv, OF x] show ?thesis
    by (auto simp: init_is_valid_def invalid_result_def)
next
  case False
  with initialize_refused [of argc files argv] show ?thesis
    by (fastforce simp: init_is_valid_def invalid_result_def)
qed

lemma configured_unique:
  "configured files argc argv cfg reg \<Longrightarrow> configured files argc argv cfg' reg' \<Longrightarrow> cfg' = cfg \<and> reg' = reg"
  using configured_init [of files argc argv cfg reg] configured_init [of files argc argv cfg' reg']
  by (cases cfg; cases cfg') simp

lemma first_failure:
  "find (\<lambda>i. f i \<noteq> None) [0..<n] = Some i \<longleftrightarrow> i < n \<and> f i \<noteq> None \<and> (\<forall>j<i. f j = None)"
  "find (\<lambda>i. f i \<noteq> None) [0..<n] = None \<longleftrightarrow> (\<forall>i<n. f i = None)"
proof -
  show "find (\<lambda>i. f i \<noteq> None) [0..<n] = Some i \<longleftrightarrow> i < n \<and> f i \<noteq> None \<and> (\<forall>j<i. f j = None)"
    by (auto simp: find_Some_iff)
  show "find (\<lambda>i. f i \<noteq> None) [0..<n] = None \<longleftrightarrow> (\<forall>i<n. f i = None)"
    by (auto simp: find_None_iff)
qed

lemma run_threads_all:
  assumes "\<forall>i<hardware_concurrency h. thread_error h i = None"
  shows "run_threads h site s out =
    (if hardware_concurrency h = 0 then (Exits 0, out, []) else (Serves site (pool_new (hardware_concurrency h) s), out, []))"
  unfolding run_threads_def Let_def first_failure(2) [THEN iffD2, OF assms] option.case ..

lemma run_threads_some:
  assumes "i < hardware_concurrency h" "thread_error h i \<noteq> None" "\<forall>j<i. thread_error h j = None"
  shows "run_threads h site s out =
    (if i = 0 then (Exits 0, out, caught (the (thread_error h i))) else (Terminates, out, []))"
  unfolding run_threads_def Let_def first_failure(1) [THEN iffD2, OF conjI [OF assms(1) conjI [OF assms(2,3)]]] option.case ..

lemma first_thread_error:
  assumes "\<not> (\<forall>i<hardware_concurrency h. thread_error h i = None)"
  obtains i where "i < hardware_concurrency h" "thread_error h i \<noteq> None" "\<forall>j<i. thread_error h j = None"
proof -
  let ?Q = "\<lambda>i. i < hardware_concurrency h \<and> thread_error h i \<noteq> None"
  from assms obtain k where "?Q k" by blast
  then have "?Q (LEAST i. ?Q i)" by (rule LeastI)
  moreover have "thread_error h j = None" if "j < (LEAST i. ?Q i)" for j
    using not_less_Least [OF that] calculation that by auto
  ultimately show ?thesis using that by blast
qed

lemma run_threads_Serves:
  "(\<exists>out' err. run_threads h site' s out = (Serves site P, out', err)) \<longleftrightarrow>
   0 < hardware_concurrency h \<and> (\<forall>i<hardware_concurrency h. thread_error h i = None)
   \<and> site = site' \<and> P = pool_new (hardware_concurrency h) s"
proof (cases "\<forall>i<hardware_concurrency h. thread_error h i = None")
  case True
  then show ?thesis by (auto simp: run_threads_all)
next
  case False
  from first_thread_error [OF this] obtain i where
    "i < hardware_concurrency h" "thread_error h i \<noteq> None" "\<forall>j<i. thread_error h j = None" .
  with False run_threads_some [OF this] show ?thesis by auto
qed

lemma run_threads_status:
  assumes "run_threads h site s out = (process, out', err)"
  shows "case process of
     Exits k \<Rightarrow> k = 0 \<and> (hardware_concurrency h = 0 \<or> (\<exists>what. err = caught what))
   | Terminates \<Rightarrow> \<exists>i. 0 < i \<and> i < hardware_concurrency h \<and> thread_error h i \<noteq> None \<and> thread_error h 0 = None
   | Serves site P \<Rightarrow> threads P \<noteq> [] \<and> \<not> stopped P"
proof (cases "\<forall>i<hardware_concurrency h. thread_error h i = None")
  case True
  from assms [unfolded run_threads_all [OF True]] show ?thesis by (auto simp: pool_new_def split: if_splits)
next
  case False
  from first_thread_error [OF this] obtain i where
    i: "i < hardware_concurrency h" "thread_error h i \<noteq> None" "\<forall>j<i. thread_error h j = None" .
  from assms [unfolded run_threads_some [OF i]] i show ?thesis by (cases "i = 0") auto
qed

text \<open>\<^verbatim>\<open>main\<close> on a configuration that is accepted, and on every other one.\<close>

lemma main_configured:
  assumes "configured files argc argv cfg reg" "console_log_error h = None" "file_log_error h = None"
  shows "main h files argc argv q st =
    (case signals_error h of
       Some what \<Rightarrow> Some (Exits 0, [], caught what)
     | None \<Rightarrow>
        (case listen_error h (port cfg) of
           Some what \<Rightarrow> Some (Exits 0, [], caught what)
         | None \<Rightarrow> Some (run_threads h \<lparr>site_locations = locations cfg, site_factories = reg\<rparr> (server_new q st)
             (''Listening on port: '' @ dec_int (sint (port cfg)) @ [LF]))))"
proof -
  have "init_is_valid \<lparr>dispatcher = Some (locations cfg), init_port = port cfg\<rparr>"
    using assms(1) by (simp add: configured_def init_is_valid_def)
  then show ?thesis
    by (simp add: main_def configured_init [OF assms(1)] assms(2,3) split: option.split prod.split)
qed

lemma main_not_configured:
  assumes "\<nexists>cfg reg. configured files argc argv cfg reg" "console_log_error h = None" "file_log_error h = None"
  shows "\<exists>err. main h files argc argv q st = Some (Exits 1, [], err)"
  using not_configured_init [OF assms(1)] by (auto simp: main_def assms(2,3))

section \<open>Properties of main\<close>

text \<open>
  C15: the program serves exactly when the logs can be set up, the one argument
  names a file with a well-formed configuration that has a usable location and a port, the
  signal handler and the port can be had, and every thread of a pool of at least one can
  be created. It then serves the configured locations with the registry filled for them,
  from a pool in which all threads wait and one accept is in flight.
\<close>

theorem main_serves:
  "(\<exists>out err. main h files argc argv q st = Some (Serves site P, out, err)) \<longleftrightarrow>
     console_log_error h = None \<and> file_log_error h = None \<and> signals_error h = None
     \<and> 0 < hardware_concurrency h \<and> (\<forall>i<hardware_concurrency h. thread_error h i = None)
     \<and> (\<exists>cfg reg. configured files argc argv cfg reg \<and> listen_error h (port cfg) = None
          \<and> site = \<lparr>site_locations = locations cfg, site_factories = reg\<rparr>)
     \<and> P = pool_new (hardware_concurrency h) (server_new q st)"
proof (cases "console_log_error h = None \<and> file_log_error h = None")
  case False
  then show ?thesis by (auto simp: main_def split: option.split)
next
  case True
  show ?thesis
  proof (cases "\<exists>cfg reg. configured files argc argv cfg reg")
    case False
    from main_not_configured [OF False conjunct1 [OF True] conjunct2 [OF True]] obtain err
      where "main h files argc argv q st = Some (Exits 1, [], err)" ..
    with False True show ?thesis by auto
  next
    case c: True
    then obtain cfg reg where cfg: "configured files argc argv cfg reg" by blast
    define out where "out = ''Listening on port: '' @ dec_int (sint (port cfg)) @ [LF]"
    let ?site = "\<lparr>site_locations = locations cfg, site_factories = reg\<rparr>"
    have ex: "(\<exists>cfg' reg'. configured files argc argv cfg' reg' \<and> Q cfg' reg') \<longleftrightarrow> Q cfg reg" for Q
      using cfg configured_unique [OF cfg] by metis
    have "(\<exists>out err. main h files argc argv q st = Some (Serves site P, out, err)) \<longleftrightarrow>
        signals_error h = None \<and> listen_error h (port cfg) = None
        \<and> (\<exists>out' err. run_threads h ?site (server_new q st) out = (Serves site P, out', err))"
      unfolding main_configured [OF cfg conjunct1 [OF True] conjunct2 [OF True]] out_def [symmetric]
      by (simp split: option.split)
    then show ?thesis unfolding run_threads_Serves ex using True by blast
  qed
qed

text \<open>So everything proved of reachable pools holds of the program from then on.\<close>

lemma main_pool_new:
  assumes "main h files argc argv q st = Some (Serves site P, out, err)"
  shows "P = pool_new (hardware_concurrency h) (server_new q st)"
proof -
  obtain s' o' o'' e where "run_threads h s' (server_new q st) o' = (Serves site P, o'', e)"
    using assms unfolding main_def Let_def
    by (auto simp del: append_Cons split: option.splits if_splits prod.splits)
  then show ?thesis using run_threads_Serves by blast
qed

lemma main_pool:
  "main h files argc argv q st = Some (Serves site P, out, err) \<Longrightarrow>
   pool_reachable site st (hardware_concurrency h) (Pool P)"
  using main_pool_new pool_reachable.start by blast

definition sample_host :: host where
  "sample_host = \<lparr>console_log_error = None, file_log_error = None, signals_error = None,
     listen_error = \<lambda>_. None, hardware_concurrency = 4, thread_error = \<lambda>_. None\<rparr>"

lemma sample_configured:
  "configured [''conf'' \<mapsto> ToString 0 sample_config] 2 [''server'', ''conf''] (fst sample_server_config) (snd sample_server_config)"
proof -
  have "Parse (ToString 0 sample_config) (NginxConfig []) = Accepted sample_config"
    using Parse_ToString_rest [of sample_config "[]" 0] wf_sample_config by (simp add: token_stream_Nil)
  then have "token_stream (ToString 0 sample_config) = Some (config_tokens sample_config)" by (simp add: Parse_accepts)
  with wf_sample_config show ?thesis
    by (simp add: configured_def sample_server_config_eq)
      (auto simp: sample_server_config_def [symmetric] sample_server_config_eq)
qed

lemma sample_host_serves:
  assumes "configured files argc argv cfg reg"
  shows "\<exists>out err. main sample_host files argc argv q st
    = Some (Serves \<lparr>site_locations = locations cfg, site_factories = reg\<rparr> (pool_new 4 (server_new q st)), out, err)"
proof -
  have h: "console_log_error sample_host = None" "file_log_error sample_host = None" "signals_error sample_host = None"
    "listen_error sample_host p = None" "hardware_concurrency sample_host = 4" "thread_error sample_host i = None" for p i
    by (simp_all add: sample_host_def)
  then have "\<forall>i<hardware_concurrency sample_host. thread_error sample_host i = None" by simp
  from main_configured [OF assms h(1,2), of q st] run_threads_all [OF this] h show ?thesis by simp
qed

theorem main_serves_witness:
  "\<exists>site P out err. main sample_host [''conf'' \<mapsto> ToString 0 sample_config] 2 [''server'', ''conf''] 0 (\<lambda>_. [])
     = Some (Serves site P, out, err)"
  using main_serves [of sample_host "[''conf'' \<mapsto> ToString 0 sample_config]" 2 "[''server'', ''conf'']" 0 "\<lambda>_. []"]
    sample_configured
  by (simp add: sample_host_def) blast


end
