(* ===== verification/Program_Service.thy ===== *)
theory Program_Service
  imports Server_Service Program
begin

text \<open>
  The whole program as the service its clients see: from \<^verbatim>\<open>main\<close> to the exchanges of a pool of
  threads that run handlers of different sessions at the same time, each with one moment of
  effect. The exchanges are listed in the order of these moments.
\<close>

inductive pool_served :: "site \<Rightarrow> pool \<Rightarrow> exchange list \<Rightarrow> pool \<Rightarrow> bool" for site P0 where
  pool_served_start: "pool_served site P0 [] P0"
| pool_served_begins: "pool_served site P0 xs P \<Longrightarrow> k < length (threads P) \<Longrightarrow> threads P ! k = Idle \<Longrightarrow> \<not> stopped P
    \<Longrightarrow> (p, x) \<in> set (pending (shared P)) \<Longrightarrow> pool_served site P0 xs (begin_handler k p x P)"
| pool_served_ends: "pool_served site P0 xs P \<Longrightarrow> k < length (threads P) \<Longrightarrow> threads P ! k = Busy p x
    \<Longrightarrow> op_of c = (p, x) \<Longrightarrow> result_ok c (shared P) \<Longrightarrow> end_handler site k c P = Pool P'
    \<Longrightarrow> pool_served site P0 (xs @ exchange_of site c (shared P)) P'"
| pool_served_signals: "pool_served site P0 xs P \<Longrightarrow> k < length (threads P) \<Longrightarrow> threads P ! k = Idle \<Longrightarrow> \<not> stopped P
    \<Longrightarrow> signal_wait P \<Longrightarrow> pool_served site P0 xs (on_signal errorCode P)"
| pool_served_returns: "pool_served site P0 xs P \<Longrightarrow> k < length (threads P) \<Longrightarrow> threads P ! k = Idle
    \<Longrightarrow> stopped P \<or> no_work P \<Longrightarrow> pool_served site P0 xs (P\<lparr>threads := (threads P)[k := Returned]\<rparr>)"

text \<open>These are the steps of the pool, with the exchanges written down.\<close>

lemma pool_served_step:
  assumes "pool_served site P0 xs P" "pool_step site (Pool P) (Pool P')"
  shows "\<exists>ys. pool_served site P0 (xs @ ys) P'"
  using assms(2)
proof (cases rule: pool_step_PoolE)
  case (begins k p x)
  with pool_served_begins [OF assms(1), of k p x] show ?thesis by (intro exI [of _ "[]"]) simp
next
  case (ends k p x c)
  from pool_served_ends [OF assms(1) ends(2-5) ends(1) [symmetric]] show ?thesis by blast
next
  case (signals k errorCode)
  with pool_served_signals [OF assms(1), of k errorCode] show ?thesis by (intro exI [of _ "[]"]) simp
next
  case (returns k)
  with pool_served_returns [OF assms(1), of k] show ?thesis by (intro exI [of _ "[]"]) simp
qed

lemma pool_run_served:
  "pool_reachable site st n X \<Longrightarrow> case X of
     Pool P \<Rightarrow> \<exists>q xs. pool_served site (pool_new n (server_new q st)) xs P | _ \<Rightarrow> True"
proof (induction rule: pool_reachable.induct)
  case (start q)
  then show ?case using pool_served_start by (auto intro: exI [of _ q])
next
  case (step X Y)
  show ?case
  proof (cases X)
    case (Pool P)
    with step show ?thesis using pool_served_step by (cases Y) fastforce+
  qed (use step in \<open>auto simp: pool_step_Aborted pool_step_Corrupted\<close>)
qed

text \<open>An exchange depends on the sessions and the stores only.\<close>

lemma exchange_of_ahead:
  assumes "ahead os sv sv'"
  shows "exchange_of site c sv' = exchange_of site c sv"
  unfolding exchange_of_def conjunct1 [OF ahead_heap [OF assms]] conjunct2 [OF ahead_heap [OF assms]] ..

text \<open>The exchanges of the pool are exchanges of a server that runs one handler at a time.\<close>

lemma pool_served_implements:
  assumes "pool_served site P0 xs P" "implements P0 sv0" "server_inv sv0"
  shows "\<exists>sv. served site sv0 xs sv \<and> implements P sv \<and> server_inv sv"
  using assms(1)
proof (induction rule: pool_served.induct)
  case pool_served_start
  then show ?case using assms(2,3) served_start by blast
next
  case (pool_served_begins xs P k p x)
  then show ?case using implements_begin by blast
next
  case (pool_served_ends xs P k p x c P')
  then obtain sv where sv: "served site sv0 xs sv" "implements P sv" "server_inv sv" by blast
  from implements_end [OF sv(2,3) pool_served_ends.hyps(2-5), of site] pool_served_ends.hyps(6)
  obtain sv' where sv': "enabled c sv" "complete site c sv = Running sv'" "implements P' sv'" by auto
  have "exchange_of site c sv = exchange_of site c (shared P)"
    using sv(2) unfolding implements_def by (blast intro: exchange_of_ahead)
  with served_step [OF sv(1) sv'(1,2)] complete_inv [OF sv(3) sv'(1), of site] sv'(2,3) show ?case by auto
next
  case (pool_served_signals xs P k errorCode)
  then show ?case using implements_idle(2) by blast
next
  case (pool_served_returns xs P k)
  then show ?case using implements_idle(1) by blast
qed

lemma pool_service:
  assumes "pool_served site (pool_new n (server_new q st)) xs P" "\<forall>x\<in>set xs. undisturbed x"
    and "stores_ready (length xs + m) st"
  shows "stores_ready m (server_stores (shared P)) \<and> service (all_abs st) xs (all_abs (server_stores (shared P)))"
proof -
  from pool_served_implements [OF assms(1) implements_new server_inv_new] obtain sv where
    sv: "served site (server_new q st) xs sv" "implements P sv" by blast
  have "server_stores (server_new q st) = st" by (simp add: server_new_def)
  with served_service [OF sv(1) assms(2), of m] assms(3) ahead_heap [of "busy_ops (threads P)" "shared P" sv] sv(2)
  show ?thesis by (simp add: implements_def)
qed

text \<open>A run of a pool: a client connects and sends a request in one piece.\<close>

lemma pool_one_request:
  assumes "RequestParser_Parse text (fresh_request True) = (True, req)" "is_valid req"
    and "CreateHandler (site_factories site) (site_locations site) (url req) = Done h"
    and "handle_request w h req st = Done (resp, st')" "0 < n" "0 < length text" "length text \<le> max_length"
  shows "\<exists>P. pool_served site (pool_new n (server_new 0 st)) [(w, h, req, resp)] P"
proof -
  let ?s = "new_session\<lparr>ip := ''10.0.0.1'', client_port := 5000\<rparr>"
  let ?sv = "\<lparr>heap = [0 \<mapsto> ?s, 1 \<mapsto> new_session], pending = [(0, OpReadSome), (1, OpAccept)], stuck = {},
    server_stores = st, metrics = []\<rparr>"
  let ?idle = "replicate n Idle"
  let ?P = "\<lparr>threads = ?idle, stopped = False, signal_wait = True, shared = ?sv\<rparr>"
  let ?c0 = "AcceptDone 0 False (Some (''10.0.0.1'', 5000)) 1"
  let ?c1 = "ReadDone 0 w True False text"
  have idle: "?idle[0 := Idle] = ?idle" "k < n \<Longrightarrow> ?idle ! k = Idle" for k
    using assms(5) by (simp_all add: list_update_same_conv)
  have new: "server_new 0 st = \<lparr>heap = [0 \<mapsto> new_session], pending = [(0, OpAccept)], stuck = {}, server_stores = st, metrics = []\<rparr>"
    by (simp add: server_new_def start_accept_def)
  let ?P1 = "begin_handler 0 0 OpAccept (pool_new n (server_new 0 st))"
  have 1: "pool_served site (pool_new n (server_new 0 st)) [] ?P1"
    by (rule pool_served_begins [OF pool_served_start]) (use assms(5) idle in \<open>simp_all add: pool_new_def new\<close>)
  have "end_handler site 0 ?c0 ?P1 = Pool ?P"
    using idle(1) by (simp add: end_handler_def begin_handler_def pool_new_def new complete_def handle_accept_def take_op_def
        session_start_def StartAsyncRead_def proceed_def start_accept_def op_of_def fun_upd_twist)
  from pool_served_ends [OF 1 _ _ _ _ this, of 0 OpAccept] assms(5)
  have 2: "pool_served site (pool_new n (server_new 0 st)) [] ?P"
    by (simp add: begin_handler_def pool_new_def new take_op_def op_of_def result_ok_def exchange_of_def)
  let ?P3 = "begin_handler 0 0 OpReadSome ?P"
  have 3: "pool_served site (pool_new n (server_new 0 st)) [] ?P3"
    by (rule pool_served_begins [OF 2]) (use assms(5) idle in simp_all)
  have parsed: "RequestParser_Parse (request_buffer ?s @ text) (fresh_request True) = (True, req)"
    using assms(1) by (simp add: new_session_def)
  have sh: "heap (shared ?P3) 0 = Some ?s" "server_stores (shared ?P3) = st" "stuck (shared ?P3) = {}"
    by (simp_all add: begin_handler_def take_op_def)
  have ex: "exchange_of site ?c1 (shared ?P3) = [(w, h, req, resp)]"
    using sh parsed assms(2-4) by (simp add: exchange_of_def)
  obtain P' where P': "end_handler site 0 ?c1 ?P3 = Pool P'"
    using sh parsed assms(2-4) by (auto simp: end_handler_def complete_def handle_read_def respond_def answer_def Let_def)
  have ok: "op_of ?c1 = (0, OpReadSome)" "result_ok ?c1 (shared ?P3)"
    using assms(6,7) by (simp_all add: op_of_def result_ok_def)
  have busy: "0 < length (threads ?P3)" "threads ?P3 ! 0 = Busy 0 OpReadSome"
    using assms(5) by (simp_all add: begin_handler_def)
  from pool_served_ends [OF 3 busy ok P'] ex show ?thesis by auto
qed

end
