(* ===== verification/Api_Concurrent.thy ===== *)
theory Api_Concurrent
  imports Server_Service
begin

text \<open>
  Requests to the API that several threads handle at the same time, down to the calls into
  the file system. A handler does its work on its own request, makes at most one call of the
  store, and then makes the response from what it returns; so the runs of \<open>Store_Linearizable\<close>
  are runs of requests.
\<close>

section \<open>A request is one call of the store\<close>

datatype plan = Answer response | Ask call

definition api_plan :: "(string \<Rightarrow> bool) \<Rightarrow> string \<Rightarrow> request \<Rightarrow> plan" where
  "api_plan json url_prefix req =
     (case ExtractSegments url_prefix (url req) of
        [] \<Rightarrow> Answer (BadRequest ''Entity type required'')
      | e # rest \<Rightarrow>
          if \<not> IsValidEntityName e then Answer (BadRequest ''Invalid entity name'')
          else if rq_method req = ''POST'' then
            (if rest \<noteq> [] then Answer (BadRequest ''POST target must be /Entity'')
             else if \<not> json (rq_body req) then Answer (BadRequest ''Body is not valid JSON'')
             else Ask (CallCreate e (rq_body req)))
          else if rq_method req = ''GET'' then
            (if rest = [] then Ask (CallList e)
             else (case ParseId (hd rest) of
                     None \<Rightarrow> Answer (BadRequest ''Invalid ID'')
                   | Some i \<Rightarrow> Ask (CallRead e i)))
          else if rq_method req = ''PUT'' then
            (if length rest \<noteq> 1 then Answer (BadRequest ''PUT target must be /Entity/{id}'')
             else (case ParseId (hd rest) of
                     None \<Rightarrow> Answer (BadRequest ''Invalid ID'')
                   | Some i \<Rightarrow>
                       if \<not> json (rq_body req) then Answer (BadRequest ''Body is not valid JSON'')
                       else Ask (CallUpdate e i (rq_body req))))
          else if rq_method req = ''DELETE'' then
            (if length rest \<noteq> 1 then Answer (BadRequest ''DELETE target must be /Entity/{id}'')
             else (case ParseId (hd rest) of
                     None \<Rightarrow> Answer (BadRequest ''Invalid ID'')
                   | Some i \<Rightarrow> Ask (CallDelete e i)))
          else Answer (MethodNotAllowed ''Unsupported method''))"

text \<open>The response to what the call returned; \<open>None\<close> when it does not return.\<close>

fun api_reply :: "call \<Rightarrow> reply \<Rightarrow> response option" where
  "api_reply (CallCreate e d) (Created i) =
     Some (if sint i < 0 then InternalServerError ''Failed to create entity'' else Ok (id_json i) kJsonContentType)"
| "api_reply (CallList e) (Listed ids) = Some (Ok (''['' @ ids_json (sort_key sint ids) @ '']'') kJsonContentType)"
| "api_reply (CallRead e i) (ReadReply None) = Some (NotFound ''Entity not found'')"
| "api_reply (CallRead e i) (ReadReply (Some d)) = Some (Ok d kJsonContentType)"
| "api_reply (CallUpdate e i d) (Updated b) =
     Some (if b then Ok (id_json i) kJsonContentType else InternalServerError ''Failed to update entity'')"
| "api_reply (CallDelete e i) (Removed b) =
     Some (if b then Ok ''{\"deleted\":true}'' kJsonContentType else NotFound ''Entity not found'')"
| "api_reply _ _ = None"

lemma api_plan_handles:
  "Api_handle_request (Some (EntityStorePersistent w)) p json req disk =
     (case api_plan json p req of
        Answer resp \<Rightarrow> Done (resp, disk)
      | Ask c \<Rightarrow>
          (case atomic w c disk of (r, disk') \<Rightarrow>
             (case api_reply c r of None \<Rightarrow> Forever | Some resp \<Rightarrow> Done (resp, disk'))))"
proof (cases "ExtractSegments p (url req)")
  case Nil
  then show ?thesis by (simp add: Api_handle_request_def api_plan_def)
next
  case (Cons e rest)
  note defs = Api_handle_request_def api_plan_def Cons store_simps
  show ?thesis
  proof (cases "IsValidEntityName e")
    case False
    then show ?thesis by (simp add: defs)
  next
    case e: True
    consider "rq_method req = ''POST''" | "rq_method req = ''GET''" | "rq_method req = ''PUT''"
      | "rq_method req = ''DELETE''"
      | "rq_method req \<notin> {''POST'', ''GET'', ''PUT'', ''DELETE''}" by blast
    then show ?thesis
    proof cases
      case 1
      with e show ?thesis by (auto simp: defs HandlePost_def split: option.split)
    next
      case 2
      have "length (e # rest) = 1 \<longleftrightarrow> rest = []" "rest \<noteq> [] \<Longrightarrow> (e # rest) ! 1 = hd rest"
        by (simp_all add: hd_conv_nth)
      with 2 e show ?thesis by (auto simp: defs HandleGet_def split: option.split prod.split)
    next
      case 3
      have "length (e # rest) = 2 \<longleftrightarrow> length rest = 1" "length rest = 1 \<Longrightarrow> (e # rest) ! 1 = hd rest"
        by (auto simp: hd_conv_nth length_Suc_conv)
      with 3 e show ?thesis by (auto simp: defs HandlePut_def split: option.split prod.split bool.split)
    next
      case 4
      have "length (e # rest) = 2 \<longleftrightarrow> length rest = 1" "length rest = 1 \<Longrightarrow> (e # rest) ! 1 = hd rest"
        by (auto simp: hd_conv_nth length_Suc_conv)
      with 4 e show ?thesis by (auto simp: defs HandleDelete_def split: option.split prod.split bool.split)
    next
      case 5
      with e show ?thesis by (simp add: defs)
    qed
  qed
qed

section \<open>Requests in parallel\<close>

text \<open>Requests with their responses, right one after the other on the contents of the store.\<close>

fun api_history :: "(string \<Rightarrow> bool) \<Rightarrow> string \<Rightarrow> contents \<Rightarrow> (request \<times> response) list \<Rightarrow> contents \<Rightarrow> bool" where
  "api_history json p m [] m' \<longleftrightarrow> m' = m"
| "api_history json p m ((req, resp) # xs) m' \<longleftrightarrow>
     (\<exists>m1. api_spec json (ExtractSegments p (url req)) req m resp m1 \<and> api_history json p m1 xs m')"

text \<open>A request whose handler makes the call \<open>c\<close>, with no ID too large and no file operation failing.\<close>

definition asks :: "(string \<Rightarrow> bool) \<Rightarrow> string \<Rightarrow> request \<Rightarrow> io \<times> call \<times> reply \<Rightarrow> bool" where
  "asks json p req = (\<lambda>(w, c, r). api_plan json p req = Ask c \<and> ids_fit (ExtractSegments p (url req)) \<and> io_ok w)"

definition answered :: "io \<times> call \<times> reply \<Rightarrow> response \<Rightarrow> bool" where
  "answered = (\<lambda>(w, c, r) resp. api_reply c r = Some resp)"

lemma sequential_api:
  assumes "sequential atomic h disk" "list_all2 (asks json p) reqs h" "disk_inv disk" "room_for (length h) disk"
  shows "\<exists>resps. list_all2 answered h resps
    \<and> api_history json p (disk_abs disk) (zip reqs resps) (disk_abs (replay atomic h disk))"
  using assms
proof (induction h arbitrary: disk reqs)
  case Nil
  then show ?case by simp
next
  case (Cons x h)
  obtain w c r where x: "x = (w, c, r)" by (cases x) auto
  obtain req reqs' where reqs: "reqs = req # reqs'" "asks json p req x" "list_all2 (asks json p) reqs' h"
    using Cons.prems(2) by (auto simp: list_all2_Cons2)
  obtain disk1 where at: "atomic w c disk = (r, disk1)" and seq: "sequential atomic h disk1"
    using Cons.prems(1) by (cases "atomic w c disk") (simp add: x)
  have a: "api_plan json p req = Ask c" "ids_fit (ExtractSegments p (url req))" "io_ok w"
    using reqs(2) by (simp_all add: asks_def x)
  have room: "room_for (Suc (length h)) disk" using Cons.prems(4) by simp
  then have "\<forall>e. disk_room disk e" using room_for_disk_room by blast
  from Api_total [OF a(3) Cons.prems(3) a(2) this, of json] obtain resp where
    resp: "api_reply c r = Some resp" "disk_inv disk1"
      "api_spec json (ExtractSegments p (url req)) req (disk_abs disk) resp (disk_abs disk1)"
    by (auto simp: api_plan_handles a(1) at split: option.splits)
  have "room_for (length h) disk1" using atomic_room [OF room, of w c] at by simp
  from Cons.IH [OF seq reqs(3) resp(2) this] obtain resps where
    "list_all2 answered h resps" "api_history json p (disk_abs disk1) (zip reqs' resps) (disk_abs (replay atomic h disk1))"
    by blast
  with resp(1,3) show ?case by (intro exI [of _ "resp # resps"]) (auto simp: reqs(1) x at answered_def)
qed

text \<open>
  C6: API requests that threads handle at the same time are linearizable, as
  long as no two that overlap are for the same entity, unless both are \<^verbatim>\<open>GET\<close>s. Their handlers make their calls into
  the file system in any order; the responses they give, in the order in which their store
  calls return, are the ones \<open>api_spec\<close> gives to the requests one after the other, each on the
  contents as the ones before have left them, and the disk holds the contents after the last,
  but for the entities with another request than a \<^verbatim>\<open>GET\<close> in progress.
\<close>

theorem Api_linearizable:
  assumes "store_run call_entity (\<lambda>_. True) disk ts disk' h" "list_all2 (asks json p) reqs h"
    and "disk_inv disk" "room_for (length h) disk"
  shows "\<exists>resps m. list_all2 answered h resps \<and> api_history json p (disk_abs disk) (zip reqs resps) m
    \<and> (\<forall>e. (\<forall>k w s. ts k = Some (w, s) \<longrightarrow> call_entity (stage_call s) = e \<longrightarrow> only_reads (stage_call s)) \<longrightarrow> disk_abs disk' e = m e)"
  using entity_runs [OF assms(1)] sequential_api [OF _ assms(2-4)] by blast

theorem Api_linearizable_witness:
  "\<exists>disk' r1 r resps m. store_run call_entity (\<lambda>_. True) sample_disk (\<lambda>_. None) disk'
      [(io_fine, CallCreate ''Hats'' ''data'', r1), (io_fine, CallUpdate ''Shoes'' 1 ''data'', r)]
    \<and> api_history (\<lambda>_. True) ''/api'' (disk_abs sample_disk)
        (zip [sample_put\<lparr>rq_method := ''POST'', url := ''/api/Hats''\<rparr>, sample_put] resps) m
    \<and> length resps = 2 \<and> disk_abs disk' = m"
proof -
  let ?c = "CallUpdate ''Shoes'' 1 ''data''" and ?c1 = "CallCreate ''Hats'' ''data''"
  let ?post = "sample_put\<lparr>rq_method := ''POST'', url := ''/api/Hats''\<rparr>"
  obtain r1 d1 where 1: "atomic io_fine ?c1 sample_disk = (r1, d1)" by fastforce
  obtain r d2 where 2: "atomic io_fine ?c d1 = (r, d2)" by fastforce
  have run: "store_run call_entity (\<lambda>_. True) sample_disk (\<lambda>_. None) d2 [(io_fine, ?c1, r1), (io_fine, ?c, r)]"
    by (rule overlapping_run [OF _ _ _ 1 2]) simp_all
  have segs: "ExtractSegments ''/api'' (url sample_put) = [''Shoes'', ''1'']" "ExtractSegments ''/api'' ''/api/Hats'' = [''Hats'']"
    using sample_get_segments ExtractSegments_path [of "[''Hats'']" "''/api''" "[]" 0]
    by (simp_all add: sample_put_def good_segment_def)
  have valid: "IsValidEntityName ''Hats''" by (simp add: IsValidEntityName_def isalnum_def isdigit_def code_def)
  have rq: "rq_method sample_put = ''PUT''" "rq_body sample_put = ''data''" by (simp_all add: sample_put_def)
  have asked: "list_all2 (asks (\<lambda>_. True) ''/api'') [?post, sample_put] [(io_fine, ?c1, r1), (io_fine, ?c, r)]"
    using segs valid Shoes_valid ParseId_1 rq io_ok_fine
    by (simp add: asks_def api_plan_def id_fits_def dec_value_def code_def)
  have "room_for (length [(io_fine, ?c1, r1), (io_fine, ?c, r)]) sample_disk"
    by (simp add: room_for_def disk_usable_def entries_of_def sample_disk_entries) (simp add: sample_disk_def)
  from Api_linearizable [OF run asked sample_disk_inv this] obtain resps m where
    "list_all2 answered [(io_fine, ?c1, r1), (io_fine, ?c, r)] resps"
    "api_history (\<lambda>_. True) ''/api'' (disk_abs sample_disk) (zip [?post, sample_put] resps) m" "disk_abs d2 = m"
    by (auto simp: fun_eq_iff)
  moreover from this(1) have "length resps = 2" by (auto dest: list_all2_lengthD)
  ultimately show ?thesis using run by blast
qed

end
