(* ===== verification/Staged_Pool.thy ===== *)
theory Staged_Pool
  imports Program_Service Api_Concurrent
begin

text \<open>
  The pool of threads down to the calls into the file system. In \<open>Thread_Pool\<close> a handler has
  one moment of effect; here a handler of the API that needs its store asks for an operation,
  takes its turns at the file system one by one while the other threads take theirs, and goes
  on in \<^verbatim>\<open>session::handle_read\<close> when the store has returned. All other handlers, which touch
  nothing but their own session, still have one moment of effect. Runs in which no two such
  operations on one entity of one data path overlap, unless both only read, are runs of
  \<open>Thread_Pool\<close> with the same threads, sessions, answers and log, on stores that hold the same.
\<close>

section \<open>Handlers that ask the store\<close>

text \<open>A request whose handler is in the store, with the read that completed it.\<close>

record api_request =
  ar_read :: completion
  ar_world :: outside
  ar_path :: string
  ar_prefix :: string
  ar_request :: request
  ar_stage :: stage

text \<open>What \<^verbatim>\<open>handle_read\<close> does before it is in the store: the request that it asks the store with, if any.\<close>

definition asked :: "site \<Rightarrow> completion \<Rightarrow> server \<Rightarrow> api_request option" where
  "asked site c sv =
     (case c of
        ReadDone p w g False data \<Rightarrow>
          (case heap sv p of
             None \<Rightarrow> None
           | Some s \<Rightarrow>
              (case RequestParser_Parse (request_buffer s @ data) (fresh_request g) of
                 (False, _) \<Rightarrow> None
               | (True, req) \<Rightarrow>
                   if \<not> is_valid req then None
                   else (case CreateHandler (site_factories site) (site_locations site) (url req) of
                           Done (ApiRequestHandler_on data_path url_prefix) \<Rightarrow>
                             (case api_plan (o_json w) url_prefix req of
                                Answer resp \<Rightarrow> None
                              | Ask call \<Rightarrow> Some \<lparr>ar_read = c, ar_world = w, ar_path = data_path,
                                  ar_prefix = url_prefix, ar_request = req, ar_stage = Begin call\<rparr>)
                         | _ \<Rightarrow> None)))
      | _ \<Rightarrow> None)"

text \<open>What it does once the handler has its response.\<close>

definition resume :: "api_request \<Rightarrow> response \<Rightarrow> server \<Rightarrow> server" where
  "resume a resp sv =
     (case ar_read a of
        ReadDone p w g error data \<Rightarrow>
          (case heap sv p of
             None \<Rightarrow> sv
           | Some s \<Rightarrow>
               let s1 = s\<lparr>request_buffer := request_buffer s @ data\<rparr> in
               proceed p (SendResponse (s1\<lparr>response_bytes := SerializeResponse (Some resp)\<rparr>))
                 ((take_op p OpReadSome sv)\<lparr>metrics := metrics sv @ [LogResponseMetrics s1 resp (url (ar_request a))
                    (GetHandlerName (ApiRequestHandler_on (ar_path a) (ar_prefix a)))]\<rparr>))
      | _ \<Rightarrow> sv)"

definition hang :: "nat \<Rightarrow> server \<Rightarrow> server" where
  "hang p sv = (take_op p OpReadSome sv)\<lparr>stuck := insert p (stuck sv)\<rparr>"

abbreviation ar_session :: "api_request \<Rightarrow> nat" where
  "ar_session a \<equiv> fst (op_of (ar_read a))"

abbreviation ar_call :: "api_request \<Rightarrow> call" where
  "ar_call a \<equiv> stage_call (ar_stage a)"

abbreviation ar_io :: "api_request \<Rightarrow> io" where
  "ar_io a \<equiv> o_io (ar_world a)"

abbreviation ar_exchange :: "api_request \<Rightarrow> response \<Rightarrow> exchange" where
  "ar_exchange a resp \<equiv> (ar_world a, ApiRequestHandler_on (ar_path a) (ar_prefix a), ar_request a, resp)"

abbreviation on_stores :: "stores \<Rightarrow> server \<Rightarrow> server" where
  "on_stores st sv \<equiv> sv\<lparr>server_stores := st\<rparr>"

lemma resume_stuck: "stuck (proceed p stp sv) = stuck sv" "stuck (take_op p x sv) = stuck sv"
  by (simp_all add: proceed_def take_op_def split: session_step.split async_op.split)

lemma resume_simps [simp]:
  "stuck (resume a resp sv) = stuck sv" "server_stores (resume a resp sv) = server_stores sv"
  "resume (a\<lparr>ar_stage := s\<rparr>) resp sv = resume a resp sv"
  by (simp_all add: resume_def Let_def resume_stuck split: completion.split option.split)

lemma asked_read: "asked site c sv = Some a \<Longrightarrow> ar_read a = c \<and> snd (op_of c) = OpReadSome \<and> (\<exists>call. ar_stage a = Begin call)"
  by (auto simp: asked_def op_of_def split: completion.splits bool.splits option.splits prod.splits if_splits
      outcome.splits RequestHandler.splits plan.splits)

text \<open>It depends on the session only.\<close>

lemma asked_heap: "heap sv' (fst (op_of c)) = heap sv (fst (op_of c)) \<Longrightarrow> asked site c sv' = asked site c sv"
  by (auto simp: asked_def op_of_def split: completion.splits bool.splits)

lemma hangs_unchanged:
  assumes "atomic w c disk = (r, disk')" "api_reply c r = None"
  shows "disk' = disk"
proof (cases c)
  case (CallCreate e d)
  with assms have "Create_choose w e disk = (Endless, disk')"
    by (auto simp: Persistent_Create_def split: option.splits choice.splits prod.splits)
  then obtain ids where e: "EnsureEntityDirectory w e disk = (True, disk')" "iterate_ids w e disk' = Some ids"
    "next_unused (\<lambda>i. i \<in> set ids) 0 = None"
    by (auto simp: Create_choose_def split: if_splits prod.splits bool.splits option.splits)
  have "ids \<noteq> []"
  proof
    assume "ids = []"
    then have "next_unused (\<lambda>i. i \<in> set ids) 0 = Some 0" by (subst next_unused.simps) simp
    with e(3) show False by simp
  qed
  with e(1,2) show ?thesis
    by (auto simp: EnsureEntityDirectory_def iterate_ids_def store_simps split: if_splits option.splits entry.splits)
next
  case (CallRead e i)
  with assms show ?thesis by (cases "fst (Persistent_Read w e i disk)") (auto split: prod.splits)
qed (use assms in \<open>auto split: prod.splits\<close>)

section \<open>What a completion does\<close>

lemma handle_asked:
  assumes "api_plan (o_json w) p req = Ask call"
  shows "handle_request w (ApiRequestHandler_on d p) req st =
    (case atomic (o_io w) call (st d) of (r, disk) \<Rightarrow>
       (case api_reply call r of None \<Rightarrow> Forever | Some resp \<Rightarrow> Done (resp, st(d := disk))))"
  using assms by (auto simp: handle_request_def on_store_def api_plan_handles split: prod.split option.split)

lemma handle_not_asked:
  assumes "\<And>d p call. h = ApiRequestHandler_on d p \<Longrightarrow> api_plan (o_json w) p req \<noteq> Ask call"
  obtains resp where "\<forall>st. handle_request w h req st = Done (resp, st)" | "\<forall>st. handle_request w h req st = Exception"
proof (cases h)
  case (ApiRequestHandler_on d p)
  then obtain resp where "api_plan (o_json w) p req = Answer resp" using assms by (cases "api_plan (o_json w) p req") auto
  then show ?thesis using that(1) ApiRequestHandler_on by (simp add: handle_request_def on_store_def api_plan_handles)
next
  case (FileRequestHandler base_dir url_prefix)
  have "(\<exists>resp. \<forall>st. handle_request w h req st = Done (resp, st)) \<or> (\<forall>st. handle_request w h req st = Exception)"
    by (auto simp: FileRequestHandler handle_request_def File_handle_request_def Let_def split: option.splits bool.splits)
  then show ?thesis using that by blast
qed (use that(1) in \<open>auto simp: handle_request_def Echo_handle_request_def Health_handle_request_def
      NotFound_handle_request_def Sleep_handle_request_def\<close>)

text \<open>A completion that asks the store: the operation as a whole, and then the rest of the handler.\<close>

lemma complete_asked:
  assumes "asked site c sv = Some a" "atomic (ar_io a) (ar_call a) (st (ar_path a)) = (r, disk)"
  shows "complete site c (on_stores st sv) =
      (case api_reply (ar_call a) r of
         None \<Rightarrow> Running (on_stores st (hang (ar_session a) sv))
       | Some resp \<Rightarrow> Running (on_stores (st(ar_path a := disk)) (resume a resp sv)))"
    and "exchange_of site c (on_stores st sv) =
      (case api_reply (ar_call a) r of None \<Rightarrow> [] | Some resp \<Rightarrow> [ar_exchange a resp])"
proof -
  obtain p w g data s req d u call where c: "c = ReadDone p w g False data" "heap sv p = Some s"
    "RequestParser_Parse (request_buffer s @ data) (fresh_request g) = (True, req)" "is_valid req"
    "CreateHandler (site_factories site) (site_locations site) (url req) = Done (ApiRequestHandler_on d u)"
    "api_plan (o_json w) u req = Ask call"
    and a: "a = \<lparr>ar_read = c, ar_world = w, ar_path = d, ar_prefix = u, ar_request = req, ar_stage = Begin call\<rparr>"
    using assms(1)
    by (auto simp: asked_def split: completion.splits bool.splits option.splits prod.splits if_splits
        outcome.splits RequestHandler.splits plan.splits)
  have h: "handle_request w (ApiRequestHandler_on d u) req st =
      (case api_reply call r of None \<Rightarrow> Forever | Some resp \<Rightarrow> Done (resp, st(d := disk)))"
    using assms(2) by (simp add: handle_asked [OF c(6)] a)
  show "complete site c (on_stores st sv) =
      (case api_reply (ar_call a) r of
         None \<Rightarrow> Running (on_stores st (hang (ar_session a) sv))
       | Some resp \<Rightarrow> Running (on_stores (st(ar_path a := disk)) (resume a resp sv)))"
    by (cases "api_reply call r")
      (simp_all add: c a h complete_def handle_read_def respond_def answer_def Let_def hang_def resume_def op_of_def
        proceed_def SendResponse_def take_op_def)
  show "exchange_of site c (on_stores st sv) =
      (case api_reply (ar_call a) r of None \<Rightarrow> [] | Some resp \<Rightarrow> [ar_exchange a resp])"
    by (cases "api_reply call r") (simp_all add: c a h exchange_of_def)
qed

text \<open>Any other completion neither reads nor writes the stores.\<close>

lemma on_stores_commute:
  "proceed p stp (on_stores st sv) = on_stores st (proceed p stp sv)"
  "take_op p x (on_stores st sv) = on_stores st (take_op p x sv)"
  "start_accept q (on_stores st sv) = on_stores st (start_accept q sv)"
  "proceed p stp (sv\<lparr>server_stores := st, metrics := m\<rparr>) = on_stores st (proceed p stp (sv\<lparr>metrics := m\<rparr>))"
  by (simp_all add: proceed_def take_op_def start_accept_def split: session_step.split async_op.split)

lemma complete_not_asked:
  assumes "asked site c sv = None"
  shows "complete site c (on_stores st sv) =
      (case complete site c sv of Running sv' \<Rightarrow> Running (on_stores st sv') | x \<Rightarrow> x)
    \<and> (\<forall>sv'. complete site c sv = Running sv' \<longrightarrow> server_stores sv' = server_stores sv)
    \<and> exchange_of site c (on_stores st sv) = exchange_of site c sv"
proof -
  note defs = complete_def exchange_of_def handle_accept_def on_stores_commute keeps_stores
  show ?thesis
  proof (cases "\<exists>p w g d s. c = ReadDone p w g False d \<and> heap sv p = Some s")
    case False
    have "handle_read w site g True d s st = Done (HandleError s, [], st)" for w g d s st by (simp add: handle_read_def)
    then show ?thesis using False
      by (cases c) (auto simp: defs split: option.split outcome.split)
  next
    case True
    then obtain p w g d s where c: "c = ReadDone p w g False d" "heap sv p = Some s" by blast
    obtain b req where parsed: "RequestParser_Parse (request_buffer s @ d) (fresh_request g) = (b, req)" by fastforce
    note defs = defs c parsed handle_read_def Let_def respond_def answer_def
    show ?thesis
    proof (cases "b \<and> is_valid req")
      case False
      then show ?thesis by (cases b) (auto simp: defs)
    next
      case valid: True
      show ?thesis
      proof (cases "CreateHandler (site_factories site) (site_locations site) (url req)")
        case (Done h)
        have "api_plan (o_json w) u req \<noteq> Ask call" if "h = ApiRequestHandler_on dp u" for dp u call
          using assms valid Done that by (auto simp: asked_def c parsed split: plan.splits)
        then consider resp where "\<forall>st. handle_request w h req st = Done (resp, st)"
          | "\<forall>st. handle_request w h req st = Exception" using handle_not_asked [of h w req] by blast
        then show ?thesis
        proof cases
          case (1 resp)
          with valid Done show ?thesis by (simp add: defs)
        next
          case 2
          with valid Done show ?thesis by (simp add: defs)
        qed
      qed (use valid in \<open>simp_all add: defs\<close>)
    qed
  qed
qed

section \<open>Runs\<close>

type_synonym in_store = "nat \<Rightarrow> api_request option"

text \<open>Nobody is in the store for the same entity of the same data path, unless both only read.\<close>

definition may_ask :: "api_request \<Rightarrow> in_store \<Rightarrow> bool" where
  "may_ask a act \<longleftrightarrow> (\<forall>j b. act j = Some b \<longrightarrow> ar_path b = ar_path a \<longrightarrow>
     call_entity (ar_call b) \<noteq> call_entity (ar_call a) \<or> only_reads (ar_call b) \<and> only_reads (ar_call a))"

text \<open>One turn at the file system.\<close>

definition take_turn :: "nat \<Rightarrow> api_request \<Rightarrow> pool \<Rightarrow> in_store \<Rightarrow> pool \<times> in_store" where
  "take_turn k a P act =
     (case store_step (ar_io a) (ar_stage a) (server_stores (shared P) (ar_path a)) of
        (s, disk) \<Rightarrow> (P\<lparr>shared := on_stores ((server_stores (shared P))(ar_path a := disk)) (shared P)\<rparr>,
                       act(k \<mapsto> a\<lparr>ar_stage := s\<rparr>)))"

text \<open>The store has returned, or never will.\<close>

definition leave_store :: "nat \<Rightarrow> api_request \<Rightarrow> reply \<Rightarrow> pool \<Rightarrow> pool" where
  "leave_store k a r P =
     (case api_reply (ar_call a) r of
        Some resp \<Rightarrow> P\<lparr>threads := (threads P)[k := Idle], shared := resume a resp (shared P)\<rparr>
      | None \<Rightarrow> P\<lparr>threads := (threads P)[k := Hung (ar_session a)], shared := hang (ar_session a) (shared P)\<rparr>)"

definition left_exchange :: "api_request \<Rightarrow> reply \<Rightarrow> exchange list" where
  "left_exchange a r = (case api_reply (ar_call a) r of Some resp \<Rightarrow> [ar_exchange a resp] | None \<Rightarrow> [])"

text \<open>
  Runs, in which a request may enter the store when \<open>ask\<close> says so. When it may always, these
  are the runs of the code, which has no lock; \<open>staged\<close> are the runs without conflicts.
\<close>

inductive interleaved :: "(api_request \<Rightarrow> in_store \<Rightarrow> bool) \<Rightarrow> site \<Rightarrow> pool \<Rightarrow> exchange list \<Rightarrow> pool \<Rightarrow> in_store \<Rightarrow> bool" for ask site P0 where
  staged_start: "interleaved ask site P0 [] P0 (\<lambda>_. None)"
| staged_begins: "interleaved ask site P0 xs P act \<Longrightarrow> k < length (threads P) \<Longrightarrow> threads P ! k = Idle \<Longrightarrow> \<not> stopped P
    \<Longrightarrow> (p, x) \<in> set (pending (shared P)) \<Longrightarrow> interleaved ask site P0 xs (begin_handler k p x P) act"
| staged_ends: "interleaved ask site P0 xs P act \<Longrightarrow> k < length (threads P) \<Longrightarrow> threads P ! k = Busy p x \<Longrightarrow> act k = None
    \<Longrightarrow> op_of c = (p, x) \<Longrightarrow> result_ok c (shared P) \<Longrightarrow> asked site c (shared P) = None
    \<Longrightarrow> end_handler site k c P = Pool P' \<Longrightarrow> interleaved ask site P0 (xs @ exchange_of site c (shared P)) P' act"
| staged_asks: "interleaved ask site P0 xs P act \<Longrightarrow> k < length (threads P) \<Longrightarrow> threads P ! k = Busy p x \<Longrightarrow> act k = None
    \<Longrightarrow> op_of c = (p, x) \<Longrightarrow> result_ok c (shared P) \<Longrightarrow> asked site c (shared P) = Some a
    \<Longrightarrow> ask a act \<Longrightarrow> interleaved ask site P0 xs P (act(k \<mapsto> a))"
| staged_turn: "interleaved ask site P0 xs P act \<Longrightarrow> act k = Some a \<Longrightarrow> take_turn k a P act = (P', act')
    \<Longrightarrow> interleaved ask site P0 xs P' act'"
| staged_leaves: "interleaved ask site P0 xs P act \<Longrightarrow> act k = Some a \<Longrightarrow> ar_stage a = Replied (ar_call a) r
    \<Longrightarrow> interleaved ask site P0 (xs @ left_exchange a r) (leave_store k a r P) (act(k := None))"
| staged_signals: "interleaved ask site P0 xs P act \<Longrightarrow> k < length (threads P) \<Longrightarrow> threads P ! k = Idle \<Longrightarrow> \<not> stopped P
    \<Longrightarrow> signal_wait P \<Longrightarrow> interleaved ask site P0 xs (on_signal errorCode P) act"
| staged_returns: "interleaved ask site P0 xs P act \<Longrightarrow> k < length (threads P) \<Longrightarrow> threads P ! k = Idle
    \<Longrightarrow> stopped P \<or> no_work P \<Longrightarrow> interleaved ask site P0 xs (P\<lparr>threads := (threads P)[k := Returned]\<rparr>) act"

abbreviation staged :: "site \<Rightarrow> pool \<Rightarrow> exchange list \<Rightarrow> pool \<Rightarrow> in_store \<Rightarrow> bool" where
  "staged \<equiv> interleaved may_ask"

abbreviation unrestricted :: "site \<Rightarrow> pool \<Rightarrow> exchange list \<Rightarrow> pool \<Rightarrow> in_store \<Rightarrow> bool" where
  "unrestricted \<equiv> interleaved (\<lambda>_ _. True)"

lemma staged_unrestricted: "interleaved ask site P0 xs P act \<Longrightarrow> unrestricted site P0 xs P act"
proof (induction rule: interleaved.induct)
  case staged_start
  show ?case by (rule interleaved.staged_start)
next
  case staged_begins
  show ?case by (rule interleaved.staged_begins [OF staged_begins.IH staged_begins.hyps(2-)])
next
  case staged_ends
  show ?case by (rule interleaved.staged_ends [OF staged_ends.IH staged_ends.hyps(2-)])
next
  case staged_asks
  show ?case by (rule interleaved.staged_asks [OF staged_asks.IH staged_asks.hyps(2-7) TrueI])
next
  case staged_turn
  show ?case by (rule interleaved.staged_turn [OF staged_turn.IH staged_turn.hyps(2-)])
next
  case staged_leaves
  show ?case by (rule interleaved.staged_leaves [OF staged_leaves.IH staged_leaves.hyps(2-)])
next
  case staged_signals
  show ?case by (rule interleaved.staged_signals [OF staged_signals.IH staged_signals.hyps(2-)])
next
  case staged_returns
  show ?case by (rule interleaved.staged_returns [OF staged_returns.IH staged_returns.hyps(2-)])
qed

section \<open>The staged pool implements the pool\<close>

text \<open>The threads that are in the store of a data path.\<close>

definition threads_on :: "string \<Rightarrow> in_store \<Rightarrow> (io, stage) threads" where
  "threads_on d act = (\<lambda>j. case act j of None \<Rightarrow> None
     | Some a \<Rightarrow> if ar_path a = d then Some (ar_io a, ar_stage a) else None)"

definition with_stores :: "stores \<Rightarrow> pool \<Rightarrow> pool" where
  "with_stores st P = P\<lparr>shared := on_stores st (shared P)\<rparr>"

lemma with_stores_simps [simp]:
  "threads (with_stores st P) = threads P" "stopped (with_stores st P) = stopped P"
  "signal_wait (with_stores st P) = signal_wait P" "server_stores (shared (with_stores st P)) = st"
  "shared (with_stores st P) = on_stores st (shared P)" "no_work (with_stores st P) = no_work P"
  "with_stores st (with_stores st' P) = with_stores st P" "with_stores (server_stores (shared P)) P = P"
  by (simp_all add: with_stores_def no_work_def)

lemma with_stores_steps:
  "with_stores st (begin_handler k p x P) = begin_handler k p x (with_stores st P)"
  "with_stores st (on_signal err P) = on_signal err (with_stores st P)"
  "with_stores st (P\<lparr>threads := ts\<rparr>) = (with_stores st P)\<lparr>threads := ts\<rparr>"
  by (simp_all add: with_stores_def begin_handler_def on_signal_def take_op_def)

lemma threads_on_simps:
  "threads_on d (\<lambda>_. None) = (\<lambda>_. None)"
  "threads_on d (act(k \<mapsto> a)) = (if ar_path a = d then (threads_on d act)(k \<mapsto> (ar_io a, ar_stage a)) else (threads_on d act)(k := None))"
  "threads_on d (act(k := None)) = (threads_on d act)(k := None)"
  by (auto simp: threads_on_def fun_eq_iff)

subsection \<open>Threads in the store\<close>

text \<open>Every request in a store is that of a busy thread, as its session has it.\<close>

definition tracks :: "site \<Rightarrow> pool \<Rightarrow> in_store \<Rightarrow> bool" where
  "tracks site P act \<longleftrightarrow> (\<forall>k a. act k = Some a \<longrightarrow> k < length (threads P) \<and> threads P ! k = Busy (ar_session a) OpReadSome
     \<and> result_ok (ar_read a) (shared P) \<and> asked site (ar_read a) (shared P) = Some (a\<lparr>ar_stage := Begin (ar_call a)\<rparr>))"

lemma tracksD:
  assumes "tracks site P act" "act k = Some a"
  shows "k < length (threads P)" "threads P ! k = Busy (ar_session a) OpReadSome" "result_ok (ar_read a) (shared P)"
    "asked site (ar_read a) (shared P) = Some (a\<lparr>ar_stage := Begin (ar_call a)\<rparr>)"
    "op_of (ar_read a) = (ar_session a, OpReadSome)"
proof -
  show "k < length (threads P)" "threads P ! k = Busy (ar_session a) OpReadSome" "result_ok (ar_read a) (shared P)"
    and asked: "asked site (ar_read a) (shared P) = Some (a\<lparr>ar_stage := Begin (ar_call a)\<rparr>)"
    using assms unfolding tracks_def by blast+
  show "op_of (ar_read a) = (ar_session a, OpReadSome)" using asked_read [OF asked] by (metis prod.collapse)
qed

lemma tracks_start [simp]: "tracks site P (\<lambda>_. None)"
  by (simp add: tracks_def)

lemma result_ok_read: "snd (op_of c) = OpReadSome \<Longrightarrow> result_ok c sv = result_ok c sv'"
  by (auto simp: result_ok_def op_of_def split: completion.split)

text \<open>They stay as they are while their sessions and threads do.\<close>

lemma tracks_kept:
  assumes "tracks site P act"
    and "\<And>j b. act' j = Some b \<Longrightarrow> \<exists>a. act j = Some a \<and> ar_read b = ar_read a \<and> b\<lparr>ar_stage := Begin (ar_call b)\<rparr> = a\<lparr>ar_stage := Begin (ar_call a)\<rparr>"
    and "\<And>j a. act' j \<noteq> None \<Longrightarrow> act j = Some a \<Longrightarrow> j < length (threads P') \<and> threads P' ! j = threads P ! j
      \<and> heap (shared P') (ar_session a) = heap (shared P) (ar_session a)"
  shows "tracks site P' act'"
  unfolding tracks_def
proof (intro allI impI)
  fix j b
  assume b: "act' j = Some b"
  then obtain a where a: "act j = Some a" "ar_read b = ar_read a"
    "b\<lparr>ar_stage := Begin (ar_call b)\<rparr> = a\<lparr>ar_stage := Begin (ar_call a)\<rparr>" using assms(2) by blast
  note T = tracksD [OF assms(1) a(1)]
  from assms(3) [OF _ a(1)] b have kept: "j < length (threads P')" "threads P' ! j = threads P ! j"
    "heap (shared P') (ar_session a) = heap (shared P) (ar_session a)" by auto
  have "snd (op_of (ar_read a)) = OpReadSome" using T(5) by (metis snd_conv)
  from result_ok_read [OF this] have "result_ok (ar_read a) (shared P')" using T(3) by blast
  with kept T(1,2,4) a asked_heap [OF kept(3)]
  show "j < length (threads P') \<and> threads P' ! j = Busy (ar_session b) OpReadSome
     \<and> result_ok (ar_read b) (shared P') \<and> asked site (ar_read b) (shared P') = Some (b\<lparr>ar_stage := Begin (ar_call b)\<rparr>)"
    by simp
qed

lemma busy_stays: "ts ! k = Idle \<Longrightarrow> ts ! j = Busy p x \<Longrightarrow> ts[k := t] ! j = ts ! j"
  by (cases "j = k") auto

lemma tracks_idle:
  assumes "tracks site P act" "threads P ! k = Idle" "threads P' = (threads P)[k := t]" "heap (shared P') = heap (shared P)"
  shows "tracks site P' act"
proof (rule tracks_kept [OF assms(1)])
  show "\<exists>a. act j = Some a \<and> ar_read b = ar_read a \<and> b\<lparr>ar_stage := Begin (ar_call b)\<rparr> = a\<lparr>ar_stage := Begin (ar_call a)\<rparr>"
    if "act j = Some b" for j b using that by blast
  show "j < length (threads P') \<and> threads P' ! j = threads P ! j \<and> heap (shared P') (ar_session a) = heap (shared P) (ar_session a)"
    if "act j = Some a" for j a
    using tracksD(1,2) [OF assms(1) that] busy_stays [where ts = "threads P", OF assms(2)] assms(3,4) by simp
qed

lemma tracks_same:
  assumes "tracks site P act" "threads P' = threads P" "heap (shared P') = heap (shared P)"
  shows "tracks site P' act"
  using tracks_kept [OF assms(1), of act P'] tracksD(1) [OF assms(1)] assms(2,3) by auto

lemma tracks_stores [simp]: "tracks site (with_stores st P) act = tracks site P act"
proof
  show "tracks site P act" if "tracks site (with_stores st P) act" by (rule tracks_same [OF that]) simp_all
  show "tracks site (with_stores st P) act" if "tracks site P act" by (rule tracks_same [OF that]) simp_all
qed

lemma tracks_turn:
  assumes "tracks site P act" "act k = Some a" "take_turn k a P act = (P', act')"
  shows "tracks site P' act'"
proof -
  obtain s disk where step: "store_step (ar_io a) (ar_stage a) (server_stores (shared P) (ar_path a)) = (s, disk)" by fastforce
  from assms(3) step have P': "P' = with_stores ((server_stores (shared P))(ar_path a := disk)) P"
    and act': "act' = act(k \<mapsto> a\<lparr>ar_stage := s\<rparr>)" by (auto simp: take_turn_def with_stores_def)
  have call: "stage_call s = ar_call a" using step_call [of "ar_io a" "ar_stage a"] step by (metis fst_conv)
  show ?thesis
    by (rule tracks_kept [OF assms(1)]) (use assms(2) call tracksD(1) [OF assms(1)] in \<open>auto simp: P' act' split: if_splits\<close>)
qed

lemma tracks_asks:
  assumes "tracks site P act" "k < length (threads P)" "threads P ! k = Busy p x" "op_of c = (p, x)" "result_ok c (shared P)"
    and "asked site c (shared P) = Some a"
  shows "tracks site P (act(k \<mapsto> a))"
proof -
  from asked_read [OF assms(6)] obtain call where a: "ar_read a = c" "snd (op_of c) = OpReadSome" "ar_stage a = Begin call"
    by blast
  moreover have "a\<lparr>ar_stage := Begin (ar_call a)\<rparr> = a" using a(3) by simp
  ultimately show ?thesis using assms tracksD [OF assms(1)] by (auto simp: tracks_def)
qed

text \<open>A handler that comes to its end touches no other thread's session.\<close>

lemma tracks_end:
  assumes "tracks site P act" "implements P sv" "server_inv sv" "k < length (threads P)" "threads P ! k = Busy p x"
    and "threads P' = (threads P)[k := t]" "\<And>q. q \<noteq> p \<Longrightarrow> heap (shared P) q \<noteq> None \<Longrightarrow> heap (shared P') q = heap (shared P) q"
  shows "tracks site P' (act(k := None))"
proof (rule tracks_kept [OF assms(1)])
  show "\<exists>a. act j = Some a \<and> ar_read b = ar_read a \<and> b\<lparr>ar_stage := Begin (ar_call b)\<rparr> = a\<lparr>ar_stage := Begin (ar_call a)\<rparr>"
    if "(act(k := None)) j = Some b" for j b using that by (auto split: if_splits)
  fix j a
  assume j: "(act(k := None)) j \<noteq> None" "act j = Some a"
  note T = tracksD(1,2) [OF assms(1) j(2)]
  have "j \<noteq> k" using j(1) by auto
  then have "ar_session a \<noteq> p" using busy_once [OF assms(2,3) T assms(4)] assms(5) by blast
  moreover have "heap (shared P) (ar_session a) \<noteq> None"
    using server_inv_heap [OF assms(3), of "ar_session a" OpReadSome] implements_pending(1) [OF assms(2)] busy_nth [OF T] assms(2)
    by (auto simp: implements_def ahead_def)
  ultimately show "j < length (threads P') \<and> threads P' ! j = threads P ! j
      \<and> heap (shared P') (ar_session a) = heap (shared P) (ar_session a)"
    using T(1) assms(6,7) \<open>j \<noteq> k\<close> by simp
qed

lemma end_handler_heap:
  assumes "implements P sv" "server_inv sv" "k < length (threads P)" "threads P ! k = Busy p x"
    and "op_of c = (p, x)" "result_ok c (shared P)" "end_handler site k c P = Pool P'" "q \<noteq> p" "heap (shared P) q \<noteq> None"
  shows "heap (shared P') q = heap (shared P) q"
proof -
  from implements_end [OF assms(1-6), of site] assms(7) obtain sv' where
    sv': "enabled c sv" "complete site c sv = Running sv'" "implements P' sv'" by auto
  have "heap (shared P) = heap sv" "heap (shared P') = heap sv'"
    using assms(1) sv'(3) by (simp_all add: implements_def ahead_def)
  moreover have "\<not> own q c" using assms(5,8) by (simp add: own_def)
  ultimately show ?thesis using complete_other [OF sv'(1,2)] assms(9) by force
qed

lemma resume_heap:
  "q \<noteq> ar_session a \<Longrightarrow> heap (shared (leave_store k a r P)) q = heap (shared P) q"
  by (auto simp: leave_store_def resume_def hang_def Let_def op_of_def take_op_def proceed_def
      split: option.split completion.split session_step.split async_op.split)

subsection \<open>The simulation\<close>

text \<open>
  The invariant of the simulation: the pool on the stores to which the operations that have
  returned lead, one after the other, has run with the same exchanges; on every data path
  the operations in progress and the returned ones are a concurrent run of the store; and
  the requests in a store are those of busy threads.
\<close>

definition simulates :: "site \<Rightarrow> pool \<Rightarrow> stores \<Rightarrow> exchange list \<Rightarrow> pool \<Rightarrow> in_store \<Rightarrow> stores \<Rightarrow> bool" where
  "simulates site P0 st0 xs P act st \<longleftrightarrow> pool_served site P0 xs (with_stores st P) \<and> tracks site P act
     \<and> (\<forall>d. \<exists>h. store_run call_entity (\<lambda>_. True) (st0 d) (threads_on d act) (server_stores (shared P) d) h
          \<and> st d = replay atomic h (st0 d))"

lemma simulatesD:
  assumes "simulates site P0 st0 xs P act st"
  shows "pool_served site P0 xs (with_stores st P)" "tracks site P act"
    "\<exists>h. store_run call_entity (\<lambda>_. True) (st0 d) (threads_on d act) (server_stores (shared P) d) h
       \<and> st d = replay atomic h (st0 d)"
  using assms unfolding simulates_def by blast+

lemma simulatesI:
  assumes "pool_served site P0 xs (with_stores st P)" "tracks site P act"
    and "\<And>d. \<exists>h. store_run call_entity (\<lambda>_. True) (st0 d) (threads_on d act) (server_stores (shared P) d) h
       \<and> st d = replay atomic h (st0 d)"
  shows "simulates site P0 st0 xs P act st"
  using assms unfolding simulates_def by blast

lemma simulates_idle:
  assumes "simulates site P0 st0 xs P act st" "pool_served site P0 xs (with_stores st P')" "tracks site P' act"
    and "server_stores (shared P') = server_stores (shared P)"
  shows "simulates site P0 st0 xs P' act st"
  using simulatesI [of site P0 xs st P' act st0] simulatesD(3) [OF assms(1)] assms(2-4) by simp

lemma simulates_ends:
  assumes "simulates site P0 st0 xs P act st" "implements P0 sv0" "server_inv sv0"
    and "k < length (threads P)" "threads P ! k = Busy p x" "act k = None" "op_of c = (p, x)" "result_ok c (shared P)"
    and "asked site c (shared P) = None" "end_handler site k c P = Pool P'"
  shows "simulates site P0 st0 (xs @ exchange_of site c (shared P)) P' act st"
proof (rule simulatesI)
  note I = simulatesD [OF assms(1)]
  note none = complete_not_asked [OF assms(9), of st]
  have ok: "result_ok c (shared (with_stores st P))" using assms(8) by (simp add: result_ok_def split: completion.splits)
  have ends: "end_handler site k c (with_stores st P) = Pool (with_stores st P')"
    using assms(10) none by (auto simp: end_handler_def with_stores_def Let_def split: server_state.splits)
  from ok ends show "pool_served site P0 (xs @ exchange_of site c (shared P)) (with_stores st P')"
    using pool_served_ends [OF I(1), of k p x c] assms(4,5,7) none by simp
  have "server_stores (shared P') = server_stores (shared P)"
    using assms(10) none by (auto simp: end_handler_def Let_def split: server_state.splits)
  then show "\<exists>h. store_run call_entity (\<lambda>_. True) (st0 d) (threads_on d act) (server_stores (shared P') d) h
       \<and> st d = replay atomic h (st0 d)" for d
    using I(3) [of d] by simp
  from pool_served_implements [OF I(1) assms(2,3)] obtain sv where
    sv: "implements (with_stores st P) sv" "server_inv sv" by blast
  from end_handler_Pool [OF ends] obtain t where t: "threads P' = (threads P)[k := t]" by auto
  have "tracks site (with_stores st P') (act(k := None))"
    by (rule tracks_end [where P = "with_stores st P" and k = k and t = t, OF _ sv])
      (use I(2) assms(4,5) t end_handler_heap [OF sv _ _ assms(7) ok ends] in auto)
  moreover have "act(k := None) = act" using assms(6) by (simp add: fun_upd_idem)
  ultimately show "tracks site P' act" by simp
qed

lemma simulates_asks:
  assumes "simulates site P0 st0 xs P act st"
    and "k < length (threads P)" "threads P ! k = Busy p x" "act k = None" "op_of c = (p, x)" "result_ok c (shared P)"
    and "asked site c (shared P) = Some a" "may_ask a act"
  shows "simulates site P0 st0 xs P (act(k \<mapsto> a)) st"
proof (rule simulatesI)
  note I = simulatesD [OF assms(1)]
  from asked_read [OF assms(7)] obtain call where a: "ar_stage a = Begin call" by blast
  show "pool_served site P0 xs (with_stores st P)" by (fact I(1))
  show "tracks site P (act(k \<mapsto> a))" by (rule tracks_asks [OF I(2) assms(2,3,5-7)])
  fix d
  obtain h where h: "store_run call_entity (\<lambda>_. True) (st0 d) (threads_on d act) (server_stores (shared P) d) h"
    "st d = replay atomic h (st0 d)" using I(3) by blast
  have k: "threads_on d act k = None" using assms(4) by (simp add: threads_on_def)
  have "store_run call_entity (\<lambda>_. True) (st0 d) (threads_on d (act(k \<mapsto> a))) (server_stores (shared P) d) h"
  proof (cases "ar_path a = d")
    case True
    have "\<forall>j w' s. threads_on d act j = Some (w', s) \<longrightarrow> call_entity (stage_call s) \<noteq> call_entity (stage_call (Begin call))
        \<or> only_reads (stage_call s) \<and> only_reads (stage_call (Begin call))"
    proof (intro allI impI)
      fix j w' s
      assume "threads_on d act j = Some (w', s)"
      then obtain b where b: "act j = Some b" "ar_path b = d" "s = ar_stage b"
        by (auto simp: threads_on_def split: option.splits if_splits)
      from assms(8) b True a show "call_entity (stage_call s) \<noteq> call_entity (stage_call (Begin call))
        \<or> only_reads (stage_call s) \<and> only_reads (stage_call (Begin call))"
        unfolding may_ask_def by (metis stage_call.simps(1))
    qed
    from run_begin [OF h(1) k TrueI this, of "ar_io a"] True a show ?thesis by (simp add: threads_on_simps)
  next
    case False
    then show ?thesis using h(1) k by (simp add: threads_on_simps fun_upd_idem)
  qed
  with h(2) show "\<exists>h. store_run call_entity (\<lambda>_. True) (st0 d) (threads_on d (act(k \<mapsto> a))) (server_stores (shared P) d) h
    \<and> st d = replay atomic h (st0 d)" by blast
qed

lemma simulates_turn:
  assumes "simulates site P0 st0 xs P act st" "act k = Some a" "take_turn k a P act = (P', act')"
  shows "simulates site P0 st0 xs P' act' st"
proof (rule simulatesI)
  note I = simulatesD [OF assms(1)]
  obtain s disk where step: "store_step (ar_io a) (ar_stage a) (server_stores (shared P) (ar_path a)) = (s, disk)" by fastforce
  from assms(3) step have P': "P' = with_stores ((server_stores (shared P))(ar_path a := disk)) P"
    and act': "act' = act(k \<mapsto> a\<lparr>ar_stage := s\<rparr>)" by (auto simp: take_turn_def with_stores_def)
  show "pool_served site P0 xs (with_stores st P')" using I(1) by (simp add: P')
  show "tracks site P' act'" by (rule tracks_turn [OF I(2) assms(2,3)])
  fix d
  obtain h where h: "store_run call_entity (\<lambda>_. True) (st0 d) (threads_on d act) (server_stores (shared P) d) h"
    "st d = replay atomic h (st0 d)" using I(3) by blast
  have "store_run call_entity (\<lambda>_. True) (st0 d) (threads_on d act') (server_stores (shared P') d) h"
  proof (cases "ar_path a = d")
    case True
    have "threads_on d act k = Some (ar_io a, ar_stage a)" using assms(2) True by (simp add: threads_on_def)
    from run_turn [OF h(1) this] step True show ?thesis by (simp add: P' act' threads_on_simps)
  next
    case False
    then have "threads_on d act k = None" using assms(2) by (simp add: threads_on_def)
    with False h(1) show ?thesis by (simp add: P' act' threads_on_simps fun_upd_idem)
  qed
  with h(2) show "\<exists>h. store_run call_entity (\<lambda>_. True) (st0 d) (threads_on d act') (server_stores (shared P') d) h
    \<and> st d = replay atomic h (st0 d)" by blast
qed

lemma busy_not_stuck:
  assumes "pool_served site P0 xs P" "implements P0 sv0" "server_inv sv0" "k < length (threads P)" "threads P ! k = Busy p x"
  shows "p \<notin> stuck (shared P)"
proof -
  from pool_served_implements [OF assms(1-3)] obtain sv where sv: "implements P sv" "server_inv sv" by blast
  have "(p, x) \<in> set (pending sv)" using implements_pending(1) [OF sv(1)] busy_nth [OF assms(4,5)] by simp
  with sv show ?thesis by (force simp: server_inv_def implements_def ahead_def)
qed

text \<open>The operation that returns has done, and replied, what it does as a whole.\<close>

lemma returned_whole:
  assumes "simulates site P0 st0 xs P act st" "act k = Some a" "ar_stage a = Replied (ar_call a) r"
  obtains h where "store_run call_entity (\<lambda>_. True) (st0 (ar_path a)) ((threads_on (ar_path a) act)(k := None))
      (server_stores (shared P) (ar_path a)) (h @ [(ar_io a, ar_call a, r)])"
    "st (ar_path a) = replay atomic h (st0 (ar_path a))" "fst (atomic (ar_io a) (ar_call a) (st (ar_path a))) = r"
proof -
  obtain h where h: "store_run call_entity (\<lambda>_. True) (st0 (ar_path a)) (threads_on (ar_path a) act)
      (server_stores (shared P) (ar_path a)) h" "st (ar_path a) = replay atomic h (st0 (ar_path a))"
    using simulatesD(3) [OF assms(1)] by blast
  have "threads_on (ar_path a) act k = Some (ar_io a, ar_stage a)" using assms(2) by (simp add: threads_on_def)
  then have "threads_on (ar_path a) act k = Some (ar_io a, Replied (ar_call a) r)"
    by (simp only: assms(3) [symmetric])
  from run_return [OF h(1) this] have run: "store_run call_entity (\<lambda>_. True) (st0 (ar_path a))
    ((threads_on (ar_path a) act)(k := None)) (server_stores (shared P) (ar_path a)) (h @ [(ar_io a, ar_call a, r)])" .
  from entity_runs(1) [OF this] h(2) have "fst (atomic (ar_io a) (ar_call a) (st (ar_path a))) = r" by simp
  with that run h(2) show ?thesis by blast
qed

lemma simulates_leaves:
  assumes "simulates site P0 st0 xs P act st" "implements P0 sv0" "server_inv sv0"
    and "act k = Some a" "ar_stage a = Replied (ar_call a) r"
  shows "\<exists>st'. simulates site P0 st0 (xs @ left_exchange a r) (leave_store k a r P) (act(k := None)) st'"
proof -
  note I = simulatesD [OF assms(1)]
  note T = tracksD [OF I(2) assms(4)]
  let ?d = "ar_path a" and ?c = "ar_read a" and ?a = "a\<lparr>ar_stage := Begin (ar_call a)\<rparr>"
  obtain h where h: "store_run call_entity (\<lambda>_. True) (st0 ?d) ((threads_on ?d act)(k := None))
      (server_stores (shared P) ?d) (h @ [(ar_io a, ar_call a, r)])"
    "st ?d = replay atomic h (st0 ?d)" "fst (atomic (ar_io a) (ar_call a) (st ?d)) = r"
    by (rule returned_whole [OF assms(1,4,5)])
  obtain disk where at: "atomic (ar_io a) (ar_call a) (st ?d) = (r, disk)" using h(3) by (metis prod.collapse)
  let ?st' = "st(?d := disk)" and ?P' = "leave_store k a r P"
  from complete_asked [OF T(4), of st r disk] at
  have done': "complete site ?c (on_stores st (shared P)) = (case api_reply (ar_call a) r of
      None \<Rightarrow> Running (on_stores st (hang (ar_session a) (shared P)))
    | Some resp \<Rightarrow> Running (on_stores ?st' (resume ?a resp (shared P))))"
    and ex: "exchange_of site ?c (on_stores st (shared P)) = left_exchange a r"
    by (simp_all add: left_exchange_def cong: option.case_cong)
  from busy_not_stuck [OF I(1) assms(2,3), of k "ar_session a" OpReadSome] T(1,2)
  have "ar_session a \<notin> stuck (shared P)" by simp
  moreover have "disk = st ?d" if "api_reply (ar_call a) r = None" using hangs_unchanged [OF at that] .
  ultimately have ends: "end_handler site k ?c (with_stores st P) = Pool (with_stores ?st' ?P')"
    using done' T(5) by (auto simp: end_handler_def leave_store_def with_stores_def Let_def hang_def split: option.split)
  have ok: "result_ok ?c (shared (with_stores st P))" using T(3) by (simp add: result_ok_def split: completion.splits)
  have "simulates site P0 st0 (xs @ left_exchange a r) ?P' (act(k := None)) ?st'"
  proof (rule simulatesI)
    show "pool_served site P0 (xs @ left_exchange a r) (with_stores ?st' ?P')"
      using pool_served_ends [OF I(1), of k "ar_session a" OpReadSome ?c] T(1,2,5) ok ends ex by simp
    from pool_served_implements [OF I(1) assms(2,3)] obtain sv where
      sv: "implements (with_stores st P) sv" "server_inv sv" by blast
    from end_handler_Pool [OF ends] obtain t where t: "threads ?P' = (threads P)[k := t]" by auto
    have "tracks site (with_stores ?st' ?P') (act(k := None))"
      by (rule tracks_end [where P = "with_stores st P" and k = k and t = t, OF _ sv])
        (use I(2) T(1,2) t resume_heap [of _ a k r P] in auto)
    then show "tracks site ?P' (act(k := None))" by simp
    have same: "server_stores (shared ?P') = server_stores (shared P)"
      by (simp add: leave_store_def hang_def split: option.split)
    fix d
    show "\<exists>h. store_run call_entity (\<lambda>_. True) (st0 d) (threads_on d (act(k := None))) (server_stores (shared ?P') d) h
      \<and> ?st' d = replay atomic h (st0 d)"
    proof (cases "d = ?d")
      case True
      with h(1,2) at same show ?thesis
        by (intro exI [of _ "h @ [(ar_io a, ar_call a, r)]"]) (simp add: threads_on_simps)
    next
      case False
      then have "threads_on d act k = None" using assms(4) by (simp add: threads_on_def)
      with I(3) [of d] False same show ?thesis by (simp add: threads_on_simps fun_upd_idem)
    qed
  qed
  then show ?thesis by blast
qed

lemma staged_simulates:
  assumes "staged site P0 xs P act" "implements P0 sv0" "server_inv sv0"
  shows "\<exists>st. simulates site P0 (server_stores (shared P0)) xs P act st"
  using assms(1)
proof (induction rule: interleaved.induct)
  case staged_start
  have "store_run call_entity (\<lambda>_. True) d (\<lambda>_. None) d []" for d by (rule run_init)
  then have "simulates site P0 (server_stores (shared P0)) [] P0 (\<lambda>_. None) (server_stores (shared P0))"
    by (intro simulatesI) (auto simp: threads_on_simps pool_served_start intro: exI [of _ "[]"])
  then show ?case by blast
next
  case (staged_begins xs P act k p x)
  then obtain st where st: "simulates site P0 (server_stores (shared P0)) xs P act st" by blast
  note I = simulatesD [OF st]
  have "pool_served site P0 xs (with_stores st (begin_handler k p x P))"
    using pool_served_begins [OF I(1), of k p x] staged_begins.hyps by (simp add: with_stores_steps)
  moreover have "tracks site (begin_handler k p x P) act"
    by (rule tracks_idle [OF I(2) staged_begins.hyps(3)]) (simp_all add: begin_handler_def take_op_def)
  ultimately have "simulates site P0 (server_stores (shared P0)) xs (begin_handler k p x P) act st"
    using simulates_idle [OF st] by (simp add: begin_handler_def take_op_def)
  then show ?case by blast
next
  case (staged_ends xs P act k p x c P')
  then obtain st where "simulates site P0 (server_stores (shared P0)) xs P act st" by blast
  from simulates_ends [OF this assms(2,3) staged_ends.hyps(2-8)] show ?case by blast
next
  case (staged_asks xs P act k p x c a)
  then obtain st where "simulates site P0 (server_stores (shared P0)) xs P act st" by blast
  from simulates_asks [OF this staged_asks.hyps(2-8)] show ?case by blast
next
  case (staged_turn xs P act k a P' act')
  then obtain st where "simulates site P0 (server_stores (shared P0)) xs P act st" by blast
  from simulates_turn [OF this staged_turn.hyps(2,3)] show ?case by blast
next
  case (staged_leaves xs P act k a r)
  then obtain st where "simulates site P0 (server_stores (shared P0)) xs P act st" by blast
  from simulates_leaves [OF this assms(2,3) staged_leaves.hyps(2,3)] show ?case by blast
next
  case (staged_signals xs P act k errorCode)
  then obtain st where st: "simulates site P0 (server_stores (shared P0)) xs P act st" by blast
  note I = simulatesD [OF st]
  have "pool_served site P0 xs (with_stores st (on_signal errorCode P))"
    using pool_served_signals [OF I(1), of k errorCode] staged_signals.hyps by (simp add: with_stores_steps)
  moreover have "tracks site (on_signal errorCode P) act"
    by (rule tracks_same [OF I(2)]) (simp_all add: on_signal_def)
  ultimately have "simulates site P0 (server_stores (shared P0)) xs (on_signal errorCode P) act st"
    using simulates_idle [OF st] by (simp add: on_signal_def)
  then show ?case by blast
next
  case (staged_returns xs P act k)
  then obtain st where st: "simulates site P0 (server_stores (shared P0)) xs P act st" by blast
  note I = simulatesD [OF st]
  let ?P' = "P\<lparr>threads := (threads P)[k := Returned]\<rparr>"
  have "pool_served site P0 xs (with_stores st ?P')"
    using pool_served_returns [OF I(1), of k] staged_returns.hyps by (simp add: with_stores_steps)
  moreover have "tracks site ?P' act" by (rule tracks_idle [OF I(2) staged_returns.hyps(3)]) simp_all
  ultimately have "simulates site P0 (server_stores (shared P0)) xs ?P' act st" using simulates_idle [OF st] by simp
  then show ?case by blast
qed

section \<open>Runs with any overlaps\<close>

text \<open>
  What needs no condition on the requests in the store: the threads, sessions and operations
  in flight are those of a server in its invariant.
\<close>

lemma implements_stores: "implements P sv \<Longrightarrow> implements (with_stores st P) (on_stores st sv)"
  by (simp add: implements_def ahead_def)

lemma server_inv_stores [simp]: "server_inv (on_stores st sv) = server_inv sv"
  by (simp add: server_inv_def)

lemma ahead_log: "ahead os sv sv' \<Longrightarrow> ahead os (sv\<lparr>metrics := ms\<rparr>) (sv'\<lparr>metrics := ms\<rparr>)"
  by (simp add: ahead_def)

lemma implements_leaves:
  assumes "implements P sv" "server_inv sv" "tracks site P act" "act k = Some a"
  shows "\<exists>sv'. implements (leave_store k a r P) sv' \<and> server_inv sv'"
proof -
  note T = tracksD [OF assms(3,4)]
  note busy = busy_nth [OF T(1,2)]
  let ?p = "ar_session a"
  have ahead: "ahead (busy_ops (threads P)) (shared P) sv" using assms(1) by (simp add: implements_def)
  have "(?p, OpReadSome) \<notin> set (pending (shared P))" using busy_not_pending [OF assms(1,2) busy] by (metis fst_conv imageI)
  note taken = ahead_take [OF ahead busy this]
  have op: "(?p, OpReadSome) \<in> set (pending sv)" using implements_pending(1) [OF assms(1)] busy by simp
  obtain s where s: "heap sv ?p = Some s" using server_inv_heap [OF assms(2) op] by blast
  have heap: "heap (shared P) ?p = Some s" using s ahead_heap [OF ahead] by simp
  obtain q w g e data where c: "ar_read a = ReadDone q w g e data"
    using T(5) by (cases "ar_read a") (auto simp: op_of_def)
  note run = take_op_inv [OF assms(2) op, simplified]
  show ?thesis
  proof (cases "api_reply (ar_call a) r")
    case None
    have "ahead (remove1 (?p, OpReadSome) (busy_ops (threads P))) (hang ?p (shared P)) (hang ?p sv)"
      using ahead_update(2) [OF taken, of ?p] by (simp add: hang_def take_op_def)
    from implements_finish [OF assms(1,2) T(1,2) this]
    have "implements (leave_store k a r P) (hang ?p sv)" using None by (simp add: leave_store_def hang_def take_op_def)
    moreover have "server_inv (hang ?p sv)"
      using run by (auto simp: server_inv_def running_inv_def hang_def take_op_def)
    ultimately show ?thesis by blast
  next
    case (Some resp)
    define stp where "stp = SendResponse (s\<lparr>request_buffer := request_buffer s @ data, response_bytes := SerializeResponse (Some resp)\<rparr>)"
    define line where "line = LogResponseMetrics (s\<lparr>request_buffer := request_buffer s @ data\<rparr>) resp (url (ar_request a))
      (GetHandlerName (ApiRequestHandler_on (ar_path a) (ar_prefix a)))"
    have same: "metrics sv = metrics (shared P)" using ahead by (simp add: ahead_def)
    have resumed: "resume a resp sv1 = proceed ?p stp ((take_op ?p OpReadSome sv1)\<lparr>metrics := metrics sv1 @ [line]\<rparr>)"
      if "heap sv1 ?p = Some s" for sv1
      using that by (simp add: resume_def c op_of_def Let_def stp_def line_def)
    have "ahead (remove1 (?p, OpReadSome) (busy_ops (threads P))) (resume a resp (shared P)) (resume a resp sv)"
      unfolding resumed [OF s] resumed [OF heap] same by (rule ahead_proceed [OF ahead_log [OF taken]])
    from implements_finish [OF assms(1,2) T(1,2) this]
    have "implements (P\<lparr>threads := (threads P)[k := (if ?p \<in> stuck (shared P) then Hung ?p else Idle)], shared := resume a resp (shared P)\<rparr>)
      (resume a resp sv)" by simp
    moreover have "?p \<notin> stuck (shared P)"
      using op assms(2) ahead by (force simp: server_inv_def ahead_def)
    moreover have "server_inv (resume a resp sv)"
    proof -
      have "running_inv ?p 1 ((take_op ?p OpReadSome sv)\<lparr>metrics := metrics sv @ [line]\<rparr>)"
        using run by (simp add: running_inv_def)
      from proceed_inv [OF this, of stp] show ?thesis unfolding resumed [OF s] server_inv_def by blast
    qed
    ultimately show ?thesis using Some by (auto simp: leave_store_def)
  qed
qed

lemma interleaved_inv:
  assumes "interleaved ask site P0 xs P act" "implements P0 sv0" "server_inv sv0"
  shows "\<exists>sv. implements P sv \<and> server_inv sv \<and> tracks site P act"
  using assms(1)
proof (induction rule: interleaved.induct)
  case staged_start
  then show ?case using assms(2,3) by auto
next
  case (staged_begins xs P act k p x)
  then obtain sv where sv: "implements P sv" "server_inv sv" "tracks site P act" by blast
  have "tracks site (begin_handler k p x P) act"
    by (rule tracks_idle [OF sv(3) staged_begins.hyps(3)]) (simp_all add: begin_handler_def take_op_def)
  with implements_begin [OF sv(1) staged_begins.hyps(2,3,5)] sv(2) show ?case by blast
next
  case (staged_ends xs P act k p x c P')
  then obtain sv where sv: "implements P sv" "server_inv sv" "tracks site P act" by blast
  note hyps = staged_ends.hyps
  from implements_end [OF sv(1,2) hyps(2,3,5,6), of site] hyps(8) obtain sv' where
    sv': "enabled c sv" "complete site c sv = Running sv'" "implements P' sv'" by auto
  from end_handler_Pool [OF hyps(8)] obtain t where t: "threads P' = (threads P)[k := t]" by auto
  have "tracks site P' (act(k := None))"
    by (rule tracks_end [OF sv(3,1,2) hyps(2,3) t]) (rule end_handler_heap [OF sv(1,2) hyps(2,3,5,6,8)])
  moreover have "act(k := None) = act" using hyps(4) by (simp add: fun_upd_idem)
  ultimately show ?case using complete_inv [OF sv(2) sv'(1), of site] sv'(2,3) by auto
next
  case (staged_asks xs P act k p x c a)
  then show ?case using tracks_asks by blast
next
  case (staged_turn xs P act k a P' act')
  then obtain sv where sv: "implements P sv" "server_inv sv" "tracks site P act" by blast
  from staged_turn.hyps(3) obtain st where "P' = with_stores st P"
    by (auto simp: take_turn_def with_stores_def split: prod.splits)
  with implements_stores [OF sv(1), of st] sv(2) tracks_turn [OF sv(3) staged_turn.hyps(2,3)] show ?case by auto
next
  case (staged_leaves xs P act k a r)
  then obtain sv where sv: "implements P sv" "server_inv sv" "tracks site P act" by blast
  note T = tracksD [OF sv(3) staged_leaves.hyps(2)]
  obtain t where t: "threads (leave_store k a r P) = (threads P)[k := t]" by (cases "api_reply (ar_call a) r") (auto simp: leave_store_def)
  have "tracks site (leave_store k a r P) (act(k := None))"
    by (rule tracks_end [OF sv(3,1,2) T(1,2) t]) (rule resume_heap)
  with implements_leaves [OF sv staged_leaves.hyps(2), of r] show ?case by blast
next
  case (staged_signals xs P act k errorCode)
  then obtain sv where sv: "implements P sv" "server_inv sv" "tracks site P act" by blast
  have "tracks site (on_signal errorCode P) act" by (rule tracks_same [OF sv(3)]) (simp_all add: on_signal_def)
  with implements_idle(2) [OF sv(1) staged_signals.hyps(2,3)] sv(2) show ?case by blast
next
  case (staged_returns xs P act k)
  then obtain sv where sv: "implements P sv" "server_inv sv" "tracks site P act" by blast
  have "tracks site (P\<lparr>threads := (threads P)[k := Returned]\<rparr>) act"
    by (rule tracks_idle [OF sv(3) staged_returns.hyps(3)]) simp_all
  with implements_idle(1) [OF sv(1) staged_returns.hyps(2,3)] sv(2) show ?case by blast
qed

section \<open>What the stores hold\<close>

text \<open>No creation, update or deletion is in progress on an entity.\<close>

definition quiet :: "in_store \<Rightarrow> string \<Rightarrow> string \<Rightarrow> bool" where
  "quiet act d e \<longleftrightarrow> (\<forall>k a. act k = Some a \<longrightarrow> ar_path a = d \<longrightarrow> call_entity (ar_call a) = e \<longrightarrow> only_reads (ar_call a))"

lemma simulates_stores:
  assumes "simulates site P0 st0 xs P act st" "quiet act d e"
  shows "map_of (server_stores (shared P) d) e = map_of (st d) e"
proof -
  obtain h where h: "store_run call_entity (\<lambda>_. True) (st0 d) (threads_on d act) (server_stores (shared P) d) h"
    "st d = replay atomic h (st0 d)" using simulatesD(3) [OF assms(1)] by blast
  have readers: "only_reads (stage_call s)" if "threads_on d act k = Some (w, s)" "call_entity (stage_call s) = e" for k w s
    using that assms(2) by (auto simp: threads_on_def quiet_def split: option.splits if_splits)
  show ?thesis unfolding h(2) by (rule entity_ops.linearizable(2) [OF h(1) TrueI]) (rule readers)
qed

lemma all_abs_cong: "map_of (st d) e = map_of (st' d) e \<Longrightarrow> all_abs st d e = all_abs st' d e"
  unfolding all_abs_def disk_abs_eq by (drule dir_entries_cong) (simp only:)

lemma stores_ready_cong:
  assumes "\<And>d e. map_of (st d) e = map_of (st' d) e"
  shows "stores_ready n st = stores_ready n st'"
proof -
  have "dir_entries (st d) e = dir_entries (st' d) e" for d e by (rule dir_entries_cong [OF assms])
  then show ?thesis by (simp add: stores_ready_def disk_inv_def room_for_def disk_usable_def entries_of_def assms)
qed

lemma staged_refines:
  assumes "staged site (pool_new n (server_new q st)) xs P act"
  obtains st' where "pool_served site (pool_new n (server_new q st)) xs (with_stores st' P)"
    "\<And>d e. quiet act d e \<Longrightarrow> map_of (server_stores (shared P) d) e = map_of (st' d) e"
proof -
  from staged_simulates [OF assms implements_new server_inv_new] obtain st' where
    "simulates site (pool_new n (server_new q st)) (server_stores (shared (pool_new n (server_new q st)))) xs P act st'" ..
  from simulatesD(1) [OF this] simulates_stores [OF this] that show ?thesis by blast
qed

lemma staged_service:
  assumes "staged site (pool_new n (server_new q st)) xs P act" "\<forall>x\<in>set xs. undisturbed x" "stores_ready (length xs + m) st"
  shows "\<exists>st'. stores_ready m st' \<and> service (all_abs st) xs (all_abs st')
    \<and> (\<forall>d e. quiet act d e \<longrightarrow> map_of (server_stores (shared P) d) e = map_of (st' d) e)"
proof -
  obtain st' where st': "pool_served site (pool_new n (server_new q st)) xs (with_stores st' P)"
    "\<And>d e. quiet act d e \<Longrightarrow> map_of (server_stores (shared P) d) e = map_of (st' d) e"
    using staged_refines [OF assms(1)] by blast
  from pool_service [OF st'(1) assms(2,3)] st'(2) show ?thesis by auto
qed

section \<open>Handlers in the store go on\<close>

text \<open>\<open>n\<close> turns in a row of one thread.\<close>

lemma staged_turns:
  assumes "interleaved ask site P0 xs P act" "act k = Some a"
    and "(turn store_step (ar_io a) ^^ n) (ar_stage a, server_stores (shared P) (ar_path a)) = (s, disk)"
  shows "interleaved ask site P0 xs (with_stores ((server_stores (shared P))(ar_path a := disk)) P) (act(k \<mapsto> a\<lparr>ar_stage := s\<rparr>))"
  using assms(3)
proof (induction n arbitrary: s disk)
  case 0
  with assms(1,2) show ?case by (simp add: fun_upd_idem)
next
  case (Suc n)
  obtain s1 disk1 where 1: "(turn store_step (ar_io a) ^^ n) (ar_stage a, server_stores (shared P) (ar_path a)) = (s1, disk1)"
    by fastforce
  have step: "store_step (ar_io a) s1 disk1 = (s, disk)" using Suc.prems 1 by (simp add: turn_def [of _ _ "(s1, disk1)"])
  let ?st = "\<lambda>disk. with_stores ((server_stores (shared P))(ar_path a := disk)) P"
  have next_turn: "take_turn k (a\<lparr>ar_stage := s1\<rparr>) (?st disk1) (act(k \<mapsto> a\<lparr>ar_stage := s1\<rparr>)) = (?st disk, act(k \<mapsto> a\<lparr>ar_stage := s\<rparr>))"
    using step by (simp add: take_turn_def with_stores_def)
  show ?case by (rule staged_turn [OF Suc.IH [OF 1] _ next_turn]) simp
qed

text \<open>Whatever the other threads have done so far, a request in the store is answered by its own thread alone.\<close>

lemma turns_end: "\<exists>r disk'. (turn store_step w ^^ 4) (s, disk) = (Replied (stage_call s) r, disk')"
proof -
  have "turns_left (fst ((turn store_step w ^^ n) x)) \<le> turns_left (fst x) - n
      \<and> stage_call (fst ((turn store_step w ^^ n) x)) = stage_call (fst x)" for n and x :: "stage \<times> disk"
  proof (induction n)
    case (Suc n)
    let ?y = "(turn store_step w ^^ n) x"
    have "(turn store_step w ^^ Suc n) x = store_step w (fst ?y) (snd ?y)" by (simp add: turn_def [of _ _ ?y])
    with Suc.IH step_turns_left [of w "fst ?y" "snd ?y"] step_call [of w "fst ?y" "snd ?y"] show ?case
      by (metis (no_types, lifting) Suc_eq_plus1 diff_diff_left diff_le_mono order_trans)
  qed simp
  from this [of 4 "(s, disk)"] have "turns_left (fst ((turn store_step w ^^ 4) (s, disk))) = 0"
    "stage_call (fst ((turn store_step w ^^ 4) (s, disk))) = stage_call s"
    by (cases s; simp)+
  then show ?thesis using turns_left_0 by (metis prod.collapse)
qed

text \<open>Only a creation may not come back from the store.\<close>

fun comes_back :: "stage \<Rightarrow> bool" where
  "comes_back (Replied c r) \<longleftrightarrow> api_reply c r \<noteq> None \<or> (\<exists>e d. c = CallCreate e d)"
| "comes_back s \<longleftrightarrow> True"

lemma comes_back_Read: "comes_back (Replied (CallRead e i) (ReadReply x))"
  by (cases x) simp_all

lemma step_comes_back: "comes_back s \<Longrightarrow> comes_back (fst (store_step w s disk))"
  by (induction w s disk rule: store_step.induct) (auto simp: comes_back_Read split: prod.split bool.split option.split)

lemma interleaved_comes_back:
  "interleaved ask site P0 xs P act \<Longrightarrow> act k = Some a \<Longrightarrow> comes_back (ar_stage a)"
proof (induction arbitrary: k a rule: interleaved.induct)
  case (staged_asks xs P act k' p x c a')
  from asked_read [OF staged_asks.hyps(7)] have "comes_back (ar_stage a')" by auto
  with staged_asks.IH staged_asks.prems show ?case by (auto split: if_splits)
next
  case (staged_turn xs P act k' a' P' act')
  obtain s disk where step: "store_step (ar_io a') (ar_stage a') (server_stores (shared P) (ar_path a')) = (s, disk)" by fastforce
  from staged_turn.hyps(3) step have "act' = act(k' \<mapsto> a'\<lparr>ar_stage := s\<rparr>)" by (auto simp: take_turn_def)
  moreover have "comes_back s" using step_comes_back [OF staged_turn.IH [OF staged_turn.hyps(2)]] step by (metis fst_conv)
  ultimately show ?case using staged_turn.IH staged_turn.prems by (auto split: if_splits)
qed (auto split: if_splits)

lemma staged_answers:
  assumes "interleaved ask site P0 xs P act" "act k = Some a"
  shows "\<exists>ys P'. interleaved ask site P0 (xs @ ys) P' (act(k := None))
    \<and> ((\<exists>resp. ys = [ar_exchange a resp] \<and> threads P' = (threads P)[k := Idle])
     \<or> (\<exists>e d. ar_call a = CallCreate e d \<and> ys = [] \<and> threads P' = (threads P)[k := Hung (ar_session a)]))"
proof -
  obtain r disk where turns: "(turn store_step (ar_io a) ^^ 4) (ar_stage a, server_stores (shared P) (ar_path a))
      = (Replied (ar_call a) r, disk)" using turns_end by blast
  let ?a = "a\<lparr>ar_stage := Replied (ar_call a) r\<rparr>"
    and ?P = "with_stores ((server_stores (shared P))(ar_path a := disk)) P"
  note run = staged_turns [OF assms turns]
  have left: "interleaved ask site P0 (xs @ left_exchange ?a r) (leave_store k ?a r ?P) (act(k := None))"
    using staged_leaves [OF run, of k ?a r] by (simp only: fun_upd_same fun_upd_upd simp_thms) simp
  have home: "comes_back (Replied (ar_call a) r)"
    using interleaved_comes_back [OF run, of k ?a] by (simp only: fun_upd_same) simp
  show ?thesis
  proof (cases "api_reply (ar_call a) r")
    case None
    with left home show ?thesis by (intro exI conjI) (assumption, auto simp: left_exchange_def leave_store_def)
  next
    case (Some resp)
    with left show ?thesis by (intro exI conjI) (assumption, auto simp: left_exchange_def leave_store_def)
  qed
qed

text \<open>
  A run of the pool is one of the staged pool: a handler that enters an empty store can take
  its turns at once.
\<close>

lemma staged_handler:
  assumes "staged site P0 xs P (\<lambda>_. None)" "k < length (threads P)" "threads P ! k = Busy p x" "op_of c = (p, x)"
    and "result_ok c (shared P)" "asked site c (shared P) = Some a" "end_handler site k c P = Pool P'"
    and "p \<notin> stuck (shared P)"
  shows "staged site P0 (xs @ exchange_of site c (shared P)) P' (\<lambda>_. None)"
proof -
  let ?d = "ar_path a" and ?st = "server_stores (shared P)"
  obtain call where a: "ar_read a = c" "ar_stage a = Begin call" using asked_read [OF assms(6)] by blast
  obtain r disk where at: "atomic (ar_io a) (ar_call a) (?st ?d) = (r, disk)" by fastforce
  let ?a = "a\<lparr>ar_stage := Replied (ar_call a) r\<rparr>" and ?P = "with_stores (?st(?d := disk)) P"
  have "may_ask a (\<lambda>_. None)" by (simp add: may_ask_def)
  from staged_asks [OF assms(1-3) refl assms(4-6) this] have asking: "staged site P0 xs P [k \<mapsto> a]" .
  have "(turn store_step (ar_io a) ^^ 4) (ar_stage a, ?st ?d) = (Replied (ar_call a) r, disk)"
    using alone [of "ar_io a" call "?st ?d"] at by (simp add: a(2))
  from staged_turns [OF asking fun_upd_same this] have "staged site P0 xs ?P [k \<mapsto> ?a]" by (simp only: fun_upd_upd)
  from staged_leaves [OF this, of k ?a r]
  have left: "staged site P0 (xs @ left_exchange ?a r) (leave_store k ?a r ?P) ([k \<mapsto> ?a](k := None))" by simp
  have "[k \<mapsto> ?a](k := None) = (\<lambda>_. None)" by auto
  moreover have "left_exchange ?a r = exchange_of site c (shared P)"
    using complete_asked(2) [where st = ?st, OF assms(6) at] by (simp add: left_exchange_def cong: option.case_cong)
  moreover have "leave_store k ?a r ?P = P'"
  proof (cases "api_reply (ar_call a) r")
    case None
    with hangs_unchanged [OF at] have "disk = ?st ?d" by simp
    with None complete_asked(1) [where st = ?st, OF assms(6) at] assms(4,7) a(1) show ?thesis
      by (auto simp: leave_store_def end_handler_def hang_def with_stores_def)
  next
    case (Some resp)
    have "resume a resp (on_stores st sv) = on_stores st (resume a resp sv)" for st sv
      by (simp add: resume_def Let_def on_stores_commute split: completion.split option.split)
    with Some complete_asked(1) [where st = ?st, OF assms(6) at] assms(4,7,8) show ?thesis
      by (auto simp: leave_store_def end_handler_def with_stores_def Let_def)
  qed
  ultimately show ?thesis using left by simp
qed

lemma pool_served_staged:
  assumes "pool_served site P0 xs P" "implements P0 sv0" "server_inv sv0"
  shows "staged site P0 xs P (\<lambda>_. None)"
  using assms(1)
proof (induction rule: pool_served.induct)
  case (pool_served_ends xs P k p x c P')
  note hyps = pool_served_ends.hyps
  show ?case
  proof (cases "asked site c (shared P)")
    case None
    from staged_ends [OF pool_served_ends.IH hyps(2,3) refl hyps(4,5) None hyps(6)] show ?thesis .
  next
    case (Some a)
    from staged_handler [OF pool_served_ends.IH hyps(2-5) Some hyps(6) busy_not_stuck [OF hyps(1) assms(2,3) hyps(2,3)]]
    show ?thesis .
  qed
qed (fast intro: staged_start staged_begins staged_signals staged_returns)+

section \<open>Two requests at the same time\<close>

text \<open>A site with one API location.\<close>

definition api_location :: "string \<Rightarrow> string \<Rightarrow> LocationConfig" where
  "api_location p d = \<lparr>path = p, handler_name = ''ApiHandler'', args = [(''data_path'', d)]\<rparr>"

definition api_site :: "string \<Rightarrow> string \<Rightarrow> factories \<Rightarrow> site" where
  "api_site p d reg = \<lparr>site_locations = [api_location p d],
     site_factories = reg(p \<mapsto> ApiHandlerFactory (api_location p d) (Some d))\<rparr>"

lemma api_site_handler:
  assumes "prefix p u" "p \<noteq> []"
  shows "CreateHandler (site_factories (api_site p d reg)) (site_locations (api_site p d reg)) u
    = Done (ApiRequestHandler_on d p)"
  using assms
  by (simp add: CreateHandler_def FindBestMatch_def api_site_def api_location_def str_find_0
      starts_with_prefix GetFactory_def Factory_Create_def)

definition sample_text :: "string \<Rightarrow> string" where
  "sample_text e = render_request ''DELETE'' (''/api/'' @ e @ ''/1'') [] []"

lemma sample_asks:
  assumes "e = ''Shoes'' \<or> e = ''Hats''"
  obtains req where "RequestParser_Parse (sample_text e) (fresh_request True) = (True, req)" "is_valid req"
    "CreateHandler (site_factories (api_site ''/api'' ''/data'' reg)) (site_locations (api_site ''/api'' ''/data'' reg)) (url req)
      = Done (ApiRequestHandler_on ''/data'' ''/api'')"
    "api_plan (\<lambda>_. True) ''/api'' req = Ask (CallDelete e 1)"
proof -
  let ?u = "''/api/'' @ e @ ''/1''"
  let ?req = "\<lparr>is_valid = True, raw_request = sample_text e, rq_method = ''DELETE'', url = ?u,
    rq_http_version = ''1.1'', rq_headers = map (\<lambda>(n, v). n @ '': '' @ trim_blanks v) [], rq_body = []\<rparr>"
  have "wf_target ?u" "''DELETE'' \<in> set kAllowedMethods"
    using assms by (auto simp: wf_target_def isspace_def code_def kAllowedMethods_def)
  from render_parsed [OF this(2,1), of "[]" "[]" True]
  have parsed: "RequestParser_Parse (sample_text e) (fresh_request True) = (True, ?req)" by (simp add: sample_text_def)
  have "prefix ''/api'' (url ?req)" by simp
  note handler = api_site_handler [where reg = reg and d = "''/data''", OF this]
  have "good_segment e" using assms by (auto simp: good_segment_def)
  then have "ExtractSegments ''/api'' (url ?req) = [e, ''1'']"
    using ExtractSegments_path [of "[e, ''1'']" "''/api''" "[]" 0] by (simp add: good_segment_def)
  moreover have "IsValidEntityName e" using assms by (auto simp: IsValidEntityName_def isalnum_def isdigit_def code_def)
  ultimately have "api_plan (\<lambda>_. True) ''/api'' ?req = Ask (CallDelete e 1)" by (simp add: api_plan_def ParseId_1)
  with that [OF parsed _ handler] show ?thesis by simp
qed

text \<open>Two clients connect and send their requests, and two threads enter the store with them.\<close>

lemma two_in_store:
  fixes w :: outside
  assumes "RequestParser_Parse t0 (fresh_request True) = (True, r0)" "is_valid r0"
    and "CreateHandler (site_factories site) (site_locations site) (url r0) = Done (ApiRequestHandler_on d u)"
    and "api_plan (o_json w) u r0 = Ask c0"
    and "RequestParser_Parse t1 (fresh_request True) = (True, r1)" "is_valid r1"
    and "CreateHandler (site_factories site) (site_locations site) (url r1) = Done (ApiRequestHandler_on d u)"
    and "api_plan (o_json w) u r1 = Ask c1"
    and "0 < length t0" "length t0 \<le> max_length" "0 < length t1" "length t1 \<le> max_length"
    and a: "a = \<lparr>ar_read = ReadDone 0 w True False t0, ar_world = w, ar_path = d, ar_prefix = u, ar_request = r0, ar_stage = Begin c0\<rparr>"
    and b: "b = \<lparr>ar_read = ReadDone 1 w True False t1, ar_world = w, ar_path = d, ar_prefix = u, ar_request = r1, ar_stage = Begin c1\<rparr>"
    and ask: "ask a (\<lambda>_. None)" "ask b [0 \<mapsto> a]"
  shows "\<exists>P. interleaved ask site (pool_new 2 (server_new 0 st)) [] P [0 \<mapsto> a, 1 \<mapsto> b] \<and> server_stores (shared P) = st
    \<and> threads P = [Busy 0 OpReadSome, Busy 1 OpReadSome]"
proof -
  let ?new = "pool_new 2 (server_new 0 st)" and ?ep = "(''10.0.0.1'', 5000)"
  let ?s = "new_session\<lparr>ip := ''10.0.0.1'', client_port := 5000\<rparr>"
  let ?sv = "\<lambda>h pend. \<lparr>heap = h, pending = pend, stuck = {}, server_stores = st, metrics = []\<rparr>"
  let ?P = "\<lambda>ts h pend. \<lparr>threads = ts, stopped = False, signal_wait = True, shared = ?sv h pend\<rparr>"
  let ?heap = "[0 \<mapsto> ?s, 1 \<mapsto> ?s, 2 \<mapsto> new_session]"
  note defs = begin_handler_def end_handler_def complete_def handle_accept_def take_op_def session_start_def
    StartAsyncRead_def proceed_def start_accept_def op_of_def result_ok_def exchange_of_def asked_def
  have new: "?new = ?P [Idle, Idle] [0 \<mapsto> new_session] [(0, OpAccept)]"
    by (simp add: pool_new_def server_new_def start_accept_def numeral_2_eq_2)
  have 0: "interleaved ask site ?new [] (?P [Idle, Idle] [0 \<mapsto> new_session] [(0, OpAccept)]) (\<lambda>_. None)"
    using staged_start [of ask site ?new] unfolding new .
  have 1: "interleaved ask site ?new [] (?P [Busy 0 OpAccept, Idle] [0 \<mapsto> new_session] []) (\<lambda>_. None)"
    using staged_begins [OF 0, of 0 0 OpAccept] by (simp add: defs)
  have 2: "interleaved ask site ?new [] (?P [Idle, Idle] [0 \<mapsto> ?s, 1 \<mapsto> new_session] [(0, OpReadSome), (1, OpAccept)]) (\<lambda>_. None)"
    using staged_ends [OF 1, of 0 0 OpAccept "AcceptDone 0 False (Some ?ep) 1"] by (simp add: defs)
  have 3: "interleaved ask site ?new [] (?P [Busy 1 OpAccept, Idle] [0 \<mapsto> ?s, 1 \<mapsto> new_session] [(0, OpReadSome)]) (\<lambda>_. None)"
    using staged_begins [OF 2, of 0 1 OpAccept] by (simp add: defs)
  have 4: "interleaved ask site ?new [] (?P [Idle, Idle] ?heap [(0, OpReadSome), (1, OpReadSome), (2, OpAccept)]) (\<lambda>_. None)"
    using staged_ends [OF 3, of 0 1 OpAccept "AcceptDone 1 False (Some ?ep) 2"] by (simp add: defs)
  have 5: "interleaved ask site ?new [] (?P [Busy 0 OpReadSome, Idle] ?heap [(1, OpReadSome), (2, OpAccept)]) (\<lambda>_. None)"
    using staged_begins [OF 4, of 0 0 OpReadSome] by (simp add: defs)
  have 6: "interleaved ask site ?new [] (?P [Busy 0 OpReadSome, Busy 1 OpReadSome] ?heap [(2, OpAccept)]) (\<lambda>_. None)"
    using staged_begins [OF 5, of 1 1 OpReadSome] by (simp add: defs)
  have buf: "request_buffer ?s = []" by (simp add: new_session_def)
  have 7: "interleaved ask site ?new [] (?P [Busy 0 OpReadSome, Busy 1 OpReadSome] ?heap [(2, OpAccept)]) [0 \<mapsto> a]"
    using staged_asks [OF 6, of 0 0 OpReadSome "ReadDone 0 w True False t0" a] assms(1-4,9,10) buf ask(1)
    by (simp add: defs a)
  have "interleaved ask site ?new [] (?P [Busy 0 OpReadSome, Busy 1 OpReadSome] ?heap [(2, OpAccept)]) [0 \<mapsto> a, 1 \<mapsto> b]"
    using staged_asks [OF 7, of 1 1 OpReadSome "ReadDone 1 w True False t1" b] assms(5-8,11,12) buf ask(2)
    by (simp add: defs b)
  then show ?thesis by (intro exI conjI) (assumption, simp_all)
qed

lemma sample_in_store:
  obtains P a b where "staged (api_site ''/api'' ''/data'' reg) (pool_new 2 (server_new 0 st)) [] P [0 \<mapsto> a, 1 \<mapsto> b]"
    "ar_call a = CallDelete ''Shoes'' 1" "ar_call b = CallDelete ''Hats'' 1"
proof -
  have len: "0 < length (sample_text e)" "length (sample_text e) \<le> max_length" if "e = ''Shoes'' \<or> e = ''Hats''" for e
    using that by (auto simp: sample_text_def render_request_def max_length_def)
  obtain r0 where r0: "RequestParser_Parse (sample_text ''Shoes'') (fresh_request True) = (True, r0)" "is_valid r0"
    "CreateHandler (site_factories (api_site ''/api'' ''/data'' reg)) (site_locations (api_site ''/api'' ''/data'' reg)) (url r0)
      = Done (ApiRequestHandler_on ''/data'' ''/api'')" "api_plan (\<lambda>_. True) ''/api'' r0 = Ask (CallDelete ''Shoes'' 1)"
    using sample_asks [of "''Shoes''" reg] by blast
  obtain r1 where r1: "RequestParser_Parse (sample_text ''Hats'') (fresh_request True) = (True, r1)" "is_valid r1"
    "CreateHandler (site_factories (api_site ''/api'' ''/data'' reg)) (site_locations (api_site ''/api'' ''/data'' reg)) (url r1)
      = Done (ApiRequestHandler_on ''/data'' ''/api'')" "api_plan (\<lambda>_. True) ''/api'' r1 = Ask (CallDelete ''Hats'' 1)"
    using sample_asks [of "''Hats''" reg] by blast
  have json: "o_json sample_outside = (\<lambda>_. True)" by (simp add: sample_outside_def)
  let ?a = "\<lparr>ar_read = ReadDone 0 sample_outside True False (sample_text ''Shoes''), ar_world = sample_outside, ar_path = ''/data'',
    ar_prefix = ''/api'', ar_request = r0, ar_stage = Begin (CallDelete ''Shoes'' 1)\<rparr>"
  let ?b = "\<lparr>ar_read = ReadDone 1 sample_outside True False (sample_text ''Hats''), ar_world = sample_outside, ar_path = ''/data'',
    ar_prefix = ''/api'', ar_request = r1, ar_stage = Begin (CallDelete ''Hats'' 1)\<rparr>"
  have "may_ask ?a (\<lambda>_. None)" "may_ask ?b [0 \<mapsto> ?a]" by (simp_all add: may_ask_def)
  from two_in_store [OF r0(1-3) r0(4) [folded json] r1(1-3) r1(4) [folded json] len(1,2) len(1,2) refl refl this, of st] that [of _ ?a ?b]
  show ?thesis by auto
qed

section \<open>Properties\<close>

text \<open>
  C3: the pool with handlers of one moment each describes what the threads do
  down to their calls into the file system. Whatever the threads have done, in any order of
  the turns at the file system and with any of them failing, as long as no two API requests
  for one entity overlap unless both only read: the pool of \<open>Thread_Pool\<close> has a run with the
  same answered requests and responses in the same order, and with the same threads, sessions,
  operations in flight and log; and the stores hold the same for every entity that no
  creation, update or deletion is in progress on.
\<close>

theorem Staged_refines:
  assumes "staged site (pool_new n (server_new q st)) xs P act"
  shows "\<exists>st'. pool_served site (pool_new n (server_new q st)) xs (with_stores st' P)
    \<and> (\<forall>d e. quiet act d e \<longrightarrow> all_abs (server_stores (shared P)) d e = all_abs st' d e)"
proof -
  obtain st' where "pool_served site (pool_new n (server_new q st)) xs (with_stores st' P)"
    "\<And>d e. quiet act d e \<Longrightarrow> map_of (server_stores (shared P) d) e = map_of (st' d) e"
    using staged_refines [OF assms] by blast
  then show ?thesis using all_abs_cong [of "server_stores (shared P)" _ _ st'] by blast
qed

text \<open>One thread is in the middle of a deletion while another one comes, deletes and answers.\<close>

theorem Staged_refines_witness:
  "\<exists>xs P a st'. staged (api_site ''/api'' ''/data'' (\<lambda>_. None)) (pool_new 2 (server_new 0 (\<lambda>_. sample_disk))) xs P [0 \<mapsto> a]
    \<and> ar_call a = CallDelete ''Shoes'' 1
    \<and> pool_served (api_site ''/api'' ''/data'' (\<lambda>_. None)) (pool_new 2 (server_new 0 (\<lambda>_. sample_disk))) xs (with_stores st' P)
    \<and> all_abs (server_stores (shared P)) ''/data'' ''Hats'' = all_abs st' ''/data'' ''Hats''"
proof -
  obtain P a b where ab: "staged (api_site ''/api'' ''/data'' (\<lambda>_. None)) (pool_new 2 (server_new 0 (\<lambda>_. sample_disk))) [] P [0 \<mapsto> a, 1 \<mapsto> b]"
    "ar_call a = CallDelete ''Shoes'' 1" "ar_call b = CallDelete ''Hats'' 1" by (rule sample_in_store)
  have gone: "[0::nat \<mapsto> a, 1 \<mapsto> b](1 := None) = [0 \<mapsto> a]" by auto
  from staged_answers [OF ab(1), of 1 b] obtain xs P' where
    run: "staged (api_site ''/api'' ''/data'' (\<lambda>_. None)) (pool_new 2 (server_new 0 (\<lambda>_. sample_disk))) xs P' [0 \<mapsto> a]"
    unfolding gone by auto
  have "quiet [0 \<mapsto> a] ''/data'' ''Hats''" using ab(2) by (simp add: quiet_def)
  with Staged_refines [OF run] run ab(2) show ?thesis by blast
qed


text \<open>
  C20: no request waits for another. Whatever the threads have done so far, also
  with requests for one entity that overlap, and wherever in the store they are, the thread of a request can
  take its turns at the file system one after the other and leave the store with the
  request answered, or it is a creation in an entity without a free ID, which the code
  searches for forever; the other threads need not make a step.
\<close>

theorem Staged_answers:
  assumes "unrestricted site (pool_new n (server_new q st)) xs P act" "act k = Some a"
  shows "\<exists>ys P'. unrestricted site (pool_new n (server_new q st)) (xs @ ys) P' (act(k := None))
    \<and> ((\<exists>resp. ys = [ar_exchange a resp] \<and> threads P' = (threads P)[k := Idle])
     \<or> (\<exists>e d. ar_call a = CallCreate e d \<and> ys = [] \<and> threads P' = (threads P)[k := Hung (ar_session a)]))"
  by (rule staged_answers [OF assms])

theorem Staged_answers_witness:
  "\<exists>P act a ys P'. unrestricted (api_site ''/api'' ''/data'' (\<lambda>_. None)) (pool_new 2 (server_new 0 (\<lambda>_. sample_disk))) [] P act
    \<and> act 0 = Some a \<and> act 1 \<noteq> None
    \<and> unrestricted (api_site ''/api'' ''/data'' (\<lambda>_. None)) (pool_new 2 (server_new 0 (\<lambda>_. sample_disk))) ys P' (act(0 := None))
    \<and> (\<exists>resp. ys = [ar_exchange a resp])"
proof -
  obtain P a b where ab: "staged (api_site ''/api'' ''/data'' (\<lambda>_. None)) (pool_new 2 (server_new 0 (\<lambda>_. sample_disk))) [] P [0 \<mapsto> a, 1 \<mapsto> b]"
    "ar_call a = CallDelete ''Shoes'' 1" "ar_call b = CallDelete ''Hats'' 1" by (rule sample_in_store)
  note run = staged_unrestricted [OF ab(1)]
  have "[0::nat \<mapsto> a, 1 \<mapsto> b] 0 = Some a" by simp
  from Staged_answers [OF run this, unfolded append_Nil ab(2)] obtain ys P' where
    "unrestricted (api_site ''/api'' ''/data'' (\<lambda>_. None)) (pool_new 2 (server_new 0 (\<lambda>_. sample_disk))) ys P' ([0 \<mapsto> a, 1 \<mapsto> b](0 := None))"
    "\<exists>resp. ys = [ar_exchange a resp]" by blast
  with run show ?thesis
    by (intro exI [of _ P] exI [of _ "[0 \<mapsto> a, 1 \<mapsto> b]"] exI [of _ a] exI [of _ ys] exI [of _ P']) simp
qed

text \<open>
  C13: memory safety of the threaded program, down to the calls into the file
  system and with requests that overlap in any way. The session of a running handler exists,
  has no other operation in flight that another thread could begin, is not one that a handler
  hangs in, and no second thread runs a handler of it; and when the handler ends, it has not
  touched a deleted session.
\<close>

theorem Staged_exclusion:
  assumes "unrestricted site (pool_new n (server_new q st)) xs P act" "k < length (threads P)" "threads P ! k = Busy p x"
  shows "heap (shared P) p \<noteq> None \<and> p \<notin> fst ` set (pending (shared P)) \<and> p \<notin> hung (threads P)
     \<and> (\<forall>l y. l < length (threads P) \<longrightarrow> threads P ! l = Busy p y \<longrightarrow> l = k)
     \<and> (\<forall>c. op_of c = (p, x) \<longrightarrow> result_ok c (shared P) \<longrightarrow> end_handler site k c P \<noteq> Corrupted)"
proof -
  from interleaved_inv [OF assms(1) implements_new server_inv_new] obtain sv where sv: "implements P sv" "server_inv sv" by blast
  have "end_handler site k c P \<noteq> Corrupted" if c: "op_of c = (p, x)" "result_ok c (shared P)" for c
  proof
    assume "end_handler site k c P = Corrupted"
    with implements_end [OF sv assms(2,3) c, of site] have "server_step site (Running sv) Use_after_free" by simp
    then obtain c where "enabled c sv" "complete site c sv = Use_after_free" by (auto elim: server_step_RunningE)
    with complete_inv [OF sv(2), of c site] show False by simp
  qed
  with busy_exclusive [OF sv assms(2,3)] show ?thesis by blast
qed

theorem Staged_exclusion_witness:
  "\<exists>P act p. unrestricted (api_site ''/api'' ''/data'' (\<lambda>_. None)) (pool_new 2 (server_new 0 (\<lambda>_. sample_disk))) [] P act
    \<and> act 0 \<noteq> None \<and> act 1 \<noteq> None \<and> threads P ! 0 = Busy p OpReadSome
    \<and> heap (shared P) p \<noteq> None \<and> threads P ! 1 \<noteq> Busy p OpReadSome"
proof -
  obtain P a b where ab: "staged (api_site ''/api'' ''/data'' (\<lambda>_. None)) (pool_new 2 (server_new 0 (\<lambda>_. sample_disk))) [] P [0 \<mapsto> a, 1 \<mapsto> b]"
    "ar_call a = CallDelete ''Shoes'' 1" "ar_call b = CallDelete ''Hats'' 1" by (rule sample_in_store)
  note run = staged_unrestricted [OF ab(1)]
  from interleaved_inv [OF run implements_new server_inv_new] have
    tracks: "tracks (api_site ''/api'' ''/data'' (\<lambda>_. None)) P [0 \<mapsto> a, 1 \<mapsto> b]" by blast
  from tracksD(1,2) [OF tracks, of 0 a] tracksD(1,2) [OF tracks, of 1 b]
  have busy: "0 < length (threads P)" "threads P ! 0 = Busy (ar_session a) OpReadSome" "1 < length (threads P)" by auto
  from Staged_exclusion [OF run busy(1,2)] busy(3)
  have "heap (shared P) (ar_session a) \<noteq> None" "threads P ! 1 \<noteq> Busy (ar_session a) OpReadSome" by auto
  with run busy(2) show ?thesis
    by (intro exI [of _ P] exI [of _ "[0 \<mapsto> a, 1 \<mapsto> b]"] exI [of _ "ar_session a"]) simp
qed

end
