(* ===== verification/Create_Race.thy ===== *)
theory Create_Race
  imports Staged_Pool
begin

text \<open>
  What clients see of the missing lock: two \<^verbatim>\<open>POST\<close>s to one entity that overlap can both be
  answered \<^verbatim>\<open>200 OK\<close> with the same ID, and one body is lost. No run of the pool in which each
  handler has one moment of effect gives these answers, so the condition of \<open>Staged_refines\<close>
  cannot be dropped.
\<close>

definition post_text :: "string \<Rightarrow> string" where
  "post_text body = render_request ''POST'' ''/api/Shoes'' [] body"

definition post_request :: "string \<Rightarrow> request" where
  "post_request body = \<lparr>is_valid = True, raw_request = post_text body, rq_method = ''POST'', url = ''/api/Shoes'',
    rq_http_version = ''1.1'', rq_headers = map (\<lambda>(n, v). n @ '': '' @ trim_blanks v) [], rq_body = body\<rparr>"

abbreviation race_site :: site where
  "race_site \<equiv> api_site ''/api'' ''/data'' (\<lambda>_. None)"

text \<open>The read that brings the request to session \<open>p\<close>, in the store at stage \<open>s\<close>.\<close>

definition post_call :: "nat \<Rightarrow> string \<Rightarrow> stage \<Rightarrow> api_request" where
  "post_call p body s = \<lparr>ar_read = ReadDone p sample_outside True False (post_text body), ar_world = sample_outside,
    ar_path = ''/data'', ar_prefix = ''/api'', ar_request = post_request body, ar_stage = s\<rparr>"

lemma post_call_simps [simp]:
  "ar_world (post_call p body s) = sample_outside" "ar_path (post_call p body s) = ''/data''"
  "ar_stage (post_call p body s) = s" "(post_call p body s)\<lparr>ar_stage := s'\<rparr> = post_call p body s'"
  "ar_request (post_call p body s) = post_request body" "ar_prefix (post_call p body s) = ''/api''"
  by (simp_all add: post_call_def)

lemma post_segments: "ExtractSegments ''/api'' (url (post_request body)) = [''Shoes'']"
  using ExtractSegments_path [of "[''Shoes'']" "''/api''" "[]" 0] by (simp add: post_request_def good_segment_def)

lemma post_asks:
  "RequestParser_Parse (post_text body) (fresh_request True) = (True, post_request body)" "is_valid (post_request body)"
  "CreateHandler (site_factories race_site) (site_locations race_site) (url (post_request body)) = Done (ApiRequestHandler_on ''/data'' ''/api'')"
  "api_plan (o_json sample_outside) ''/api'' (post_request body) = Ask (CallCreate ''Shoes'' body)"
proof -
  have "wf_target ''/api/Shoes''" "''POST'' \<in> set kAllowedMethods"
    by (auto simp: wf_target_def isspace_def code_def kAllowedMethods_def)
  from render_parsed [OF this(2,1), of "[]" body True]
  show "RequestParser_Parse (post_text body) (fresh_request True) = (True, post_request body)"
    by (simp add: post_text_def post_request_def)
  show "is_valid (post_request body)" by (simp add: post_request_def)
  have "prefix ''/api'' (url (post_request body))" by (simp add: post_request_def)
  from api_site_handler [where d = "''/data''" and reg = "\<lambda>_. None", OF this]
  show "CreateHandler (site_factories race_site) (site_locations race_site) (url (post_request body)) = Done (ApiRequestHandler_on ''/data'' ''/api'')"
    by simp
  show "api_plan (o_json sample_outside) ''/api'' (post_request body) = Ask (CallCreate ''Shoes'' body)"
    using Shoes_valid by (simp add: api_plan_def post_segments) (simp add: post_request_def sample_outside_def)
qed

section \<open>The race\<close>

text \<open>One turn of thread \<open>k\<close>.\<close>

lemma one_turn:
  assumes "unrestricted race_site P0 xs P act" "act k = Some (post_call p body s)"
    and "store_step io_fine s (server_stores (shared P) ''/data'') = (s', disk)"
  shows "unrestricted race_site P0 xs (with_stores ((server_stores (shared P))(''/data'' := disk)) P) (act(k \<mapsto> post_call p body s'))"
proof -
  have "o_io sample_outside = io_fine" by (simp add: sample_outside_def)
  with assms(3) have "take_turn k (post_call p body s) P act
    = (with_stores ((server_stores (shared P))(''/data'' := disk)) P, act(k \<mapsto> post_call p body s'))"
    by (simp add: take_turn_def with_stores_def)
  from staged_turn [OF assms(1,2) this] show ?thesis .
qed

abbreviation shoes :: "(string \<times> node) list \<Rightarrow> disk" where
  "shoes es \<equiv> [(''Shoes'', Directory es)]"

lemma race_steps:
  "store_step io_fine (Begin (CallCreate ''Shoes'' d)) [] = (CreateScan ''Shoes'' d, shoes [])"
  "store_step io_fine (Begin (CallCreate ''Shoes'' d)) (shoes es) = (CreateScan ''Shoes'' d, shoes es)"
  "store_step io_fine (CreateScan ''Shoes'' d) (shoes []) = (CreateOpen ''Shoes'' 0 d, shoes [])"
  "store_step io_fine (CreateOpen ''Shoes'' 0 d) (shoes []) = (CreateWrite ''Shoes'' 0 d, shoes [(''0'', RegularFile [])])"
  "store_step io_fine (CreateOpen ''Shoes'' 0 d) (shoes [(''0'', RegularFile old)]) = (CreateWrite ''Shoes'' 0 d, shoes [(''0'', RegularFile [])])"
  "store_step io_fine (CreateWrite ''Shoes'' 0 d) (shoes [(''0'', RegularFile [])])
    = (Replied (CallCreate ''Shoes'' d) (Created 0), shoes [(''0'', RegularFile d)])"
  using Shoes_valid
  by (simp_all add: EnsureEntityDirectory_def io_fine_def set_entries_def iterate_ids_def dir_entries_def
      next_unused.simps open_trunc_def write_close_def EntityFilePath_def overwrite_def to_string_nonneg dec_nat.simps digit_chars)

abbreviation both :: "stage \<Rightarrow> stage \<Rightarrow> in_store" where
  "both s t \<equiv> [0 \<mapsto> post_call 0 ''1'' s, 1 \<mapsto> post_call 1 ''2'' t]"

abbreviation on_data :: "disk \<Rightarrow> pool \<Rightarrow> pool" where
  "on_data disk P \<equiv> with_stores ((\<lambda>_. [])(''/data'' := disk)) P"

lemma turn_0:
  "unrestricted race_site P0 xs (on_data d P) (both s t) \<Longrightarrow> store_step io_fine s d = (s', d')
    \<Longrightarrow> unrestricted race_site P0 xs (on_data d' P) (both s' t)"
  using one_turn [of P0 xs "on_data d P" "both s t" 0 0 "''1''" s s' d'] by (simp add: fun_upd_twist)

lemma turn_1:
  "unrestricted race_site P0 xs (on_data d P) (both s t) \<Longrightarrow> store_step io_fine t d = (t', d')
    \<Longrightarrow> unrestricted race_site P0 xs (on_data d' P) (both s t')"
  using one_turn [of P0 xs "on_data d P" "both s t" 1 1 "''2''" t t' d'] by simp

abbreviation race_pool :: pool where
  "race_pool \<equiv> pool_new 2 (server_new 0 (\<lambda>_. []))"

abbreviation created :: "string \<Rightarrow> exchange" where
  "created body \<equiv> (sample_outside, ApiRequestHandler_on ''/data'' ''/api'', post_request body, Ok (id_json 0) kJsonContentType)"

lemma race_run:
  "\<exists>P. unrestricted race_site race_pool [created ''1'', created ''2''] P (\<lambda>_. None)
    \<and> server_stores (shared P) ''/data'' = shoes [(''0'', RegularFile ''2'')]"
proof -
  let ?c0 = "CallCreate ''Shoes'' ''1''" and ?c1 = "CallCreate ''Shoes'' ''2''"
  have len: "0 < length (post_text b)" "length (post_text b) \<le> max_length" if "length b = 1" for b
    using that by (simp_all add: post_text_def render_request_def max_length_def)
  have one: "length ''1'' = 1" "length ''2'' = 1" by simp_all
  from two_in_store [OF post_asks post_asks len [OF one(1)] len [OF one(2)] refl refl TrueI TrueI, of "\<lambda>_. []"]
  obtain P where P: "unrestricted race_site race_pool [] P (both (Begin ?c0) (Begin ?c1))" "server_stores (shared P) = (\<lambda>_. [])"
    unfolding post_call_def by blast
  have "on_data [] P = P" using P(2) with_stores_simps(8) [of P] by (simp add: fun_upd_idem)
  with P(1) have "unrestricted race_site race_pool [] (on_data [] P) (both (Begin ?c0) (Begin ?c1))" by simp
  note turn_1 [OF turn_0 [OF this race_steps(1)] race_steps(2)]
  note turn_1 [OF turn_0 [OF this race_steps(3)] race_steps(3)]
  note turn_0 [OF turn_0 [OF this race_steps(4)] race_steps(6)]
  note turn_1 [OF turn_1 [OF this race_steps(5)] race_steps(6)]
  then have done': "unrestricted race_site race_pool [] (on_data (shoes [(''0'', RegularFile ''2'')]) P)
    (both (Replied ?c0 (Created 0)) (Replied ?c1 (Created 0)))" .
  have ex: "left_exchange (post_call p b (Replied (CallCreate ''Shoes'' d) (Created 0))) (Created 0) = [created b]" for p b d
    by (simp add: left_exchange_def)
  let ?P1 = "leave_store 0 (post_call 0 ''1'' (Replied ?c0 (Created 0))) (Created 0) (on_data (shoes [(''0'', RegularFile ''2'')]) P)"
  have gone: "(both s t)(0 := None) = [1 \<mapsto> post_call 1 ''2'' t]" "[1 \<mapsto> x](1 := None) = (\<lambda>_. None)"
    for s t and x :: api_request by auto
  from staged_leaves [OF done', of 0 "post_call 0 ''1'' (Replied ?c0 (Created 0))" "Created 0"]
  have "unrestricted race_site race_pool [created ''1''] ?P1 [1 \<mapsto> post_call 1 ''2'' (Replied ?c1 (Created 0))]"
    unfolding ex gone by simp
  from staged_leaves [OF this, of 1 "post_call 1 ''2'' (Replied ?c1 (Created 0))" "Created 0"]
  have "unrestricted race_site race_pool [created ''1'', created ''2'']
    (leave_store 1 (post_call 1 ''2'' (Replied ?c1 (Created 0))) (Created 0) ?P1) (\<lambda>_. None)"
    unfolding ex gone by simp
  moreover have "server_stores (shared (leave_store k a r Q)) = server_stores (shared Q)" for k a r Q
    by (simp add: leave_store_def hang_def split: option.split)
  ultimately show ?thesis by fastforce
qed

lemma same_id: "Ok (id_json i) t = Ok (id_json j) t \<Longrightarrow> i = j"
  by (drule arg_cong [where f = rs_body]) (simp add: id_json_def resp_simps)

text \<open>On a map, two creations never give the same ID.\<close>

lemma creates_once:
  assumes "api_spec (\<lambda>_. True) [''Shoes''] (post_request b) m (Ok (id_json 0) kJsonContentType) m'"
  shows "m ''Shoes'' 0 = None" "m' ''Shoes'' 0 \<noteq> None"
proof -
  have "rq_method (post_request b) = ''POST''" by (simp add: post_request_def)
  with assms show "m ''Shoes'' 0 = None" "m' ''Shoes'' 0 \<noteq> None"
    by (auto elim!: api_spec.cases dest!: same_id simp: rejection_def resp_simps put_def)
qed

lemma race_disk:
  assumes "st ''/data'' = shoes [(''0'', RegularFile b)]"
  shows "all_abs st ''/data'' = put (\<lambda>_ _. None) ''Shoes'' 0 b"
proof -
  have zero: "to_string i = ''0'' \<longleftrightarrow> i = 0" for i
    using to_string_inject [of i 0] by (simp add: to_string_nonneg [of 0] dec_nat.simps [of 0] digit_chars)
  have "dir_object [(''0'', RegularFile b)] = (\<lambda>_. None)(0 \<mapsto> b)"
    by (simp add: dir_object_def fun_eq_iff zero)
  with assms show ?thesis
    by (simp add: all_abs_def fun_eq_iff disk_abs_eq dir_entries_def put_def)
qed

lemma race_never: "\<not> pool_served race_site race_pool [created ''1'', created ''2''] P'"
proof
  assume run: "pool_served race_site race_pool [created ''1'', created ''2''] P'"
  have json: "o_json sample_outside = (\<lambda>_. True)" "io_ok (o_io sample_outside)"
    by (simp_all add: sample_outside_def io_ok_fine)
  have quiet: "\<forall>x\<in>set [created ''1'', created ''2'']. undisturbed x"
    using json post_segments by simp
  have "stores_ready (length [created ''1'', created ''2''] + 0) (\<lambda>_. [])"
    using empty_disk_inv by (simp add: stores_ready_def room_for_def disk_usable_def entries_of_def dir_entries_def)
  from conjunct2 [OF pool_service [OF run quiet this]] obtain m1 m2 where
    "api_spec (\<lambda>_. True) [''Shoes''] (post_request ''1'') (all_abs (\<lambda>_. []) ''/data'') (Ok (id_json 0) kJsonContentType) m1"
    "api_spec (\<lambda>_. True) [''Shoes''] (post_request ''2'') m1 (Ok (id_json 0) kJsonContentType) m2"
    unfolding service.simps service_step.simps json(1) post_segments by (metis fun_upd_same)
  from creates_once(2) [OF this(1)] creates_once(1) [OF this(2)] show False by simp
qed

section \<open>Properties\<close>

text \<open>
  C22: without a lock clients can lose data. Two clients of a program with one
  API location send a \<^verbatim>\<open>POST\<close> to the same entity, no call into the file system fails, and the
  threads interleave so that both are answered \<^verbatim>\<open>200 OK\<close> with the same ID, after which the disk
  holds the second body only. The pool in which each handler has one moment of effect never
  gives these answers, so that the condition on overlapping requests in \<open>Staged_refines\<close> is
  needed.
\<close>

theorem Create_race_served:
  "\<exists>P req req' resp. unrestricted race_site race_pool
        [(sample_outside, ApiRequestHandler_on ''/data'' ''/api'', req, resp),
         (sample_outside, ApiRequestHandler_on ''/data'' ''/api'', req', resp)] P (\<lambda>_. None)
    \<and> rq_method req = ''POST'' \<and> rq_method req' = ''POST'' \<and> rq_body req \<noteq> rq_body req'
    \<and> resp = Ok (id_json 0) kJsonContentType
    \<and> all_abs (server_stores (shared P)) ''/data'' = put (\<lambda>_ _. None) ''Shoes'' 0 (rq_body req')
    \<and> (\<nexists>P'. pool_served race_site race_pool
        [(sample_outside, ApiRequestHandler_on ''/data'' ''/api'', req, resp),
         (sample_outside, ApiRequestHandler_on ''/data'' ''/api'', req', resp)] P')"
proof -
  from race_run obtain P where P: "unrestricted race_site race_pool [created ''1'', created ''2''] P (\<lambda>_. None)"
    "server_stores (shared P) ''/data'' = shoes [(''0'', RegularFile ''2'')]" by blast
  from race_disk [of "server_stores (shared P)" "''2''", OF P(2)] P(1) race_never show ?thesis
    by (intro exI [of _ P] exI [of _ "post_request ''1''"] exI [of _ "post_request ''2''"] exI conjI)
      (assumption, simp_all add: post_request_def)
qed

end
