(* ===== verification/Logging.thy ===== *)
theory Logging
  imports Session
begin

text \<open>
  The log: the sinks that \<^verbatim>\<open>writeLogToConsole\<close> and \<^verbatim>\<open>writeLogToFile\<close> of
  \<^verbatim>\<open>src/server_main_utils.cc\<close> add to Boost.Log, and the records that \<^verbatim>\<open>src/session.cc\<close> and the parts
  it calls write while the server serves. A record is a severity and a message; a sink writes it, formatted, and a line feed after it.
  The text of the time and of the thread are a parameter of each record.
\<close>

datatype severity = Sev_debug | Sev_info | Sev_warning | Sev_error

type_synonym log_record = "severity \<times> string"

definition severity_text :: "severity \<Rightarrow> string" where
  "severity_text sev =
     (case sev of Sev_debug \<Rightarrow> ''debug'' | Sev_info \<Rightarrow> ''info'' | Sev_warning \<Rightarrow> ''warning'' | Sev_error \<Rightarrow> ''error'')"

section \<open>Sinks\<close>

text \<open>The stream expression of the format, the same in both functions.\<close>

definition log_format :: "string \<Rightarrow> string \<Rightarrow> log_record \<Rightarrow> string" where
  "log_format time_stamp thread_id r =
     ''['' @ time_stamp @ ''] ['' @ thread_id @ ''] ['' @ severity_text (fst r) @ ''] '' @ snd r"

datatype sink_target = Console_clog | Log_file string

text \<open>
  The keywords of a sink: append mode, the time of day and the size at which a file is
  rotated, and whether each record is flushed.
\<close>

record log_sink =
  sink_target :: sink_target
  sink_append :: bool
  sink_rotation_time :: "(nat \<times> nat \<times> nat) option"
  sink_rotation_size :: "nat option"
  sink_auto_flush :: bool
  sink_format :: "string \<Rightarrow> string \<Rightarrow> log_record \<Rightarrow> string"

record log_core =
  common_attributes :: bool
  sinks :: "log_sink list"

definition no_log :: log_core where
  "no_log = \<lparr>common_attributes = False, sinks = []\<rparr>"

text \<open>
  \<^verbatim>\<open>std::filesystem::current_path().parent_path()\<close>: the current path is absolute, without a
  slash at its end unless it is the root, which is its own parent.
\<close>

definition parent_path :: "string \<Rightarrow> string" where
  "parent_path p =
     (let parent = rev (tl (dropWhile (\<lambda>c. c \<noteq> CHR ''/'') (rev p)))
      in if parent = [] then ''/'' else parent)"

definition path_append :: "string \<Rightarrow> string \<Rightarrow> string" where
  "path_append p name = (if p = ''/'' then p @ name else p @ ''/'' @ name)"

definition writeLogToConsole :: "log_core \<Rightarrow> log_core" where
  "writeLogToConsole core =
     core\<lparr>common_attributes := True, sinks := sinks core @
       [\<lparr>sink_target = Console_clog, sink_append = False, sink_rotation_time = None, sink_rotation_size = None,
         sink_auto_flush = False, sink_format = log_format\<rparr>]\<rparr>"

text \<open>
  \<open>make_dirs\<close> is whether \<^verbatim>\<open>create_directories\<close> makes the directory; if not it throws, after
  the attributes have been added. The parameter \<^verbatim>\<open>name\<close> is not used.
\<close>

definition writeLogToFile :: "(string \<Rightarrow> bool) \<Rightarrow> string \<Rightarrow> string \<Rightarrow> log_core \<Rightarrow> log_core outcome" where
  "writeLogToFile make_dirs current_path name core =
     (let pathToLog = path_append (parent_path current_path) ''logs'' in
      if \<not> make_dirs pathToLog then Exception
      else Done (core\<lparr>common_attributes := True, sinks := sinks core @
        [\<lparr>sink_target = Log_file (path_append pathToLog ''%Y%m%d.log''), sink_append = True,
          sink_rotation_time = Some (0, 0, 0), sink_rotation_size = Some (10 * 1024 * 1024),
          sink_auto_flush = True, sink_format = log_format\<rparr>]\<rparr>))"

text \<open>The first two lines of \<^verbatim>\<open>main\<close>.\<close>

definition main_log :: "(string \<Rightarrow> bool) \<Rightarrow> string \<Rightarrow> log_core outcome" where
  "main_log make_dirs current_path = writeLogToFile make_dirs current_path ''../logs'' (writeLogToConsole no_log)"

text \<open>What a sink has written after records with their time and thread.\<close>

definition sink_text :: "log_sink \<Rightarrow> ((string \<times> string) \<times> log_record) list \<Rightarrow> string" where
  "sink_text sink rs = concat (map (\<lambda>((time_stamp, thread_id), r). sink_format sink time_stamp thread_id r @ [LF]) rs)"

section \<open>The records of a session\<close>

definition client :: "session \<Rightarrow> string" where
  "client s = ip s @ '':'' @ dec_int (client_port s)"

definition StartAsyncRead_log :: "bool \<Rightarrow> log_record list" where
  "StartAsyncRead_log socket_open =
     [(Sev_debug, if socket_open then ''Starting async read'' else ''Starting async read on unopened socket'')]"

definition HandleError_log :: "session \<Rightarrow> log_record list" where
  "HandleError_log s = [(Sev_error, ''Handling error for session from '' @ client s)]"

definition SendResponse_log :: "session \<Rightarrow> log_record list" where
  "SendResponse_log s = [(Sev_debug, ''Sending response to client '' @ client s)]"

text \<open>\<^verbatim>\<open>start\<close>, on the session with the address it has just noted.\<close>

definition session_start_log :: "session \<Rightarrow> log_record list" where
  "session_start_log s =
     [(Sev_info, ''New session started from '' @ client s), (Sev_info, ''Starting session from '' @ client s)]
     @ StartAsyncRead_log True"

text \<open>The two records at the start of \<^verbatim>\<open>handle_read\<close>, after the bytes read have been appended.\<close>

definition request_log :: "session \<Rightarrow> log_record list" where
  "request_log s =
     [(Sev_info, ''Request from '' @ client s @ '' is '' @ request_buffer s),
      (Sev_info, ''Request contains '' @ dec_nat (length (request_buffer s)) @ '' bytes'')]"

text \<open>The error branch: whether the client closed the connection, or the text of the error.\<close>

definition disconnect_log :: "session \<Rightarrow> string option \<Rightarrow> log_record list" where
  "disconnect_log s err =
     (case err of
        None \<Rightarrow> [(Sev_info, ''Client '' @ client s @ '' disconnected'')]
      | Some msg \<Rightarrow> [(Sev_warning, ''Read error from '' @ client s @ '' '' @ [char_of (0xE2 :: nat), char_of (0x80 :: nat), char_of (0x94 :: nat)] @ '' '' @ msg)])
     @ HandleError_log s"

section \<open>The records of the parts a session calls\<close>

text \<open>The parser, \<^verbatim>\<open>src/request_parser.cc\<close>.\<close>

definition ParseRequestLine_log :: "string \<Rightarrow> log_record list" where
  "ParseRequestLine_log line =
     (case extract_word line of
        None \<Rightarrow> []
      | Some (m, s1) \<Rightarrow>
          (case extract_word s1 of
             None \<Rightarrow> []
           | Some (u, s2) \<Rightarrow>
               (case extract_word s2 of
                  None \<Rightarrow> []
                | Some (v, s3) \<Rightarrow>
                    if m \<notin> set kAllowedMethods then [(Sev_warning, ''Invalid request method: '' @ m)]
                    else if u = [] \<or> hd u \<noteq> CHR ''/'' then [(Sev_warning, ''Invalid URL: '' @ u)]
                    else if v \<noteq> ''HTTP/1.1'' then [(Sev_warning, ''Invalid HTTP version: '' @ v)]
                    else [])))"

definition ParseHeaderLine_log :: "string \<Rightarrow> log_record list" where
  "ParseHeaderLine_log line =
     (if str_find '':'' line = None then [(Sev_warning, ''Invalid header line: '' @ line)] else [])"

function ParseHeaders_log :: "string \<Rightarrow> log_record list" where
  "ParseHeaders_log stream =
     (case getline LF stream of
        None \<Rightarrow> []
      | Some (line, stream') \<Rightarrow>
          if line = [CR] then []
          else (let line' = strip_cr line
                in if line' = [] then [] else ParseHeaderLine_log line' @ ParseHeaders_log stream'))"
  by pat_completeness auto
termination
  by (relation "measure length") (auto dest: getline_shorter)

declare ParseHeaders_log.simps [simp del]

definition RequestParser_Parse_log :: "string \<Rightarrow> log_record list" where
  "RequestParser_Parse_log buf =
     (Sev_info, ''Parsing request buffer of size '' @ dec_nat (length buf)) #
     (case str_find CRLFCRLF buf of
        None \<Rightarrow> [(Sev_info, ''Incomplete request, waiting for more data.'')]
      | Some header_end \<Rightarrow>
          (case getline LF buf of
             None \<Rightarrow> [(Sev_warning, ''Failed to get request line from buffer.'')]
           | Some (line, stream) \<Rightarrow>
               (let line' = strip_cr line; body_start = header_end + 4 in
                ParseRequestLine_log line' @
                (if \<not> fst (ParseRequestLine line' (fresh_request True))
                 then [(Sev_warning, ''Failed to parse request line: '' @ line')]
                 else ParseHeaders_log stream
                   @ (if body_start < length buf
                      then [(Sev_info, ''Request has body of size '' @ dec_nat (length (drop body_start buf)))]
                      else [])
                   @ [(Sev_info, ''Successfully parsed a complete request.'')]))))"

text \<open>The dispatcher and the registry, \<^verbatim>\<open>src/request_dispatcher.cc\<close> and \<^verbatim>\<open>src/handler_registry.cc\<close>.\<close>

definition GetFactory_log :: "factories \<Rightarrow> string \<Rightarrow> log_record list" where
  "GetFactory_log reg p =
     (if reg p = None then [(Sev_warning, ''HandlerRegistry: No factory found for path '' @ [CHR 0x27] @ p @ [CHR 0x27])] else [])"

definition CreateHandler_log :: "factories \<Rightarrow> LocationConfig list \<Rightarrow> string \<Rightarrow> log_record list" where
  "CreateHandler_log reg locs url_path =
     (case FindBestMatch locs url_path of
        None \<Rightarrow> [(Sev_warning, ''No handler found for URL: '' @ url_path @ '', using NotFoundHandler'')]
      | Some matched_location \<Rightarrow>
          GetFactory_log reg (path matched_location) @
          (if GetFactory reg (path matched_location) = None
           then [(Sev_error, ''Factory not found for path: '' @ path matched_location @ '', using NotFoundHandler'')]
           else []))"

text \<open>The static handler, \<^verbatim>\<open>src/request_handler_file.cc\<close>; the other handlers log nothing.\<close>

definition File_handle_request_log :: "filesystem \<Rightarrow> string \<Rightarrow> string \<Rightarrow> request \<Rightarrow> log_record list" where
  "File_handle_request_log fs base_dir url_prefix req =
     (let url_path = relative_path url_prefix (url req);
          requested_path = fs_join fs base_dir url_path
      in (Sev_info, ''FileHandler: base_dir='' @ base_dir @ '', url_path='' @ url_path @ '', requested_path='' @ requested_path) #
         (case fs_exists fs requested_path of
            None \<Rightarrow> []
          | Some False \<Rightarrow> [(Sev_warning, ''File does not exist: '' @ requested_path)]
          | Some True \<Rightarrow>
              (case (fs_canonical fs requested_path, fs_canonical fs base_dir) of
                 (Some requested_str, Some base_str) \<Rightarrow>
                   [(Sev_info, ''FileHandler: canonical requested_path='' @ requested_str @ '', canonical base_dir='' @ base_str)]
               | _ \<Rightarrow> [])))"

definition handle_request_log :: "outside \<Rightarrow> RequestHandler \<Rightarrow> request \<Rightarrow> log_record list" where
  "handle_request_log w h req =
     (case h of FileRequestHandler base_dir url_prefix \<Rightarrow> File_handle_request_log (o_fs w) base_dir url_prefix req | _ \<Rightarrow> [])"

text \<open>The builder, \<^verbatim>\<open>src/response_builder.cc\<close>: one record for the one response a handler builds, last.\<close>

definition FormatResponse_log :: "response \<Rightarrow> log_record list" where
  "FormatResponse_log resp =
     [(Sev_info, ''Building response with status: '' @ status_code resp @ '', Content-Type: '' @ content_type resp)]"

section \<open>All records of a read\<close>

text \<open>The records up to the response, and \<open>handle_read\<close>. An exception or an endless handler ends the list.\<close>

definition answer_log :: "outside \<Rightarrow> site \<Rightarrow> session \<Rightarrow> request \<Rightarrow> stores \<Rightarrow> log_record list" where
  "answer_log w site s req st =
     (if \<not> is_valid req then []
      else CreateHandler_log (site_factories site) (site_locations site) (url req) @
        (case CreateHandler (site_factories site) (site_locations site) (url req) of
           Done h \<Rightarrow> handle_request_log w h req
         | _ \<Rightarrow> []))
     @ (case answer w site s req st of
          Done (resp, line, st') \<Rightarrow> FormatResponse_log resp @ (Sev_info, line) # SendResponse_log s
        | _ \<Rightarrow> [])"

definition handle_read_log ::
  "outside \<Rightarrow> site \<Rightarrow> bool \<Rightarrow> string option option \<Rightarrow> string \<Rightarrow> session \<Rightarrow> stores \<Rightarrow> log_record list" where
  "handle_read_log w site garbage error data s st =
     (case error of
        Some err \<Rightarrow> disconnect_log s err
      | None \<Rightarrow>
          (let s1 = s\<lparr>request_buffer := request_buffer s @ data\<rparr> in
           request_log s1 @ RequestParser_Parse_log (request_buffer s1) @
           (case RequestParser_Parse (request_buffer s1) (fresh_request garbage) of
              (False, _) \<Rightarrow> StartAsyncRead_log True
            | (True, req) \<Rightarrow> answer_log w site s1 req st)))"

text \<open>\<^verbatim>\<open>server::handle_accept\<close>, \<^verbatim>\<open>src/server.cc\<close>: the client of the accepted socket, or the text of the error.\<close>

definition handle_accept_log :: "string + string \<times> int \<Rightarrow> log_record list" where
  "handle_accept_log result =
     (case result of
        Inl msg \<Rightarrow> [(Sev_warning, ''Error handling accept: '' @ msg)]
      | Inr (address, port_number) \<Rightarrow>
          [(Sev_info, ''Successfully accepted connection from '' @ address @ '':'' @ dec_int port_number)])"

definition handle_write_log :: "session \<Rightarrow> bool \<Rightarrow> log_record list" where
  "handle_write_log s error =
     (Sev_debug, ''Handling write operation for client '' @ client s)
     # (if \<not> error then StartAsyncRead_log True else HandleError_log s)"

section \<open>Lines and fields\<close>

fun split_at :: "char \<Rightarrow> string \<Rightarrow> string list" where
  "split_at c [] = [[]]"
| "split_at c (x # xs) =
     (if x = c then [] # split_at c xs
      else (case split_at c xs of [] \<Rightarrow> [[x]] | w # ws \<Rightarrow> (x # w) # ws))"

lemma split_at_word: "c \<notin> set w \<Longrightarrow> split_at c w = [w]"
  by (induction w) auto

lemma split_at_append: "c \<notin> set w \<Longrightarrow> split_at c (w @ c # s) = w # split_at c s"
  by (induction w) auto

lemma split_at_first:
  "c \<notin> set w \<Longrightarrow> \<exists>vs. split_at c (a @ c # w @ c # b) = takeWhile (\<lambda>x. x \<noteq> c) a # vs \<and> w \<in> set vs"
  by (induction a) (auto simp: split_at_append)

lemma split_at_middle: "c \<notin> set w \<Longrightarrow> w \<in> set (split_at c (a @ c # w @ c # b))"
  using split_at_first [of c w a b] by auto

lemma not_space_chars: "\<not> isspace c \<Longrightarrow> c \<noteq> SPACE \<and> c \<noteq> LF"
  by (auto simp: isspace_def code_def)

lemma no_space_sets: "\<forall>c\<in>set w. \<not> isspace c \<Longrightarrow> SPACE \<notin> set w \<and> LF \<notin> set w"
  using not_space_chars by blast

lemma status_words:
  assumes "st \<in> set statuses"
  shows "\<exists>code reason. st = code @ SPACE # reason \<and> SPACE \<notin> set code \<and> LF \<notin> set code
    \<and> str_find '' '' st = Some (length code)"
proof -
  have "SPACE \<in> set st" "LF \<notin> set st" using assms by (auto simp: statuses_def)
  moreover from split_list_first [OF this(1)] obtain code reason where
    "st = code @ SPACE # reason" "SPACE \<notin> set code" by blast
  ultimately show ?thesis using str_find_char_append [of SPACE code reason] by auto
qed

lemma handler_name_word: "SPACE \<notin> set (GetHandlerName h) \<and> LF \<notin> set (GetHandlerName h)"
  by (auto simp: GetHandlerName_def split: RequestHandler.split)

lemma parsed_url:
  assumes "RequestParser_Parse buf (fresh_request g) = (True, req)"
  shows "if is_valid req then \<forall>c\<in>set (url req). \<not> isspace c else url req = []"
proof (cases "is_valid req")
  case True
  from RequestParser_valid [OF assms True] True show ?thesis by (simp add: wf_target_def list_all_iff)
next
  case False
  with assms show ?thesis
    by (auto simp: RequestParser_Parse_eq fresh_request_def split: option.splits)
qed

text \<open>A metrics line of words is five words.\<close>

lemma metrics_words:
  assumes "status_code resp \<in> set statuses" "SPACE \<notin> set p" "LF \<notin> set p" "SPACE \<notin> set (ip s)" "LF \<notin> set (ip s)"
    and "SPACE \<notin> set n" "LF \<notin> set n"
  shows "\<exists>code reason. status_code resp = code @ SPACE # reason \<and> SPACE \<notin> set code
    \<and> split_at SPACE (LogResponseMetrics s resp p n)
        = [''[ResponseMetrics]'', ''response_code=\"'' @ code @ ''\"'', ''request_path=\"'' @ p @ ''\"'',
           ''request_ip=\"'' @ ip s @ ''\"'', ''handler_name=\"'' @ n @ ''\"'']
    \<and> LF \<notin> set (LogResponseMetrics s resp p n)"
proof -
  from status_words [OF assms(1)] obtain code reason where
    c: "status_code resp = code @ SPACE # reason" "SPACE \<notin> set code" "LF \<notin> set code"
      "str_find '' '' (status_code resp) = Some (length code)" by blast
  have line: "LogResponseMetrics s resp p n = ''[ResponseMetrics]'' @ SPACE # (''response_code=\"'' @ code @ ''\"'') @ SPACE
      # (''request_path=\"'' @ p @ ''\"'') @ SPACE # (''request_ip=\"'' @ ip s @ ''\"'') @ SPACE
      # (''handler_name=\"'' @ n @ ''\"'')"
    using c by (simp add: LogResponseMetrics_def)
  have "split_at SPACE (LogResponseMetrics s resp p n)
        = [''[ResponseMetrics]'', ''response_code=\"'' @ code @ ''\"'', ''request_path=\"'' @ p @ ''\"'',
           ''request_ip=\"'' @ ip s @ ''\"'', ''handler_name=\"'' @ n @ ''\"'']"
    unfolding line by (subst split_at_append, use assms c in simp)+ (simp add: split_at_word assms c)
  moreover have "LF \<notin> set (LogResponseMetrics s resp p n)"
    unfolding line using assms c by simp
  ultimately show ?thesis using c by blast
qed

text \<open>\<^verbatim>\<open>../logs\<close>, whatever \<^verbatim>\<open>name\<close> says: the log directory is beside the working directory.\<close>

lemma parent_path_child:
  assumes "CHR ''/'' \<notin> set d"
  shows "parent_path (p @ ''/'' @ d) = (if p = [] then ''/'' else p)"
proof -
  have "dropWhile (\<lambda>c. c \<noteq> CHR ''/'') (rev d @ CHR ''/'' # rev p) = CHR ''/'' # rev p"
    using assms by (subst dropWhile_append2) auto
  then show ?thesis by (simp add: parent_path_def)
qed

lemma main_log_sinks:
  assumes "main_log make_dirs cwd = Done core"
  shows "common_attributes core" "\<forall>sink\<in>set (sinks core). sink_format sink = log_format"
    "map sink_target (sinks core) = [Console_clog, Log_file (path_append (path_append (parent_path cwd) ''logs'') ''%Y%m%d.log'')]"
  using assms
  by (auto simp: main_log_def writeLogToFile_def writeLogToConsole_def no_log_def Let_def split: if_splits)

lemma main_log_file:
  assumes "CHR ''/'' \<notin> set d" "p \<noteq> []" "p \<noteq> ''/''" "make_dirs (p @ ''/logs'')"
  shows "\<exists>core. main_log make_dirs (p @ ''/'' @ d) = Done core
    \<and> map sink_target (sinks core) = [Console_clog, Log_file (p @ ''/logs/%Y%m%d.log'')]"
proof -
  have "path_append (parent_path (p @ ''/'' @ d)) ''logs'' = p @ ''/logs''"
    using assms(1-3) by (simp add: parent_path_child [OF assms(1), simplified] path_append_def)
  with assms(2-4) show ?thesis
    by (cases p) (auto simp: main_log_def writeLogToFile_def writeLogToConsole_def no_log_def Let_def path_append_def)
qed

lemma answer_metrics:
  assumes "RequestParser_Parse buf (fresh_request g) = (True, req)"
    and "answer w site s req st = Done (resp, line, st')" "\<forall>c\<in>set (ip s). \<not> isspace c"
  shows "\<exists>code reason name. status_code resp = code @ SPACE # reason \<and> SPACE \<notin> set code
    \<and> split_at SPACE line
        = [''[ResponseMetrics]'', ''response_code=\"'' @ code @ ''\"'',
           ''request_path=\"'' @ (if is_valid req then url req else ''<unknown>'') @ ''\"'',
           ''request_ip=\"'' @ ip s @ ''\"'', ''handler_name=\"'' @ name @ ''\"'']
    \<and> LF \<notin> set line
    \<and> (if is_valid req then \<exists>h. CreateHandler (site_factories site) (site_locations site) (url req) = Done h
         \<and> name = GetHandlerName h else name = ''BadRequest'')"
proof -
  note u = parsed_url [OF assms(1)]
  note ip_ok = no_space_sets [OF assms(3)]
  have st: "status_code resp \<in> set statuses" using answer_wf [OF assms(2)] by (simp add: wf_response_def)
  show ?thesis
  proof (cases "is_valid req")
    case True
    with assms(2) obtain h where h: "CreateHandler (site_factories site) (site_locations site) (url req) = Done h"
      "line = LogResponseMetrics s resp (url req) (GetHandlerName h)"
      by (auto simp: answer_def split: outcome.splits)
    have "SPACE \<notin> set (url req) \<and> LF \<notin> set (url req)" using u True no_space_sets by simp
    with metrics_words [OF st _ _ _ _ conjunct1 conjunct2, of "url req" s, OF _ _ _ _ handler_name_word handler_name_word]
      ip_ok h True show ?thesis by auto
  next
    case False
    with assms(2) u have line: "line = LogResponseMetrics s resp ''<unknown>'' ''BadRequest''"
      by (auto simp: answer_def Let_def)
    have "SPACE \<notin> set ''<unknown>'' \<and> LF \<notin> set ''<unknown>'' \<and> SPACE \<notin> set ''BadRequest'' \<and> LF \<notin> set ''BadRequest''" by simp
    with metrics_words [OF st, of "''<unknown>''" s "''BadRequest''"] ip_ok line False show ?thesis by auto
  qed
qed

text \<open>
  Apart from the record with the bytes of the request, which can have any number of lines, the
  records of a read are one line each, unless the static handler is asked, whose records hold
  what the file system calls its paths.
\<close>

definition one_line :: "log_record \<Rightarrow> bool" where
  "one_line r \<longleftrightarrow> LF \<notin> set (snd r)"

lemma dec_nat_line: "LF \<notin> set (dec_nat n)"
  by (auto dest!: dec_nat_digits simp: isdigit_def code_def)

lemma dec_int_line: "LF \<notin> set (dec_int i)"
  by (simp add: dec_int_def dec_nat_line)

lemma client_line: "LF \<notin> set (ip s) \<Longrightarrow> LF \<notin> set (client s)"
  by (simp add: client_def dec_int_line)

lemma word_line: "extract_word s = Some (w, r) \<Longrightarrow> LF \<notin> set w"
  using extract_wordD no_space_sets by blast

lemma strip_cr_line: "LF \<notin> set line \<Longrightarrow> LF \<notin> set (strip_cr line)"
  by (auto simp: strip_cr_def dest: in_set_butlastD)

lemma ParseHeaders_log_lines: "list_all one_line (ParseHeaders_log stream)"
proof (induction stream rule: ParseHeaders_log.induct)
  case (1 stream)
  show ?case
  proof (cases "getline LF stream")
    case None
    then show ?thesis by (simp add: ParseHeaders_log.simps [of stream])
  next
    case (Some p)
    obtain line stream' where p: "p = (line, stream')" by fastforce
    have "LF \<notin> set (strip_cr line)" using getline_SomeD(1) [OF Some [unfolded p]] by (rule strip_cr_line)
    then have "list_all one_line (ParseHeaderLine_log (strip_cr line))" by (simp add: ParseHeaderLine_log_def one_line_def)
    with 1 Some p show ?thesis by (simp add: ParseHeaders_log.simps [of stream] Let_def)
  qed
qed

lemma RequestParser_Parse_log_lines: "list_all one_line (RequestParser_Parse_log buf)"
proof -
  have request_line: "list_all one_line (ParseRequestLine_log line)" for line
    by (auto simp: ParseRequestLine_log_def one_line_def dest: word_line split: option.split)
  have "LF \<notin> set (strip_cr line)" if "getline LF buf = Some (line, stream)" for line stream
    using getline_SomeD(1) [OF that] by (rule strip_cr_line)
  with request_line ParseHeaders_log_lines show ?thesis
    by (auto simp: RequestParser_Parse_log_def Let_def one_line_def dec_nat_line split: option.split)
qed

lemma answer_log_lines:
  assumes "RequestParser_Parse buf (fresh_request g) = (True, req)" "\<forall>c\<in>set (ip s). \<not> isspace c"
    and "\<forall>l\<in>set (site_locations site). LF \<notin> set (path l)"
    and "\<nexists>base pre. CreateHandler (site_factories site) (site_locations site) (url req) = Done (FileRequestHandler base pre)"
  shows "list_all one_line (answer_log w site s req st)"
proof -
  have u: "LF \<notin> set (url req)" using parsed_url [OF assms(1)] no_space_sets by (cases "is_valid req") auto
  have found: "FindBestMatch locs x = Some l \<Longrightarrow> l \<in> set locs" for locs x l
    by (rule FindBestMatch_SomeD(1))
  have create: "list_all one_line (CreateHandler_log (site_factories site) (site_locations site) (url req))"
    using u assms(3) by (auto simp: CreateHandler_log_def GetFactory_log_def one_line_def dest: found split: option.split)
  have handler: "list_all one_line (case CreateHandler (site_factories site) (site_locations site) (url req) of
      Done h \<Rightarrow> handle_request_log w h req | _ \<Rightarrow> [])"
    using assms(4) by (auto simp: handle_request_log_def split: outcome.split RequestHandler.split)
  have "list_all one_line (FormatResponse_log resp @ (Sev_info, line) # SendResponse_log s)"
    if "answer w site s req st = Done (resp, line, st')" for resp line st'
  proof -
    have "LF \<notin> set line" using answer_metrics [OF assms(1) that assms(2)] by blast
    moreover have "LF \<notin> set (status_code resp)" "LF \<notin> set (content_type resp)"
      using answer_wf [OF that] by (auto simp: wf_response_def statuses_def)
    moreover have "LF \<notin> set (client s)" using no_space_sets [OF assms(2)] by (intro client_line) simp
    ultimately show ?thesis by (simp add: one_line_def FormatResponse_log_def SendResponse_log_def)
  qed
  with create handler show ?thesis by (auto simp: answer_log_def split: outcome.split)
qed

lemma other_records_one_line:
  assumes "\<forall>c\<in>set (ip s). \<not> isspace c" "\<forall>l\<in>set (site_locations site). LF \<notin> set (path l)"
    and "\<nexists>u base pre. CreateHandler (site_factories site) (site_locations site) u = Done (FileRequestHandler base pre)"
  shows "list_all one_line (tl (handle_read_log w site g None data s st))"
proof -
  let ?s1 = "s\<lparr>request_buffer := request_buffer s @ data\<rparr>"
  have "list_all one_line (answer_log w site ?s1 req st)"
    if "RequestParser_Parse (request_buffer s @ data) (fresh_request g) = (True, req)" for req
    by (rule answer_log_lines [OF that]) (use assms in auto)
  then show ?thesis
    using RequestParser_Parse_log_lines
    by (auto simp: handle_read_log_def request_log_def StartAsyncRead_log_def one_line_def dec_nat_line Let_def
        split: prod.split bool.split)
qed

section \<open>Properties\<close>



text \<open>
  C31: what a client sends can stand in the log as a line of its own. The session
  logs the bytes it has received as they are, line feeds included: whoever sends a line feed,
  a text and a line feed has that text as a whole line in the file and on the console, be it
  a record with any time, severity and message, or a metrics line.
\<close>

theorem Log_forging:
  assumes "main_log make_dirs cwd = Done core" "sink \<in> set (sinks core)" "LF \<notin> set forged"
    and "records = handle_read_log w site g None ([LF] @ forged @ [LF]) s st"
    and "length stamps = length records"
  shows "forged \<in> set (split_at LF (sink_text sink (zip stamps records)))"
proof -
  have fmt: "sink_format sink = log_format" using main_log_sinks(2) [OF assms(1)] assms(2) by blast
  let ?s1 = "s\<lparr>request_buffer := request_buffer s @ [LF] @ forged @ [LF]\<rparr>"
  obtain rest where rec: "records = (Sev_info, ''Request from '' @ client ?s1 @ '' is '' @ request_buffer ?s1) # rest"
    using assms(4) by (simp add: handle_read_log_def Let_def request_log_def)
  with assms(5) obtain t th stamps' where st: "stamps = (t, th) # stamps'" by (cases stamps) auto
  have "sink_text sink (zip stamps records)
      = (log_format t th (Sev_info, ''Request from '' @ client ?s1 @ '' is '' @ request_buffer s)) @ LF # forged @ LF
        # ([LF] @ sink_text sink (zip stamps' rest))"
    by (simp add: rec st sink_text_def fmt log_format_def)
  then show ?thesis using split_at_middle [OF assms(3)] by simp
qed

theorem Log_forging_witness:
  "\<exists>core records. main_log (\<lambda>_. True) ''/srv/build'' = Done core
     \<and> records = handle_read_log sample_outside sample_site True None
         ([LF] @ ''[now] [0x1] [info] Server initialization complete'' @ [LF]) new_session (\<lambda>_. [])
     \<and> (\<forall>sink\<in>set (sinks core). ''[now] [0x1] [info] Server initialization complete''
         \<in> set (split_at LF (sink_text sink (zip (replicate (length records) (''t'', ''0x2'')) records))))"
proof -
  obtain core where core: "main_log (\<lambda>_. True) ''/srv/build'' = Done core"
    using main_log_file [of "''build''" "''/srv''" "\<lambda>_. True"] by auto
  define forged where "forged = ''[now] [0x1] [info] Server initialization complete''"
  define records where "records = handle_read_log sample_outside sample_site True None
    ([LF] @ forged @ [LF]) new_session (\<lambda>_. [])"
  have f: "LF \<notin> set forged" by (simp add: forged_def)
  have len: "length (replicate (length records) (''t'', ''0x2'')) = length records" by simp
  have "\<forall>sink\<in>set (sinks core). forged \<in> set (split_at LF (sink_text sink (zip (replicate (length records) (''t'', ''0x2'')) records)))"
    using Log_forging [OF core _ f records_def len] by blast
  then show ?thesis using core records_def unfolding forged_def by blast
qed

end
