(* ===== verification/Config_Report.thy ===== *)
theory Config_Report
  imports Config_Parser
begin

text \<open>
  What the parser of \<^verbatim>\<open>src/config_parser.cc\<close> prints: the transition between tokens at which it
  gave up, by the names of the token types, or the name of a file it cannot open.
\<close>

definition TokenTypeAsString :: "TokenType \<Rightarrow> string" where
  "TokenTypeAsString type =
     (case type of
        TOKEN_TYPE_START \<Rightarrow> ''TOKEN_TYPE_START''
      | TOKEN_TYPE_NORMAL \<Rightarrow> ''TOKEN_TYPE_NORMAL''
      | TOKEN_TYPE_START_BLOCK \<Rightarrow> ''TOKEN_TYPE_START_BLOCK''
      | TOKEN_TYPE_END_BLOCK \<Rightarrow> ''TOKEN_TYPE_END_BLOCK''
      | TOKEN_TYPE_COMMENT \<Rightarrow> ''TOKEN_TYPE_COMMENT''
      | TOKEN_TYPE_STATEMENT_END \<Rightarrow> ''TOKEN_TYPE_STATEMENT_END''
      | TOKEN_TYPE_EOF \<Rightarrow> ''TOKEN_TYPE_EOF''
      | TOKEN_TYPE_ERROR \<Rightarrow> ''TOKEN_TYPE_ERROR''
      | TOKEN_TYPE_QUOTED_STRING \<Rightarrow> ''TOKEN_TYPE_QUOTED_STRING'')"

definition bad_transition :: "TokenType \<Rightarrow> TokenType \<Rightarrow> string" where
  "bad_transition last_type token_type =
     ''Bad transition from '' @ TokenTypeAsString last_type @ '' to '' @ TokenTypeAsString token_type @ [LF]"

text \<open>A closing brace without an open block is turned into \<^verbatim>\<open>TOKEN_TYPE_ERROR\<close>.\<close>

definition reported_type :: "parser_state \<Rightarrow> TokenType \<Rightarrow> TokenType" where
  "reported_type st token_type =
     (if token_type = TOKEN_TYPE_END_BLOCK
         \<and> (last_token_type st = TOKEN_TYPE_STATEMENT_END \<or> last_token_type st = TOKEN_TYPE_END_BLOCK)
         \<and> length (config_stack st) = 1
      then TOKEN_TYPE_ERROR else token_type)"

text \<open>The output of the loop of \<^verbatim>\<open>Parse\<close>: only a run that returns \<^verbatim>\<open>false\<close> prints.\<close>

function Parse_output :: "string \<Rightarrow> parser_state \<Rightarrow> string" where
  "Parse_output s st =
     (case ParseToken s of (token_type, token, s') \<Rightarrow>
        (case Parse_step st token_type token of
           Inl (Accepted _) \<Rightarrow> []
         | Inl _ \<Rightarrow> bad_transition (last_token_type st) (reported_type st token_type)
         | Inr st' \<Rightarrow> Parse_output s' st'))"
  by pat_completeness auto
termination
  by (relation "measure (\<lambda>(s, st). length s)") (simp, metis Parse_continues_shorter in_measure case_prod_conv)

declare Parse_output.simps [simp del]

definition Parse_file_output :: "(string \<rightharpoonup> string) \<Rightarrow> string \<Rightarrow> NginxConfig \<Rightarrow> string" where
  "Parse_file_output files file_name config =
     (case files file_name of
        None \<Rightarrow> ''Failed to open config file: '' @ file_name @ [LF]
      | Some config_file \<Rightarrow>
          Parse_output config_file \<lparr>config_stack = [statements config], last_token_type = TOKEN_TYPE_START\<rparr>)"

text \<open>Which token may come after which, comments left out.\<close>

definition may_follow :: "TokenType \<Rightarrow> TokenType \<Rightarrow> bool" where
  "may_follow last_type token_type \<longleftrightarrow>
     (case token_type of
        TOKEN_TYPE_NORMAL \<Rightarrow> last_type \<in> {TOKEN_TYPE_START, TOKEN_TYPE_STATEMENT_END, TOKEN_TYPE_START_BLOCK,
          TOKEN_TYPE_END_BLOCK, TOKEN_TYPE_NORMAL}
      | TOKEN_TYPE_STATEMENT_END \<Rightarrow> last_type = TOKEN_TYPE_NORMAL
      | TOKEN_TYPE_START_BLOCK \<Rightarrow> last_type = TOKEN_TYPE_NORMAL
      | TOKEN_TYPE_END_BLOCK \<Rightarrow> last_type \<in> {TOKEN_TYPE_STATEMENT_END, TOKEN_TYPE_END_BLOCK}
      | TOKEN_TYPE_EOF \<Rightarrow> last_type \<in> {TOKEN_TYPE_STATEMENT_END, TOKEN_TYPE_END_BLOCK}
      | _ \<Rightarrow> False)"

text \<open>The types that \<^verbatim>\<open>last_token_type\<close> takes.\<close>

definition kept_types :: "TokenType set" where
  "kept_types = {TOKEN_TYPE_START, TOKEN_TYPE_NORMAL, TOKEN_TYPE_START_BLOCK, TOKEN_TYPE_END_BLOCK,
     TOKEN_TYPE_STATEMENT_END}"

lemma Parse_step_kept:
  "last_token_type st \<in> kept_types \<Longrightarrow> Parse_step st ty tok = Inr st' \<Longrightarrow> last_token_type st' \<in> kept_types"
  by (auto simp: Parse_step_def kept_types_def Let_def split: list.splits if_splits)

lemma Parse_step_rejects:
  assumes "last_token_type st \<in> kept_types" "Parse_step st ty tok = Inl (Rejected c)"
  shows "reported_type st ty \<in> {TOKEN_TYPE_ERROR, TOKEN_TYPE_EOF} \<or> \<not> may_follow (last_token_type st) (reported_type st ty)"
  using assms
  by (cases ty)
    (auto simp: Parse_step_def reported_type_def may_follow_def kept_types_def Let_def CanFollowWithToken_def
      IsValidTokenPredecessor_def split: list.splits if_splits)

lemma Parse_output_loop:
  assumes "last_token_type st \<in> kept_types" "Parse_loop s st \<noteq> Undefined_behaviour"
  shows "case Parse_loop s st of
      Accepted _ \<Rightarrow> Parse_output s st = []
    | Rejected _ \<Rightarrow> \<exists>x y. Parse_output s st = bad_transition x y \<and> x \<in> kept_types
        \<and> (y \<in> {TOKEN_TYPE_ERROR, TOKEN_TYPE_EOF} \<or> \<not> may_follow x y)
    | Undefined_behaviour \<Rightarrow> False"
  using assms
proof (induction s st rule: Parse_output.induct)
  case (1 s st)
  obtain ty tok s' where tok: "ParseToken s = (ty, tok, s')" by (cases "ParseToken s")
  show ?case
  proof (cases "Parse_step st ty tok")
    case (Inr st')
    from "1.IH" [OF tok [symmetric] refl Inr] "1.prems" Parse_step_kept [OF _ Inr]
    have "case Parse_loop s' st' of
        Accepted _ \<Rightarrow> Parse_output s' st' = []
      | Rejected _ \<Rightarrow> \<exists>x y. Parse_output s' st' = bad_transition x y \<and> x \<in> kept_types
          \<and> (y \<in> {TOKEN_TYPE_ERROR, TOKEN_TYPE_EOF} \<or> \<not> may_follow x y)
      | Undefined_behaviour \<Rightarrow> False"
      using tok Inr by (simp add: Parse_loop.simps [of s])
    moreover have "Parse_loop s st = Parse_loop s' st'" "Parse_output s st = Parse_output s' st'"
      using tok Inr by (simp_all add: Parse_loop.simps [of s] Parse_output.simps [of s])
    ultimately show ?thesis by (simp only:)
  next
    case (Inl r)
    with tok have l: "Parse_loop s st = r" by (simp add: Parse_loop.simps [of s])
    show ?thesis
    proof (cases r)
      case (Rejected c)
      with l tok Inl "1.prems"(1) Parse_step_rejects [of st ty tok c] show ?thesis
        by (auto simp: Parse_output.simps [of s])
    qed (use l tok Inl "1.prems" in \<open>auto simp: Parse_output.simps [of s]\<close>)
  qed
qed

text \<open>
  The parser says what is wrong exactly when something is. It prints nothing
  for a file it accepts; for one that cannot be opened it prints the name; and for every
  other one a transition from the type of the last token it took to the type of the token
  it stopped at, which is an error token, the end of the file, or a token that may not
  come there.
\<close>

lemma Parse_report:
  "case files f of
     None \<Rightarrow> Parse_file files f (NginxConfig []) = Rejected (NginxConfig [])
       \<and> Parse_file_output files f (NginxConfig []) = ''Failed to open config file: '' @ f @ [LF]
   | Some s \<Rightarrow>
      (case Parse_file files f (NginxConfig []) of
         Accepted _ \<Rightarrow> Parse_file_output files f (NginxConfig []) = []
       | Rejected _ \<Rightarrow> \<exists>x y. Parse_file_output files f (NginxConfig []) = bad_transition x y
           \<and> x \<notin> {TOKEN_TYPE_COMMENT, TOKEN_TYPE_EOF, TOKEN_TYPE_ERROR, TOKEN_TYPE_QUOTED_STRING}
           \<and> (y \<in> {TOKEN_TYPE_ERROR, TOKEN_TYPE_EOF} \<or> \<not> may_follow x y)
       | Undefined_behaviour \<Rightarrow> False)"
proof (cases "files f")
  case (Some s)
  let ?st = "\<lparr>config_stack = [[]], last_token_type = TOKEN_TYPE_START\<rparr> :: parser_state"
  have "Parse_loop s ?st \<noteq> Undefined_behaviour" by (rule Parse_loop_defined [OF parser_inv_start])
  moreover have "last_token_type ?st \<in> kept_types" by (simp add: kept_types_def)
  ultimately have "case Parse_loop s ?st of
      Accepted _ \<Rightarrow> Parse_output s ?st = []
    | Rejected _ \<Rightarrow> \<exists>x y. Parse_output s ?st = bad_transition x y \<and> x \<in> kept_types
        \<and> (y \<in> {TOKEN_TYPE_ERROR, TOKEN_TYPE_EOF} \<or> \<not> may_follow x y)
    | Undefined_behaviour \<Rightarrow> False" by (intro Parse_output_loop)
  with Some show ?thesis
    by (cases "Parse_loop s ?st")
      (auto simp: Parse_file_def Parse_file_output_def Parse_def kept_types_def)
qed (simp add: Parse_file_def Parse_file_output_def)

end
