(* ===== verification/Startup_Log.thy ===== *)
theory Startup_Log
  imports Program Logging Config_Report
begin

text \<open>
  The log records of start-up: those of the configuration parser (\<^verbatim>\<open>src/config_parser.cc\<close>), of
  the extraction of the configuration (\<^verbatim>\<open>src/server_main_utils.cc\<close>), of the dispatcher
  (\<^verbatim>\<open>src/request_dispatcher.cc\<close>) and of \<^verbatim>\<open>main\<close> (\<^verbatim>\<open>src/server_main.cc\<close>), until the threads run; and
  which failures to start leave an error in the log.
\<close>

section \<open>The parser\<close>

definition bad_transition_log :: "TokenType \<Rightarrow> TokenType \<Rightarrow> log_record" where
  "bad_transition_log last_type token_type =
     (Sev_warning, ''Warning, bad transition from '' @ TokenTypeAsString last_type @ '' to '' @ TokenTypeAsString token_type)"

function Parse_log :: "string \<Rightarrow> parser_state \<Rightarrow> log_record list" where
  "Parse_log s st =
     (case ParseToken s of (token_type, token, s') \<Rightarrow>
        (case Parse_step st token_type token of
           Inl (Accepted _) \<Rightarrow> []
         | Inl _ \<Rightarrow> [bad_transition_log (last_token_type st) (reported_type st token_type)]
         | Inr st' \<Rightarrow> Parse_log s' st'))"
  by pat_completeness auto
termination
  by (relation "measure (\<lambda>(s, st). length s)") (simp, metis Parse_continues_shorter in_measure case_prod_conv)

declare Parse_log.simps [simp del]

definition Parse_file_log :: "(string \<rightharpoonup> string) \<Rightarrow> string \<Rightarrow> NginxConfig \<Rightarrow> log_record list" where
  "Parse_file_log files file_name config =
     (case files file_name of
        None \<Rightarrow> [(Sev_error, ''Error opening config file: '' @ file_name)]
      | Some config_file \<Rightarrow>
          Parse_log config_file \<lparr>config_stack = [statements config], last_token_type = TOKEN_TYPE_START\<rparr>
          @ (case Parse config_file config of
               Accepted _ \<Rightarrow> [(Sev_info, ''Config file parsing succeeded: '' @ file_name)]
             | Rejected _ \<Rightarrow> [(Sev_error, ''Config file parsing failed: '' @ file_name)]
             | Undefined_behaviour \<Rightarrow> []))"

section \<open>The configuration\<close>

definition RegisterHandlerForLocation_log :: "LocationConfig \<Rightarrow> log_record list" where
  "RegisterHandlerForLocation_log location =
     (if handler_name location = [] then []
      else (case location_factory location of
              None \<Rightarrow> [(Sev_warning, ''Unknown handler name: '' @ handler_name location @ '' for path: '' @ path location)]
            | Some factory \<Rightarrow> []))"

definition location_record :: "LocationConfig \<Rightarrow> log_record" where
  "location_record l = (Sev_info, ''Extracted location: '' @ path l @ '' -> '' @ handler_name l)"

definition listen_record :: "cshort \<Rightarrow> log_record" where
  "listen_record p = (Sev_info, ''Extracted listen port: '' @ dec_int (sint p))"

text \<open>The records of one directive of the server block.\<close>

definition server_directive_log :: "NginxConfigStatement \<Rightarrow> log_record list" where
  "server_directive_log server_stmt =
     (if length (tokens server_stmt) \<ge> 2 \<and> tokens server_stmt ! 0 = ''listen''
      then [listen_record (ucast (atoi (tokens server_stmt ! 1)))]
      else if length (tokens server_stmt) \<ge> 2 \<and> tokens server_stmt ! 0 = ''location'' then
        (case child_block server_stmt of
           None \<Rightarrow> []
         | Some block \<Rightarrow>
             (let location = read_location (tokens server_stmt ! 1) block in
              if handler_name location \<noteq> [] then
                RegisterHandlerForLocation_log location
                @ (if fst (RegisterHandlerForLocation location (\<lambda>_. None)) then [location_record location] else [])
              else []))
      else [])"

definition ExtractServerConfig_log :: "NginxConfig \<Rightarrow> log_record list" where
  "ExtractServerConfig_log config =
     (case server_block (statements config) of
        None \<Rightarrow> []
      | Some block \<Rightarrow> concat (map server_directive_log (statements block)))"

definition InitFromServerConfig_log :: "ServerConfig \<Rightarrow> log_record list" where
  "InitFromServerConfig_log server_config =
     (Sev_info, ''Initializing request dispatcher from server config'') #
     (if locations server_config = [] then [(Sev_warning, ''No location blocks found in server config'')]
      else [(Sev_info, ''Dispatcher initialized with '' @ dec_nat (length (locations server_config)) @ '' locations'')])"

definition initialize_dispatcher_log :: "ServerConfig \<Rightarrow> log_record list" where
  "initialize_dispatcher_log server_config =
     InitFromServerConfig_log server_config @
     (case InitFromServerConfig server_config of
        None \<Rightarrow> [(Sev_error, ''Failed to initialize request dispatcher'')]
      | Some d \<Rightarrow> [(Sev_info, ''Request dispatcher initialized successfully with ''
           @ dec_nat (length (locations server_config)) @ '' routes'')])"

definition initialize_from_args_log ::
  "(string \<rightharpoonup> string) \<Rightarrow> int \<Rightarrow> string list \<Rightarrow> cshort \<Rightarrow> factories \<Rightarrow> log_record list" where
  "initialize_from_args_log files argc argv default_port reg =
     (if \<not> validate_arguments argc then [(Sev_error, ''Error: invalid arguments'')]
      else Parse_file_log files (argv ! 1) (NginxConfig []) @
        (case load_config_from_file files (argv ! 1) (Some (NginxConfig [])) of
           Some (Accepted config) \<Rightarrow>
             (case ExtractServerConfig config default_port reg of
                (server_config, reg') \<Rightarrow>
                  ExtractServerConfig_log config
                  @ [(Sev_info, ''Extracted server config: port='' @ dec_int (sint (port server_config))
                       @ '', locations='' @ dec_nat (length (locations server_config)))]
                  @ initialize_dispatcher_log server_config
                  @ (case initialize_dispatcher server_config of
                       None \<Rightarrow> [(Sev_error, ''Failed to initialize request dispatcher'')]
                     | Some d \<Rightarrow> [(Sev_info, ''Server initialization complete'')]))
         | Some Undefined_behaviour \<Rightarrow> []
         | _ \<Rightarrow> [(Sev_error, ''Error: cannot load config file'')]))"

section \<open>main\<close>

definition caught_log :: "string \<Rightarrow> log_record" where
  "caught_log what = (Sev_error, ''Caught error: '' @ what)"

definition run_threads_log :: "host \<Rightarrow> log_record list" where
  "run_threads_log h =
     (let thread_count = hardware_concurrency h in
      (Sev_info, ''Creating a thread pool with '' @ dec_nat thread_count @ '' threads.'') #
      (case find (\<lambda>i. thread_error h i \<noteq> None) [0..<thread_count] of
         Some i \<Rightarrow> (if i = 0 then [caught_log (the (thread_error h i))] else [])
       | None \<Rightarrow> []))"

text \<open>Everything that is logged until the threads run, or until \<^verbatim>\<open>main\<close> returns without them.\<close>

definition main_startup_log :: "host \<Rightarrow> (string \<rightharpoonup> string) \<Rightarrow> int \<Rightarrow> string list \<Rightarrow> log_record list" where
  "main_startup_log h files argc argv =
     (case console_log_error h of
        Some what \<Rightarrow> [caught_log what]
      | None \<Rightarrow>
        (case file_log_error h of
           Some what \<Rightarrow> [caught_log what]
         | None \<Rightarrow>
             initialize_from_args_log files argc argv 8080 (\<lambda>_. None) @
             (case initialize_from_args files argc argv 8080 (\<lambda>_. None) of
                None \<Rightarrow> []
              | Some (init_result, reg, err) \<Rightarrow>
                  if \<not> init_is_valid init_result then []
                  else
                    (case signals_error h of
                       Some what \<Rightarrow> [caught_log what]
                     | None \<Rightarrow>
                       (case listen_error h (init_port init_result) of
                          Some what \<Rightarrow> [caught_log what]
                        | None \<Rightarrow>
                            (Sev_info, ''Server is listening on port: '' @ dec_int (sint (init_port init_result)))
                            # run_threads_log h)))))"

text \<open>The handler of the signal set.\<close>

definition on_signal_log :: "bool \<Rightarrow> log_record list" where
  "on_signal_log errorCode =
     (if \<not> errorCode then [(Sev_info, ''Terminating since received Ctrl + C:'')] else [])"

section \<open>Errors in the log\<close>

definition logs_error :: "log_record list \<Rightarrow> bool" where
  "logs_error rs \<longleftrightarrow> list_ex (\<lambda>r. fst r = Sev_error) rs"

lemma logs_error_simps [simp]:
  "logs_error [] = False" "logs_error (r # rs) = (fst r = Sev_error \<or> logs_error rs)"
  "logs_error (rs @ rs') = (logs_error rs \<or> logs_error rs')"
  by (simp_all add: logs_error_def)

lemma logs_error_concat: "logs_error (concat rss) = (\<exists>rs\<in>set rss. logs_error rs)"
  by (induction rss) auto

lemma Parse_log_warns: "\<not> logs_error (Parse_log s st)"
proof (induction s st rule: Parse_log.induct)
  case (1 s st)
  then show ?case
    by (subst Parse_log.simps)
      (auto simp: bad_transition_log_def split: prod.splits sum.splits parse_result.splits)
qed

lemma server_directive_log_info: "\<not> logs_error (server_directive_log stm)"
  by (auto simp: server_directive_log_def RegisterHandlerForLocation_log_def location_record_def listen_record_def Let_def
      split: option.split)

lemma ExtractServerConfig_log_info: "\<not> logs_error (ExtractServerConfig_log c)"
  using server_directive_log_info by (simp add: ExtractServerConfig_log_def logs_error_concat split: option.split)

text \<open>\<^verbatim>\<open>initialize_from_args\<close> logs an error exactly when it writes to the error stream.\<close>

lemma initialize_log_error:
  assumes "initialize_from_args files argc argv default_port reg = Some (r, reg', err)"
  shows "logs_error (initialize_from_args_log files argc argv default_port reg) \<longleftrightarrow> err \<noteq> []"
proof (cases "argc = 2 \<and> (\<exists>s c. files (argv ! 1) = Some s \<and> Parse s (NginxConfig []) = Accepted c)")
  case False
  then show ?thesis
    using assms Parse_defined
    by (auto simp: initialize_from_args_def initialize_from_args_log_def validate_arguments_def load_config_from_file_def
        Parse_file_def Parse_file_log_def split: option.splits parse_result.splits)
next
  case True
  then obtain s c where c: "argc = 2" "files (argv ! 1) = Some s" "Parse s (NginxConfig []) = Accepted c" by blast
  obtain cfg reg1 where x: "ExtractServerConfig c default_port reg = (cfg, reg1)" by fastforce
  have "logs_error (initialize_from_args_log files argc argv default_port reg) \<longleftrightarrow> locations cfg = []"
    using c x Parse_log_warns ExtractServerConfig_log_info
    by (simp add: initialize_from_args_log_def validate_arguments_def load_config_from_file_def Parse_file_def
        Parse_file_log_def initialize_dispatcher_log_def initialize_dispatcher_def InitFromServerConfig_def
        InitFromServerConfig_log_def)
  moreover have "err \<noteq> [] \<longleftrightarrow> locations cfg = []"
    using initialize_accepted [where files = files and argv = argv, OF c x] assms by (auto split: if_splits)
  ultimately show ?thesis by blast
qed

section \<open>Locations in the log\<close>

text \<open>The locations that the log says were extracted.\<close>

definition logged_locations :: "log_record list \<Rightarrow> log_record list" where
  "logged_locations rs = filter (\<lambda>r. prefix ''Extracted location: '' (snd r)) rs"

lemma logged_locations_simps [simp]:
  "logged_locations [] = []" "logged_locations (rs @ rs') = logged_locations rs @ logged_locations rs'"
  "logged_locations ((sev, msg) # rs) = (if prefix ''Extracted location: '' msg then [(sev, msg)] else []) @ logged_locations rs"
  by (simp_all add: logged_locations_def)

lemma server_directive_logged:
  "locations (fst (server_directive stm x)) = locations (fst x) @ ls \<Longrightarrow>
    logged_locations (server_directive_log stm) = map location_record ls"
  by (cases x; cases "location_factory (read_location (tokens stm ! 1) (the (child_block stm)))")
    (auto simp: server_directive_def server_directive_log_def RegisterHandlerForLocation_def RegisterHandlerForLocation_log_def
      location_record_def listen_record_def Let_def split: option.splits if_splits)

lemma server_directive_extends: "\<exists>ls. locations (fst (server_directive stm x)) = locations (fst x) @ ls"
  by (cases x) (auto simp: server_directive_def Let_def split: option.split bool.split prod.split)

lemma directives_logged:
  "locations (fst (fold server_directive stms x)) = locations (fst x) @ ls \<Longrightarrow>
    logged_locations (concat (map server_directive_log stms)) = map location_record ls"
proof (induction stms arbitrary: x ls)
  case (Cons stm stms)
  obtain ls1 where 1: "locations (fst (server_directive stm x)) = locations (fst x) @ ls1"
    using server_directive_extends by blast
  have ext: "\<exists>ls. locations (fst (fold server_directive stms y)) = locations (fst y) @ ls" for y
    by (induction stms arbitrary: y) (simp, metis append.assoc fold_simps(2) server_directive_extends)
  then obtain ls2 where 2: "locations (fst (fold server_directive stms (server_directive stm x)))
      = locations (fst (server_directive stm x)) @ ls2" by blast
  with Cons.prems 1 have "ls = ls1 @ ls2" by simp
  with server_directive_logged [OF 1] Cons.IH [OF 2] show ?case by simp
qed simp

lemma extracted_logged:
  "logged_locations (ExtractServerConfig_log c) = map location_record (locations (fst (ExtractServerConfig c p reg)))"
  using directives_logged [of _ "(\<lparr>port = p, locations = []\<rparr>, reg)"]
  by (auto simp: ExtractServerConfig_log_def ExtractServerConfig_def split: option.split)

section \<open>Properties\<close>

lemma valid_no_error:
  assumes "initialize_from_args files argc argv default_port reg = Some (r, reg', err)" "init_is_valid r"
  shows "err = []"
proof (cases "argc = 2 \<and> (\<exists>s c. files (argv ! 1) = Some s \<and> Parse s (NginxConfig []) = Accepted c)")
  case False
  with initialize_refused [of argc files argv default_port reg] assms show ?thesis
    by (auto simp: init_is_valid_def invalid_result_def)
next
  case True
  then obtain s c where c: "argc = 2" "files (argv ! 1) = Some s" "Parse s (NginxConfig []) = Accepted c" by blast
  obtain cfg reg1 where x: "ExtractServerConfig c default_port reg = (cfg, reg1)" by fastforce
  from initialize_accepted [where files = files and argv = argv, OF c x] assms show ?thesis
    by (auto simp: init_is_valid_def invalid_result_def split: if_splits)
qed

lemma started_log:
  assumes "initialize_from_args files argc argv 8080 (\<lambda>_. None) = Some (r, reg, [])"
  shows "logged_locations (initialize_from_args_log files argc argv 8080 (\<lambda>_. None)) = map location_record (the (dispatcher r))"
    "last (initialize_from_args_log files argc argv 8080 (\<lambda>_. None)) = (Sev_info, ''Server initialization complete'')"
proof -
  have "argc = 2 \<and> (\<exists>s c. files (argv ! 1) = Some s \<and> Parse s (NginxConfig []) = Accepted c)"
    using initialize_refused [of argc files argv 8080 "\<lambda>_. None"] assms by auto
  then obtain s c where c: "argc = 2" "files (argv ! 1) = Some s" "Parse s (NginxConfig []) = Accepted c" by blast
  obtain cfg reg1 where x: "ExtractServerConfig c 8080 (\<lambda>_. None) = (cfg, reg1)" by fastforce
  from initialize_accepted [where files = files and argv = argv, OF c x] assms
  have r: "locations cfg \<noteq> []" "dispatcher r = Some (locations cfg)" by (auto split: if_splits)
  have quiet: "logged_locations (Parse_log s st) = []" for s st
  proof (induction s st rule: Parse_log.induct)
    case (1 s st)
    then show ?case
      by (subst Parse_log.simps)
        (auto simp: bad_transition_log_def split: prod.splits sum.splits parse_result.splits)
  qed
  have "logged_locations (ExtractServerConfig_log c) = map location_record (locations cfg)"
    using extracted_logged [of c 8080 "\<lambda>_. None"] x by simp
  with c x r quiet show
    "logged_locations (initialize_from_args_log files argc argv 8080 (\<lambda>_. None)) = map location_record (the (dispatcher r))"
    "last (initialize_from_args_log files argc argv 8080 (\<lambda>_. None)) = (Sev_info, ''Server initialization complete'')"
    by (simp_all add: initialize_from_args_log_def validate_arguments_def load_config_from_file_def Parse_file_def
        Parse_file_log_def initialize_dispatcher_log_def initialize_dispatcher_def InitFromServerConfig_def
        InitFromServerConfig_log_def)
qed



end
