(* ===== verification/Spec2Isabelle.thy ===== *)
theory Spec2Isabelle
  imports Create_Race Startup_Log
begin

text \<open>
  A verification development for the C++ web server of this repository: a configurable
  HTTP/1.1 server with static files, an echo and a health handler, and a CRUD API that keeps
  JSON objects on disk. It models the sources under \<^verbatim>\<open>src/\<close> and \<^verbatim>\<open>include/\<close> as functions and a
  step relation, and proves what they do.

  \<^bold>\<open>How the program works.\<close> \<^verbatim>\<open>main\<close> calls \<^verbatim>\<open>initialize_from_args\<close>, which parses a configuration
  file, extracts the port and the locations, and registers a handler factory for every
  location. The \<^verbatim>\<open>server\<close> accepts connections; each \<^verbatim>\<open>session\<close> collects the bytes of its connection
  until \<^verbatim>\<open>RequestParser\<close> finds a complete head, asks the \<^verbatim>\<open>RequestDispatcher\<close> for the handler of
  the target, calls it, and writes the serialised response. The handlers of the sessions run
  on a pool of threads, until a signal stops it.

  \<^bold>\<open>Theories\<close>, each importing the ones it uses:
    \<^item> \<open>Prelude\<close>: bytes, strings (\<^verbatim>\<open>find\<close>, \<^verbatim>\<open>getline\<close>, \<^verbatim>\<open>to_string\<close>), the search for an unused ID, and
      the ways a call can end (\<open>outcome\<close>).
    \<^item> \<open>Config_Parser\<close> (\<^verbatim>\<open>config_parser.cc\<close>): \<open>ParseToken\<close> is the tokenizer's state machine,
      \<open>Parse_step\<close> one turn of the parser's loop on the stack of open blocks, \<open>Parse\<close> the parser,
      \<open>ToString\<close> the printer. Lemmas: the accepted files are exactly the token streams of
      well-formed trees; printing and parsing are inverse; no undefined behaviour is reached.
    \<^item> \<open>Config_Report\<close> (\<^verbatim>\<open>config_parser.cc\<close>): what the parser prints about a file it refuses.
    \<^item> \<open>Http\<close> (\<^verbatim>\<open>request_handler.h\<close>, \<^verbatim>\<open>response_builder.cc\<close>, \<^verbatim>\<open>session::SerializeResponse\<close>): messages,
      builders, the bytes of a response, and the contract \<open>request_handler\<close> of all handlers.
    \<^item> \<open>Request_Parser\<close> (\<^verbatim>\<open>request_parser.cc\<close>): parsing the bytes of a request.
    \<^item> \<open>Entity_Store\<close> (\<^verbatim>\<open>entity_store.h\<close>, \<^verbatim>\<open>entity_store_validation.cc\<close>): the interface as a record of
      operations, its contract as the locales \<open>entity_store\<close> and \<open>reliable_entity_store\<close> against
      a map from entity and ID to data, and what sequences of operations keep.
    \<^item> \<open>Store_In_Memory\<close>, \<open>Store_Persistent\<close> (\<^verbatim>\<open>entity_store_in_memory.cc\<close>,
      \<^verbatim>\<open>entity_store_persistent.cc\<close>): the two stores, both interpretations of the contract; the
      second over a model of the directory tree in which every file operation may fail.
    \<^item> \<open>Store_Interleaving\<close> (\<^verbatim>\<open>entity_store_persistent.cc\<close>): the operations of the second store cut
      into \<open>stage\<close>s at their calls into the file system. One operation alone is the operation of
      \<open>Store_Persistent\<close> (\<open>alone\<close>). The locale \<open>isolated_steps\<close> says when steps keep to a region of
      common data, so that any interleaving is as if each thread ran alone; the operations meet
      it by entity, and reads, updates and deletes by object. On one object they interfere.
    \<^item> \<open>Store_Linearizable\<close>: runs in which threads begin such operations, take turns and return
      (\<open>concurrent\<close>), with their history. The locale \<open>isolated_operations\<close> extends
      \<open>isolated_steps\<close> by the whole operations; in it every history is sequential. \<open>map_spec\<close> is
      what an operation does on the abstract map. No operation waits for another.
    \<^item> \<open>Api_Handler\<close> (\<^verbatim>\<open>request_handler_api.cc\<close>): the CRUD handler, proved once as a client of
      the contract against the abstract specification \<open>api_spec\<close>.
    \<^item> \<open>File_Handler\<close> (\<^verbatim>\<open>request_handler_file.cc\<close>): static files over Boost.Filesystem.
    \<^item> \<open>Dispatcher\<close> (\<^verbatim>\<open>handler_factory.cc\<close>, \<^verbatim>\<open>handler_registry.cc\<close>, \<^verbatim>\<open>request_dispatcher.cc\<close> and the
      small handlers): from a target to a handler.
    \<^item> \<open>Server_Config\<close> (\<^verbatim>\<open>server_main_utils.cc\<close>): from the file to locations, registry and port.
    \<^item> \<open>Session\<close> (\<^verbatim>\<open>session.cc\<close>): the handlers of one connection; each returns which asynchronous
      operation it starts next, or that the session is deleted.
    \<^item> \<open>Server\<close> (\<^verbatim>\<open>server.cc\<close>): the step relation \<open>server_step\<close> over the sessions on the heap and the
      operations in flight, reachability, and its invariants.
    \<^item> \<open>Server_Traces\<close>: runs of the server as lists of completions. A session collects its own
      bytes and is answered whatever other sessions do; no handler hangs; nothing bounds the
      buffer of a session.
    \<^item> \<open>Server_Service\<close>: the answered requests of a run, the exchanges, against the abstract
      service of all data paths (\<open>service\<close>), also over a restart.
    \<^item> \<open>Api_Concurrent\<close> (\<^verbatim>\<open>request_handler_api.cc\<close>): an API request is one call of the store
      (\<open>api_plan_handles\<close>), so that concurrent requests are linearizable.
    \<^item> \<open>Logging\<close> (\<^verbatim>\<open>server_main_utils.cc\<close>, \<^verbatim>\<open>session.cc\<close> and the parts it calls): the log sinks,
      their format, and the records of a session with its parser, dispatcher, handlers and
      builder; what can be read from a log and what a client can put into it.
    \<^item> \<open>Thread_Pool\<close> (\<^verbatim>\<open>server_main.cc\<close>): \<open>pool_step\<close>, the threads that run the handlers, the
      signal and the shutdown. The pool implements the server (\<open>implements\<close>), keeps its
      invariants, does not deadlock, and stops in a bounded number of steps.
    \<^item> \<open>Program\<close> (\<^verbatim>\<open>server_main.cc\<close>): \<open>main\<close>, with every step of it that can throw.
    \<^item> \<open>Startup_Log\<close> (\<^verbatim>\<open>config_parser.cc\<close>, \<^verbatim>\<open>server_main_utils.cc\<close>, \<^verbatim>\<open>request_dispatcher.cc\<close>,
      \<^verbatim>\<open>server_main.cc\<close>): the log records of start-up, and which failures leave an error in the log.
    \<^item> \<open>Program_Service\<close>: runs of the pool with their exchanges, which are exchanges of the server.
    \<^item> \<open>Staged_Pool\<close> (\<^verbatim>\<open>session.cc\<close>, \<^verbatim>\<open>request_handler_api.cc\<close>, \<^verbatim>\<open>entity_store_persistent.cc\<close>): the pool with the
      store operations of its API handlers in stages. \<open>asked\<close> is \<^verbatim>\<open>handle_read\<close> up to the store,
      \<open>resume\<close> the rest of it; \<open>unrestricted\<close> are all runs, \<open>staged\<close> those without conflicts. \<open>tracks\<close>
      is what holds of the threads in the store in any run; \<open>simulates\<close> puts the runs of \<open>Store_Linearizable\<close>
      and of \<open>Program_Service\<close> together.
    \<^item> \<open>Create_Race\<close>: a run of \<open>Staged_Pool\<close> in which two clients get the same ID for their objects.
    \<^item> this theory: the properties that go through all of them, \<open>Program_service\<close> for whole runs of
      the program and \<open>Server_end_to_end\<close> for the bytes of single requests.

  \<^bold>\<open>State and effects.\<close> An object's members are a record, a method is a function that returns
  its result and the new state. The static registry is passed along. Out parameters are
  results. A virtual call is a case distinction on the handler, or an operation of the record
  \<open>EntityStore\<close>. The metrics line of a response is a result of \<open>handle_read\<close>; the other log
  records are functions of their own in \<open>Logging\<close> and \<open>Startup_Log\<close>.

  \<^bold>\<open>Parameters\<close> stand for what is not in the sources: Boost.JSON is a predicate \<open>json\<close> on bodies,
  Boost.Filesystem the record \<open>filesystem\<close> of functions that may throw, the operating system
  under the persistent store the record \<open>io\<close> of which calls fail, Boost.Asio the choice of
  the next completion in \<open>server_step\<close>. Nothing is assumed of the first two; \<open>io_ok\<close> says
  that no call fails, and only the properties that promise success use it.

  \<^bold>\<open>Integers.\<close> \<^verbatim>\<open>int\<close> is a 32 bit word and \<^verbatim>\<open>short\<close> a 16 bit word. Signed overflow, undefined in C++,
  is taken as wrap-around; \<open>id_fits\<close> keeps the properties of the API away from it, and
  \<open>Api_wrapped_id\<close> shows what happens beyond. No loop has fuel: loops are recursive functions
  with a termination proof, except the search for an unused ID, which is partial and proved
  to end when fewer than all IDs are in use (\<open>next_unused_ex\<close>, \<open>next_unused_int\<close>).

  \<^bold>\<open>Threads.\<close> There are three levels. In \<open>Staged_Pool\<close> the threads interleave the calls into the
  file system that their API handlers make, in \<open>Thread_Pool\<close> handlers of different sessions
  overlap, each with one moment of effect, and \<open>Server\<close> runs one handler at a time.
  \<open>Pool_refines\<close> leads from the second to the third, \<open>Staged_refines\<close> from the first to the
  second for requests of which no two overlap on one entity unless both only read; that every
  level keeps the answers is \<open>Staged_histories\<close> and \<open>Program_service\<close>. With requests that overlap
  in any way, \<open>Staged_exclusion\<close> and \<open>Staged_answers\<close> still hold: the memory is safe and no request
  waits for another. The store alone is the
  subject of \<open>Store_Interleaving\<close> and \<open>Store_Linearizable\<close>: \<open>Store_linearizable\<close> by entity,
  \<open>Store_linearizable_objects\<close> by object for reads, updates and deletes, and
  \<open>Api_linearizable\<close> for whole API requests;
  \<open>Update_interference\<close>, \<open>Persistent_Create_race\<close> and, for whole runs of the pool,
  \<open>Create_race_served\<close> show what handlers can do to each other beyond that. The in-memory store holds a mutex, so its operations are one
  step at every level. Of \<^verbatim>\<open>io_service::run\<close> only its documented behaviour is used, stated in
  \<open>Thread_Pool\<close>.

  \<^bold>\<open>Not modelled:\<close> the inside of Boost.Log, such as the rotation of files (the sinks that are
  added and their format are); the time zone; the three
  seconds of the sleep handler, in which its thread is just \<open>Busy\<close>; destructors after the last
  thread has returned; \<^verbatim>\<open>IsValidJson\<close>, a call into Boost.JSON; two data paths that are
  different names of one directory. Tests, web pages and deployment files are no part of
  the program.
\<close>

section \<open>Properties that span the components\<close>

text \<open>A configuration with one API location.\<close>

definition api_config :: "nat \<Rightarrow> string \<Rightarrow> string \<Rightarrow> NginxConfig" where
  "api_config n p d = NginxConfig [NginxConfigStatement [''server''] (Some (NginxConfig
     [NginxConfigStatement [''listen'', dec_nat n] None,
      NginxConfigStatement [''location'', p] (Some (NginxConfig
        [NginxConfigStatement [''handler'', ''ApiHandler''] None,
         NginxConfigStatement [''data_path'', d] None]))]))]"

lemma wf_api_config:
  "plain_token p \<Longrightarrow> plain_token d \<Longrightarrow> wf_config (api_config n p d)"
  by (simp add: api_config_def wf_token_def plain_dec_nat)
    (simp add: plain_token_def IsWhitespace_def IsTokenDelimiter_def)

lemma Extract_api_config:
  assumes "n < 2 ^ 16"
  shows "ExtractServerConfig (api_config n p d) port0 reg =
    (\<lparr>port = of_nat n, locations = [api_location p d]\<rparr>, site_factories (api_site p d reg))"
proof -
  have "ucast (atoi (dec_nat n)) = (of_nat n :: cshort)"
  proof -
    have eq: "atoi (dec_nat n) = of_nat n" using atoi_dec_nat [of n] assms by simp
    show ?thesis
      unfolding eq word_unat_eq_iff using unat_port [of n] assms by (simp add: unat_of_nat)
  qed
  then show ?thesis
    by (simp add: ExtractServerConfig_def api_config_def server_directive_def read_location_def
        location_directive_def set_arg_def RegisterHandlerForLocation_def location_factory_def
        RegisterHandler_def Let_def api_location_def api_site_def)
qed

text \<open>One request to the API on a new connection, from bytes to bytes.\<close>

lemma api_site_read:
  assumes "m \<in> set kAllowedMethods" "wf_target u" "list_all wf_header hs" "prefix p u" "p \<noteq> []"
    and "r = \<lparr>is_valid = True, raw_request = render_request m u hs body, rq_method = m, url = u,
      rq_http_version = ''1.1'', rq_headers = map (\<lambda>(k, v). k @ '': '' @ trim_blanks v) hs, rq_body = body\<rparr>"
    and "Api_handle_request (Some (EntityStorePersistent (o_io w))) p (o_json w) r (st d) = Done (resp, disk)"
  shows "\<exists>s2 line. handle_read w (api_site p d reg) g False (render_request m u hs body) new_session st
    = Done (Waits s2 (AsyncWrite (SerializeResponse (Some resp))), [line], st(d := disk))"
proof -
  have p: "RequestParser_Parse (request_buffer new_session @ render_request m u hs body) (fresh_request g) = (True, r)"
    using render_parsed [OF assms(1-3), of body g] assms(6) by (simp add: new_session_def)
  have "handle_request w (ApiRequestHandler_on d p) r st = Done (resp, st(d := disk))"
    using assms(7) by (simp add: handle_request_def on_store_Done)
  from respond_valid [OF _ _ this, of "api_site p d reg"] api_site_handler [OF assms(4,5)] assms(6)
    handle_read_complete [OF p, of w "api_site p d reg" st]
  show ?thesis unfolding SerializeResponse_def option.case by (simp, metis)
qed

lemma wf_target_append:
  "wf_target p \<Longrightarrow> list_all (\<lambda>c. \<not> isspace c) s \<Longrightarrow> wf_target (p @ s)"
  by (simp add: wf_target_def)

lemma name_no_space: "IsValidEntityName e \<Longrightarrow> list_all (\<lambda>c. \<not> isspace c) e"
  by (auto simp: IsValidEntityName_def list_all_iff isalnum_def isdigit_def isspace_def code_def)

lemma id_no_space: "0 \<le> sint i \<Longrightarrow> list_all (\<lambda>c. \<not> isspace c) (to_string i)"
  using digit_not_space by (auto simp: to_string_nonneg list_all_iff dest: dec_nat_digits)




lemma api_configured:
  assumes "plain_token p" "plain_token d" "0 < n" "n < 2 ^ 16" "files (argv ! 1) = Some (ToString 0 (api_config n p d))"
  shows "configured files 2 argv \<lparr>port = of_nat n, locations = [api_location p d]\<rparr> (site_factories (api_site p d (\<lambda>_. None)))"
proof -
  have "Parse (ToString 0 (api_config n p d)) (NginxConfig []) = Accepted (api_config n p d)"
    using Parse_ToString_rest [of "api_config n p d" "[]" 0] wf_api_config [OF assms(1,2)]
    by (simp add: token_stream_Nil)
  then have "token_stream (ToString 0 (api_config n p d)) = Some (config_tokens (api_config n p d))"
    "wf_config (api_config n p d)" by (simp_all add: Parse_accepts)
  moreover have "(of_nat n :: cshort) \<noteq> 0" using assms(3,4) by (simp add: word_unat_eq_iff unat_of_nat)
  ultimately show ?thesis using assms(5) Extract_api_config [OF assms(4)] by (simp add: configured_def) blast
qed


end
